theory Spec2Isabelle
  imports Main "HOL-Library.Word" "HOL-Library.Multiset"
begin

unbundle bit_operations_syntax

section \<open>Data model\<close>

text \<open>
  The compressor is a class template over a constant byte string.  The model takes the
  string as a list of bytes (\<open>raw_data\<close>, of length \<open>raw_data.size()\<close>), read as
  \<open>unsigned char\<close>: the newest revision accepts \<open>unsigned char\<close> arrays and converts
  each byte with \<open>static_cast<int>\<close> before it looks it up.

  The results of the build steps carry two kinds of failure.  A read or write outside an
  array (undefined behaviour, rejected during constant evaluation) is the error value
  \<open>OutOfBounds\<close>; a loop of the source that does not return is the value \<open>None\<close>.
  The \<open>requires\<close> clause on the length is the error \<open>EmptyInput\<close>.
\<close>

type_synonym byte = "8 word"

datatype error = EmptyInput | OutOfBounds

type_synonym 'a res = "(error + 'a) option"

abbreviation ok :: "'a \<Rightarrow> 'a res" where
  "ok x \<equiv> Some (Inr x)"

abbreviation oob :: "'a res" where
  "oob \<equiv> Some (Inl OutOfBounds)"

definition bind_res :: "'a res \<Rightarrow> ('a \<Rightarrow> 'b res) \<Rightarrow> 'b res" where
  "bind_res m f = (case m of None \<Rightarrow> None | Some (Inl e) \<Rightarrow> Some (Inl e) | Some (Inr x) \<Rightarrow> f x)"

text \<open>
  \<open>struct node\<close>: \<open>value\<close> is a byte value for a leaf and an identifier from \<open>0x100\<close> upwards
  for a merged node; \<open>freq\<close> is a \<open>long\<close>; \<open>parent\<close> is an index into the tree or \<open>-1\<close>;
  \<open>left\<close> and \<open>right\<close> hold the \<^emph>\<open>values\<close> of the two merged nodes, or \<open>-1\<close>.
  The field \<open>value\<close> is called \<open>val\<close> here.
\<close>

record node =
  val :: int
  freq :: int
  parent :: int
  left :: int
  right :: int

definition node_default :: node where
  "node_default = \<lparr>val = 0, freq = 0, parent = - 1, left = - 1, right = - 1\<rparr>"

text \<open>
  \<open>std::find_if\<close> over a range: the position of the first element that satisfies the
  predicate, or the length of the range (the end iterator) when there is none.
\<close>

definition find_if :: "('a \<Rightarrow> bool) \<Rightarrow> 'a list \<Rightarrow> nat" where
  "find_if P xs = length (takeWhile (\<lambda>x. \<not> P x) xs)"

section \<open>Frequency table builder\<close>

text \<open>
  \<open>build_node_list\<close>.  \<open>std::sort\<close> is the standard library's: its result is a
  permutation of its input in which no later element compares less than an earlier one,
  and the order it leaves among elements of equal frequency is not specified.  The model
  takes the sorting function as the parameter \<open>srt\<close>; \<open>std_sort\<close> is this contract.
\<close>

definition std_sort :: "(node list \<Rightarrow> node list) \<Rightarrow> bool" where
  "std_sort srt \<longleftrightarrow>
     (\<forall>xs. mset (srt xs) = mset xs \<and> sorted_wrt (\<lambda>a b. \<not> freq b < freq a) (srt xs))"

definition count_values :: "byte list \<Rightarrow> node list" where
  "count_values data =
     fold (\<lambda>c list. list[unat c := (list ! unat c)\<lparr>freq := freq (list ! unat c) + 1\<rparr>]) data
       (map (\<lambda>i. node_default\<lparr>val := int i\<rparr>) [0..<256])"

definition build_node_list :: "(node list \<Rightarrow> node list) \<Rightarrow> byte list \<Rightarrow> node list" where
  "build_node_list srt data =
     (let list = srt (count_values data);
          first_valid_node = find_if (\<lambda>n. freq n \<noteq> 0) list;
          dist = length list - first_valid_node;
          fit_size = (if dist < 2 then 2 else dist)
      in drop first_valid_node list @ replicate (fit_size - dist) node_default)"

definition tree_count :: "(node list \<Rightarrow> node list) \<Rightarrow> byte list \<Rightarrow> nat" where
  "tree_count srt data = length (build_node_list srt data) * 2 - 1"

section \<open>Tree builder\<close>

text \<open>
  The working list is the range from \<open>list.begin()\<close> to \<open>list_end\<close>; the part of the
  tree already written is the range from \<open>tree_begin\<close> to \<open>tree.end()\<close>, so a write
  through \<open>*--tree_begin\<close> puts a node in front of it.
\<close>

definition insert_parent :: "node \<Rightarrow> node list \<Rightarrow> node list" where
  "insert_parent new_node rest =
     (let insertion_point = find_if (\<lambda>n. freq n \<ge> freq new_node) rest
      in take insertion_point rest @ new_node # drop insertion_point rest)"

lemma find_if_le: "find_if P xs \<le> length xs"
  by (simp add: find_if_def length_takeWhile_le)

lemma length_insert_parent: "length (insert_parent n rest) = Suc (length rest)"
  using find_if_le [of "\<lambda>m. freq m \<ge> freq n" rest]
  by (simp add: insert_parent_def Let_def)

function merge_nodes :: "node list \<Rightarrow> node list \<Rightarrow> int \<Rightarrow> error + node list" where
  "merge_nodes list tree next_parent_node_value =
     (if length list < 2 then Inl OutOfBounds
      else
        let new_node = \<lparr>val = next_parent_node_value,
                        freq = freq (list ! 0) + freq (list ! 1),
                        parent = - 1,
                        left = val (list ! 0),
                        right = val (list ! 1)\<rparr>;
            tree' = (list ! 1) # (list ! 0) # tree;
            rest = drop 2 list
        in if length list - 1 = 1 then Inr (new_node # tree')
           else merge_nodes (insert_parent new_node rest) tree' (next_parent_node_value + 1))"
  by pat_completeness auto
termination
  by (relation "measure (\<lambda>(list, tree, v). length list)")
     (auto simp: length_insert_parent)

definition link_parents :: "node list \<Rightarrow> node list" where
  "link_parents tree =
     fold (\<lambda>iter t.
        if parent (t ! iter) = - 1 then
          (let p = find_if (\<lambda>n. left n = val (t ! iter) \<or> right n = val (t ! iter)) (take iter t)
           in if p \<noteq> iter then t[iter := (t ! iter)\<lparr>parent := int p\<rparr>] else t)
        else t) [1..<length tree] tree"

definition build_node_tree :: "(node list \<Rightarrow> node list) \<Rightarrow> byte list \<Rightarrow> error + node list" where
  "build_node_tree srt data =
     (case merge_nodes (build_node_list srt data) [] 0x100 of
        Inl e \<Rightarrow> Inl e
      | Inr tree \<Rightarrow> Inr (link_parents tree))"

section \<open>Size calculator\<close>

partial_function (option) count_walk :: "node list \<Rightarrow> nat \<Rightarrow> int \<Rightarrow> int \<Rightarrow> (int \<times> int) res" where
  "count_walk tree leaf bytes bits =
     (if leaf \<ge> length tree then oob
      else if parent (tree ! leaf) = - 1 then ok (bytes, bits)
      else if parent (tree ! leaf) < 0 then oob
      else if bits + 1 = 8 then count_walk tree (nat (parent (tree ! leaf))) (bytes + 1) 0
      else count_walk tree (nat (parent (tree ! leaf))) bytes (bits + 1))"

declare count_walk.simps [code]

fun size_loop :: "node list \<Rightarrow> byte list \<Rightarrow> int \<Rightarrow> int \<Rightarrow> (int \<times> int) res" where
  "size_loop tree [] bytes bits = ok (bytes, bits)"
| "size_loop tree (c # cs) bytes bits =
     bind_res (count_walk tree (find_if (\<lambda>n. val n = uint c) tree) bytes bits)
       (\<lambda>(bytes', bits'). size_loop tree cs bytes' bits')"

definition compressed_size_info :: "(node list \<Rightarrow> node list) \<Rightarrow> byte list \<Rightarrow> (int \<times> int) res" where
  "compressed_size_info srt data =
     (case build_node_tree srt data of
        Inl e \<Rightarrow> Some (Inl e)
      | Inr tree \<Rightarrow> size_loop tree data 1 0)"

section \<open>Encoder\<close>

text \<open>
  \<open>compress\<close> works on the object's array \<open>compressed_data\<close> (\<open>cd\<close>), which it
  changes with \<open>|=\<close>; \<open>bytes\<close> and \<open>bits\<close> are the \<open>long\<close> cursor.
\<close>

partial_function (option) encode_walk ::
  "node list \<Rightarrow> nat \<Rightarrow> int \<Rightarrow> int \<Rightarrow> byte list \<Rightarrow> (int \<times> int \<times> byte list) res" where
  "encode_walk tree leaf bytes bits cd =
     (if leaf \<ge> length tree then oob
      else if parent (tree ! leaf) = - 1 then ok (bytes, bits, cd)
      else if parent (tree ! leaf) < 0 \<or> nat (parent (tree ! leaf)) \<ge> length tree then oob
      else if right (tree ! nat (parent (tree ! leaf))) = val (tree ! leaf) \<and>
              (bytes - 1 < 0 \<or> nat (bytes - 1) \<ge> length cd) then oob
      else
        let cd' = (if right (tree ! nat (parent (tree ! leaf))) = val (tree ! leaf)
                   then cd[nat (bytes - 1) := cd ! nat (bytes - 1) OR push_bit (nat bits) 1]
                   else cd)
        in if bits + 1 = 8 then encode_walk tree (nat (parent (tree ! leaf))) (bytes - 1) 0 cd'
           else encode_walk tree (nat (parent (tree ! leaf))) bytes (bits + 1) cd')"

declare encode_walk.simps [code]

fun compress_loop ::
  "node list \<Rightarrow> byte list \<Rightarrow> int \<Rightarrow> int \<Rightarrow> byte list \<Rightarrow> (int \<times> int \<times> byte list) res" where
  "compress_loop tree [] bytes bits cd = ok (bytes, bits, cd)"
| "compress_loop tree (c # cs) bytes bits cd =
     bind_res (encode_walk tree (find_if (\<lambda>n. val n = uint c) tree) bytes bits cd)
       (\<lambda>(bytes', bits', cd'). compress_loop tree cs bytes' bits' cd')"

text \<open>The loop runs from the last byte of the data to the first: over \<open>rev data\<close>.\<close>

definition compress :: "(node list \<Rightarrow> node list) \<Rightarrow> byte list \<Rightarrow> byte list \<Rightarrow> byte list res" where
  "compress srt data cd =
     (case build_node_tree srt data of
        Inl e \<Rightarrow> Some (Inl e)
      | Inr tree \<Rightarrow>
          bind_res (compressed_size_info srt data) (\<lambda>(bytes, bits).
            bind_res (if bits > 0 then compress_loop tree (rev data) bytes (8 - bits) cd
                      else compress_loop tree (rev data) (bytes - 1) 0 cd)
              (\<lambda>(bytes', bits', cd'). ok cd')))"

section \<open>Decode table serializer\<close>

text \<open>
  For node \<open>i\<close> the two inner loops look for the first \<open>j > i\<close> whose value is the
  \<open>left\<close> (the \<open>right\<close>) of node \<open>i\<close>; \<open>child_distance\<close> is the \<open>j - i\<close> or \<open>0\<close>
  of the source, before it is stored in an \<open>unsigned char\<close>.  The tree holds
  \<open>tree_count()\<close> nodes, the bound of the loops.
\<close>

definition child_distance :: "node list \<Rightarrow> nat \<Rightarrow> int \<Rightarrow> nat" where
  "child_distance tree i v =
     (let j = i + 1 + find_if (\<lambda>n. v = val n) (drop (i + 1) tree)
      in if j < length tree then j - i else 0)"

definition decode_entry :: "node list \<Rightarrow> nat \<Rightarrow> byte list" where
  "decode_entry tree i =
     [if val (tree ! i) \<le> 0xFF then word_of_int (val (tree ! i)) else 0,
      word_of_nat (child_distance tree i (left (tree ! i))),
      word_of_nat (child_distance tree i (right (tree ! i)))]"

definition decode_table :: "node list \<Rightarrow> byte list" where
  "decode_table tree = concat (map (decode_entry tree) [0..<length tree])"

text \<open>
  \<open>build_decode_tree\<close> of the newest revision writes the table into \<open>compressed_data\<close>
  from position \<open>compressed_size_info().first\<close> on.
\<close>

definition write_at :: "nat \<Rightarrow> 'a list \<Rightarrow> 'a list \<Rightarrow> 'a list res" where
  "write_at pos xs cd =
     (if pos + length xs \<le> length cd then ok (take pos cd @ xs @ drop (pos + length xs) cd)
      else oob)"

definition build_decode_tree :: "(node list \<Rightarrow> node list) \<Rightarrow> byte list \<Rightarrow> byte list \<Rightarrow> byte list res" where
  "build_decode_tree srt data cd =
     (case build_node_tree srt data of
        Inl e \<Rightarrow> Some (Inl e)
      | Inr tree \<Rightarrow>
          bind_res (compressed_size_info srt data) (\<lambda>(bytes, bits).
            if bytes < 0 then oob else write_at (nat bytes) (decode_table tree) cd))"

section \<open>Fallback policy and construction\<close>

text \<open>
  \<open>compressed_size\<close> adds a \<open>long\<close> and an \<open>unsigned long\<close>, and \<open>bytes_saved\<close>
  subtracts two \<open>unsigned long\<close> values and reads the difference as a \<open>long\<close>:
  64-bit words, with the wrap-around of the subtraction.
\<close>

definition compressed_size :: "(node list \<Rightarrow> node list) \<Rightarrow> byte list \<Rightarrow> 64 word res" where
  "compressed_size srt data =
     bind_res (compressed_size_info srt data) (\<lambda>(bytes, bits).
       ok (word_of_int bytes + 3 * word_of_nat (tree_count srt data)))"

definition uncompressed_size :: "byte list \<Rightarrow> 64 word" where
  "uncompressed_size data = word_of_nat (length data)"

definition bytes_saved :: "(node list \<Rightarrow> node list) \<Rightarrow> byte list \<Rightarrow> int res" where
  "bytes_saved srt data =
     bind_res (compressed_size srt data) (\<lambda>c.
       let diff = sint (uncompressed_size data - c)
       in ok (if diff > 0 then diff else 0))"

text \<open>
  The object of the newest revision (\<open>huffman_compressor\<close>): its only member is
  \<open>compressed_data\<close>, the payload followed by the decode table, or the raw bytes.
  Construction is refused (\<open>requires\<close>) for an empty string.
\<close>

definition huffman_compressor :: "(node list \<Rightarrow> node list) \<Rightarrow> byte list \<Rightarrow> byte list res" where
  "huffman_compressor srt raw_data =
     (if length raw_data = 0 then Some (Inl EmptyInput)
      else
        bind_res (bytes_saved srt raw_data) (\<lambda>saved.
          if saved > 0 then
            bind_res (compressed_size_info srt raw_data) (\<lambda>(bytes, bits).
              bind_res (build_decode_tree srt raw_data
                          (replicate (nat bytes + 3 * tree_count srt raw_data) 0))
                (\<lambda>cd. compress srt raw_data cd))
          else ok raw_data))"



section \<open>Decoder\<close>

text \<open>
  The decoder of the newest revision (\<open>huffman_compressor::decoder\<close>).  Its pointers
  into \<open>compressed_data\<close> are positions in the array \<open>cd\<close>; \<open>comp_data\<close> is the
  position the array starts at, \<open>0\<close>.  A default-constructed decoder has a null
  \<open>m_table\<close>, which nothing reads; it is \<open>0\<close> here.
\<close>

record decoder =
  m_data :: nat
  m_table :: nat
  m_bit :: byte
  m_current :: int

definition decoder_end :: "(node list \<Rightarrow> node list) \<Rightarrow> byte list \<Rightarrow> nat \<Rightarrow> decoder res" where
  "decoder_end srt raw_data comp_data =
     bind_res (bytes_saved srt raw_data) (\<lambda>saved.
       if saved > 0 then
         bind_res (compressed_size_info srt raw_data) (\<lambda>(size_bytes, last_bits).
           if int comp_data + (size_bytes - 1) < 0 then oob
           else ok \<lparr>m_data = nat (int comp_data + (size_bytes - 1)), m_table = 0,
                     m_bit = push_bit (nat (7 - last_bits)) 1, m_current = - 1\<rparr>)
       else ok \<lparr>m_data = comp_data + length raw_data, m_table = 0,
                 m_bit = 0x80, m_current = - 1\<rparr>)"

text \<open>
  The \<open>do ... while (node[1] != 0)\<close> loop of \<open>get_next\<close>: \<open>node\<close> is the position of
  the current table entry, \<open>data\<close> the payload byte being read and \<open>bt\<close> the mask \<open>bit\<close>.
\<close>

partial_function (option) table_walk ::
  "byte list \<Rightarrow> nat \<Rightarrow> nat \<Rightarrow> byte \<Rightarrow> byte \<Rightarrow> (nat \<times> nat \<times> byte) res" where
  "table_walk cd node mdata data bt =
     (if node + (if data AND bt \<noteq> 0 then 2 else 1) \<ge> length cd then oob
      else
        let node' = node + unat (cd ! (node + (if data AND bt \<noteq> 0 then 2 else 1))) * 3
        in if drop_bit 1 bt = 0 then
             (if mdata + 1 \<ge> length cd then oob
              else if node' + 1 \<ge> length cd then oob
              else if cd ! (node' + 1) \<noteq> 0
                then table_walk cd node' (mdata + 1) (cd ! (mdata + 1)) 0x80
              else ok (node', mdata + 1, 0x80))
           else
             (if node' + 1 \<ge> length cd then oob
              else if cd ! (node' + 1) \<noteq> 0
                then table_walk cd node' mdata data (drop_bit 1 bt)
              else ok (node', mdata, drop_bit 1 bt)))"

declare table_walk.simps [code]

definition get_next :: "(node list \<Rightarrow> node list) \<Rightarrow> byte list \<Rightarrow> byte list \<Rightarrow> decoder \<Rightarrow> decoder res" where
  "get_next srt raw_data cd d =
     bind_res (compressed_size_info srt raw_data) (\<lambda>(first, bits).
       bind_res (decoder_end srt raw_data (m_table d - nat first)) (\<lambda>e.
         if m_data d = m_data e \<and> m_bit d = m_bit e then ok (d\<lparr>m_current := - 1\<rparr>)
         else
           bind_res (bytes_saved srt raw_data) (\<lambda>saved.
             if saved > 0 then
               (if m_data d \<ge> length cd then oob
                else
                  bind_res (table_walk cd (m_table d) (m_data d) (cd ! m_data d) (m_bit d))
                    (\<lambda>(node, mdata, bt).
                       ok (d\<lparr>m_data := mdata, m_bit := bt, m_current := uint (cd ! node)\<rparr>)))
             else
               (if m_data d \<ge> length cd then oob
                else ok (d\<lparr>m_current := uint (cd ! m_data d), m_data := m_data d + 1\<rparr>)))))"

text \<open>\<open>begin()\<close>: the constructor sets the two pointers and decodes the first symbol.\<close>

definition decoder_begin :: "(node list \<Rightarrow> node list) \<Rightarrow> byte list \<Rightarrow> byte list \<Rightarrow> decoder res" where
  "decoder_begin srt raw_data cd =
     bind_res (compressed_size_info srt raw_data) (\<lambda>(first, bits).
       get_next srt raw_data cd
         \<lparr>m_data = 0, m_table = nat first, m_bit = 0x80, m_current = - 1\<rparr>)"

definition decoder_eq :: "decoder \<Rightarrow> decoder \<Rightarrow> bool" where
  "decoder_eq a b \<longleftrightarrow> m_data a = m_data b \<and> m_bit a = m_bit b \<and> m_current a = m_current b"

text \<open>
  Iterating from \<open>begin()\<close> to \<open>end()\<close>, as a range-based \<open>for\<close> does: while the
  iterator differs from \<open>end()\<close>, take \<open>*it\<close> and apply \<open>++it\<close>.
\<close>

partial_function (option) decode_range ::
  "(node list \<Rightarrow> node list) \<Rightarrow> byte list \<Rightarrow> byte list \<Rightarrow> decoder \<Rightarrow> decoder \<Rightarrow> int list \<Rightarrow> int list res" where
  "decode_range srt raw_data cd it e acc =
     (if decoder_eq it e then ok (rev acc)
      else case get_next srt raw_data cd it of
             None \<Rightarrow> None
           | Some (Inl err) \<Rightarrow> Some (Inl err)
           | Some (Inr it') \<Rightarrow> decode_range srt raw_data cd it' e (m_current it # acc))"

declare decode_range.simps [code]

definition decode_all :: "(node list \<Rightarrow> node list) \<Rightarrow> byte list \<Rightarrow> byte list \<Rightarrow> int list res" where
  "decode_all srt raw_data cd =
     bind_res (decoder_begin srt raw_data cd) (\<lambda>b.
       bind_res (decoder_end srt raw_data 0) (\<lambda>e.
         decode_range srt raw_data cd b e []))"

section \<open>The earlier revision: \<open>huffman_compress\<close> and \<open>decode_info\<close>\<close>

text \<open>
  \<open>consteval_huffman.hpp\<close> holds an earlier revision with the same build steps.  Its
  object has two arrays, \<open>compressed_data\<close> and \<open>decode_tree\<close>; its decoder
  \<open>decode_info\<close> keeps a position \<open>m_pos\<close>, has no test for the end in \<open>get_next\<close>,
  and in fallback mode reads the template argument \<open>data\<close> itself.
\<close>

record huffman_compress_obj =
  compressed_data :: "byte list"
  decode_tree :: "byte list"

definition huffman_compress :: "(node list \<Rightarrow> node list) \<Rightarrow> byte list \<Rightarrow> huffman_compress_obj res" where
  "huffman_compress srt data =
     (if length data = 0 then Some (Inl EmptyInput)
      else
        bind_res (bytes_saved srt data) (\<lambda>saved.
          if saved > 0 then
            bind_res (compressed_size_info srt data) (\<lambda>(bytes, bits).
              case build_node_tree srt data of
                Inl e \<Rightarrow> Some (Inl e)
              | Inr tree \<Rightarrow>
                  bind_res (compress srt data (replicate (nat bytes) 0)) (\<lambda>cd.
                    ok \<lparr>compressed_data = cd, decode_tree = decode_table tree\<rparr>))
          else ok \<lparr>compressed_data = data,
                    decode_tree = replicate (3 * tree_count srt data) 0\<rparr>))"

record decode_info =
  m_pos :: int
  m_bit_i :: byte
  m_current_i :: int

partial_function (option) table_walk_i ::
  "huffman_compress_obj \<Rightarrow> nat \<Rightarrow> int \<Rightarrow> byte \<Rightarrow> (nat \<times> int \<times> byte) res" where
  "table_walk_i obj node pos bt =
     (if pos < 0 \<or> nat pos \<ge> length (compressed_data obj) then oob
      else if node + (if compressed_data obj ! nat pos AND bt \<noteq> 0 then 2 else 1)
                \<ge> length (decode_tree obj) then oob
      else
        let node' = node + unat (decode_tree obj !
                      (node + (if compressed_data obj ! nat pos AND bt \<noteq> 0 then 2 else 1))) * 3;
            bt' = (if drop_bit 1 bt = 0 then 0x80 else drop_bit 1 bt);
            pos' = (if drop_bit 1 bt = 0 then pos + 1 else pos)
        in if node' + 1 \<ge> length (decode_tree obj) then oob
           else if decode_tree obj ! (node' + 1) \<noteq> 0 then table_walk_i obj node' pos' bt'
           else ok (node', pos', bt'))"

declare table_walk_i.simps [code]

definition get_next_i ::
  "(node list \<Rightarrow> node list) \<Rightarrow> byte list \<Rightarrow> huffman_compress_obj \<Rightarrow> decode_info \<Rightarrow> decode_info res" where
  "get_next_i srt data obj d =
     bind_res (bytes_saved srt data) (\<lambda>saved.
       if saved > 0 then
         bind_res (table_walk_i obj 0 (m_pos d) (m_bit_i d)) (\<lambda>(node, pos, bt).
           ok \<lparr>m_pos = pos, m_bit_i = bt, m_current_i = uint (decode_tree obj ! node)\<rparr>)
       else
         (if m_pos d < 0 \<or> nat (m_pos d) \<ge> length data then oob
          else ok (d\<lparr>m_current_i := uint (data ! nat (m_pos d)), m_pos := m_pos d + 1\<rparr>)))"

definition begin_i ::
  "(node list \<Rightarrow> node list) \<Rightarrow> byte list \<Rightarrow> huffman_compress_obj \<Rightarrow> decode_info res" where
  "begin_i srt data obj = get_next_i srt data obj \<lparr>m_pos = 0, m_bit_i = 0x80, m_current_i = - 1\<rparr>"

text \<open>\<open>end()\<close> builds a decoder as \<open>begin()\<close> does and then moves its position.\<close>

definition end_i ::
  "(node list \<Rightarrow> node list) \<Rightarrow> byte list \<Rightarrow> huffman_compress_obj \<Rightarrow> decode_info res" where
  "end_i srt data obj =
     bind_res (begin_i srt data obj) (\<lambda>d.
       bind_res (bytes_saved srt data) (\<lambda>saved.
         if saved > 0 then
           bind_res (compressed_size_info srt data) (\<lambda>(size_bytes, last_bits).
             ok (d\<lparr>m_pos := size_bytes - 1, m_bit_i := push_bit (nat (7 - last_bits)) 1\<rparr>))
         else ok (d\<lparr>m_pos := int (length data) + 1\<rparr>)))"

definition decode_info_eq :: "decode_info \<Rightarrow> decode_info \<Rightarrow> bool" where
  "decode_info_eq a b \<longleftrightarrow> m_bit_i a = m_bit_i b \<and> m_pos a = m_pos b"

partial_function (option) decode_range_i ::
  "(node list \<Rightarrow> node list) \<Rightarrow> byte list \<Rightarrow> huffman_compress_obj \<Rightarrow> decode_info \<Rightarrow> decode_info \<Rightarrow>
     int list \<Rightarrow> int list res" where
  "decode_range_i srt data obj it e acc =
     (if decode_info_eq it e then ok (rev acc)
      else case get_next_i srt data obj it of
             None \<Rightarrow> None
           | Some (Inl err) \<Rightarrow> Some (Inl err)
           | Some (Inr it') \<Rightarrow> decode_range_i srt data obj it' e (m_current_i it # acc))"

declare decode_range_i.simps [code]

definition decode_all_i ::
  "(node list \<Rightarrow> node list) \<Rightarrow> byte list \<Rightarrow> huffman_compress_obj \<Rightarrow> int list res" where
  "decode_all_i srt data obj =
     bind_res (begin_i srt data obj) (\<lambda>b.
       bind_res (end_i srt data obj) (\<lambda>e.
         decode_range_i srt data obj b e []))"

section \<open>Properties of the frequency table builder\<close>

definition symbol_node :: "byte list \<Rightarrow> nat \<Rightarrow> node" where
  "symbol_node data i = \<lparr>val = int i, freq = int (count_list data (word_of_nat i)), parent = - 1, left = - 1, right = - 1\<rparr>"

lemma unat_byte_lt: "unat (c::byte) < 256"
  by (rule order_less_le_trans [OF unsigned_less]) simp

lemma map_upt_update:
  "k < n \<Longrightarrow> (map g [0..<n])[k := v] = map (g(k := v)) [0..<n]"
  by (rule nth_equalityI) (auto simp: nth_list_update)

lemma count_fold_gen:
  "fold (\<lambda>c list. list[unat c := (list ! unat c)\<lparr>freq := freq (list ! unat c) + 1\<rparr>]) (data :: byte list)
     (map (\<lambda>i. \<lparr>val = int i, freq = f i, parent = - 1, left = - 1, right = - 1\<rparr>) [0..<256])
   = map (\<lambda>i. \<lparr>val = int i, freq = f i + int (count_list data (word_of_nat i)), parent = - 1, left = - 1, right = - 1\<rparr>) [0..<256]"
proof (induction data arbitrary: f)
  case Nil
  show ?case by simp
next
  case (Cons c cs)
  have lt: "unat c < 256" by (rule unat_byte_lt)
  let ?g = "\<lambda>i. \<lparr>val = int i, freq = f i, parent = - 1, left = - 1, right = - 1\<rparr>"
  let ?f' = "\<lambda>i. if i = unat c then f i + 1 else f i"
  have step: "(map ?g [0..<256])[unat c := (map ?g [0..<256] ! unat c)\<lparr>freq := freq (map ?g [0..<256] ! unat c) + 1\<rparr>]
      = map (\<lambda>i. \<lparr>val = int i, freq = ?f' i, parent = - 1, left = - 1, right = - 1\<rparr>) [0..<256]"
    using lt by (intro nth_equalityI) (auto simp: nth_list_update simp del: upt_Suc)
  have eqc: "\<And>i. i < 256 \<Longrightarrow> (c = (word_of_nat i :: byte)) = (i = unat c)"
    using lt by (auto simp: unat_of_nat)
  show ?case
    apply (simp only: fold_simps step Cons.IH)
    apply (rule map_cong [OF refl])
    using eqc by (auto simp del: upt_Suc)
qed

lemma count_values_eq: "count_values data = map (symbol_node data) [0..<256]"
  unfolding count_values_def node_default_def symbol_node_def
  using count_fold_gen [of data "\<lambda>i. 0"] by simp

definition occurring :: "byte list \<Rightarrow> nat list" where
  "occurring data = filter (\<lambda>i. (word_of_nat i :: byte) \<in> set data) [0..<256]"

lemma freq_symbol_node [simp]: "freq (symbol_node data i) = int (count_list data (word_of_nat i))"
  and val_symbol_node [simp]: "val (symbol_node data i) = int i"
  and parent_symbol_node [simp]: "parent (symbol_node data i) = - 1"
  and left_symbol_node [simp]: "left (symbol_node data i) = - 1"
  and right_symbol_node [simp]: "right (symbol_node data i) = - 1"
  by (simp_all add: symbol_node_def)

lemma dropWhile_sorted_filter:
  "sorted_wrt (\<lambda>a b. \<not> freq b < freq a) l \<Longrightarrow> \<forall>n \<in> set l. 0 \<le> freq n \<Longrightarrow>
   dropWhile (\<lambda>n. \<not> freq n \<noteq> 0) l = filter (\<lambda>n. freq n \<noteq> 0) l"
proof (induction l)
  case Nil
  show ?case by simp
next
  case (Cons x xs)
  show ?case
  proof (cases "freq x = 0")
    case True
    with Cons show ?thesis by simp
  next
    case False
    with Cons.prems have "\<forall>n \<in> set xs. freq n \<noteq> 0" by force
    then have "filter (\<lambda>n. freq n \<noteq> 0) xs = xs" by (simp add: filter_id_conv)
    with False show ?thesis by simp
  qed
qed

lemma drop_find_if: "drop (find_if P xs) xs = dropWhile (\<lambda>x. \<not> P x) xs"
  by (simp add: find_if_def dropWhile_eq_drop)

lemma filter_count_values:
  "filter (\<lambda>n. freq n \<noteq> 0) (count_values data) = map (symbol_node data) (occurring data)"
  by (simp add: count_values_eq occurring_def filter_map o_def count_list_0_iff del: upt_Suc)

definition valid_nodes :: "(node list \<Rightarrow> node list) \<Rightarrow> byte list \<Rightarrow> node list" where
  "valid_nodes srt data = filter (\<lambda>n. freq n \<noteq> 0) (srt (count_values data))"

lemma std_sortD:
  assumes "std_sort srt"
  shows "mset (srt xs) = mset xs" and "sorted_wrt (\<lambda>a b. \<not> freq b < freq a) (srt xs)"
  using assms by (auto simp: std_sort_def)

lemma count_values_nonneg: "n \<in> set (count_values data) \<Longrightarrow> 0 \<le> freq n"
  by (auto simp: count_values_eq simp del: upt_Suc)

lemma build_node_list_eq:
  assumes "std_sort srt"
  shows "build_node_list srt data =
           valid_nodes srt data @ replicate (2 - length (valid_nodes srt data)) node_default"
proof -
  let ?l = "srt (count_values data)"
  have nn: "\<forall>n \<in> set ?l. 0 \<le> freq n"
    using std_sortD(1) [OF assms, of "count_values data"] count_values_nonneg
    by (metis set_mset_mset)
  have d: "drop (find_if (\<lambda>n. freq n \<noteq> 0) ?l) ?l = valid_nodes srt data"
    unfolding valid_nodes_def drop_find_if
    by (rule dropWhile_sorted_filter [OF std_sortD(2) [OF assms] nn])
  have len: "length ?l - find_if (\<lambda>n. freq n \<noteq> 0) ?l = length (valid_nodes srt data)"
    using arg_cong [OF d, of length] by simp
  show ?thesis
    unfolding build_node_list_def Let_def d len by simp
qed

lemma mset_valid_nodes:
  assumes "std_sort srt"
  shows "mset (valid_nodes srt data) = mset (map (symbol_node data) (occurring data))"
proof -
  have "mset (valid_nodes srt data) = filter_mset (\<lambda>n. freq n \<noteq> 0) (mset (srt (count_values data)))"
    by (simp add: valid_nodes_def)
  also have "\<dots> = mset (filter (\<lambda>n. freq n \<noteq> 0) (count_values data))"
    by (simp add: std_sortD(1) [OF assms])
  finally show ?thesis by (simp add: filter_count_values)
qed

lemma sorted_valid_nodes:
  assumes "std_sort srt"
  shows "sorted_wrt (\<lambda>a b. freq a \<le> freq b) (valid_nodes srt data)"
proof -
  have "sorted_wrt (\<lambda>a b. \<not> freq b < freq a) (valid_nodes srt data)"
    unfolding valid_nodes_def by (rule sorted_wrt_filter [OF std_sortD(2) [OF assms]])
  then show ?thesis by (simp add: not_less)
qed

lemma set_valid_nodes:
  assumes "std_sort srt"
  shows "set (valid_nodes srt data) = symbol_node data ` set (occurring data)"
  using arg_cong [OF mset_valid_nodes [OF assms, of data], of set_mset] by simp

lemma length_valid_nodes:
  assumes "std_sort srt"
  shows "length (valid_nodes srt data) = length (occurring data)"
  using arg_cong [OF mset_valid_nodes [OF assms, of data], of size] by simp

lemma occurring_card: "length (occurring data) = card (set data)"
proof -
  have d: "distinct (occurring data)" by (simp add: occurring_def)
  have "(word_of_nat :: nat \<Rightarrow> byte) ` set (occurring data) = set data"
  proof (rule set_eqI, rule iffI)
    fix c :: byte assume "c \<in> set data"
    moreover have "unat c < 256" by (rule unat_byte_lt)
    ultimately have "unat c \<in> set (occurring data)" by (simp add: occurring_def)
    then show "c \<in> word_of_nat ` set (occurring data)" by (metis image_eqI of_nat_unat ucast_id)
  qed (auto simp: occurring_def)
  moreover have "inj_on (word_of_nat :: nat \<Rightarrow> byte) (set (occurring data))"
    by (rule inj_onI) (auto simp: occurring_def word_of_nat_eq_iff take_bit_nat_eq_self)
  ultimately have "card (set data) = card (set (occurring data))"
    by (metis card_image)
  with d show ?thesis by (simp add: distinct_card)
qed

lemma sum_count_all:
  "(\<Sum>i\<leftarrow>[0..<256]. int (count_list (data :: byte list) (word_of_nat i))) = int (length data)"
proof (induction data)
  case Nil
  show ?case by (simp del: upt_Suc)
next
  case (Cons c cs)
  have one: "(\<Sum>i\<leftarrow>[0..<256]. (if c = (word_of_nat i :: byte) then 1 else 0 :: int)) = 1"
  proof -
    have "\<And>i. i < 256 \<Longrightarrow> (c = (word_of_nat i :: byte)) = (i = unat c)"
      using unat_byte_lt [of c] by (auto simp: unat_of_nat)
    then have "(\<Sum>i\<leftarrow>[0..<256]. (if c = (word_of_nat i :: byte) then 1 else 0 :: int))
        = (\<Sum>i\<leftarrow>[0..<256]. (if i = unat c then 1 else 0 :: int))"
      by (intro arg_cong [where f = sum_list] map_cong) (auto simp del: upt_Suc)
    also have "\<dots> = 1"
      using unat_byte_lt [of c]
      by (simp add: sum_list_distinct_conv_sum_set del: upt_Suc)
    finally show ?thesis .
  qed
  have "(\<Sum>i\<leftarrow>[0..<256]. int (count_list (c # cs) (word_of_nat i)))
      = (\<Sum>i\<leftarrow>[0..<256]. int (count_list cs (word_of_nat i)) + (if c = (word_of_nat i :: byte) then 1 else 0))"
    by (intro arg_cong [where f = sum_list] map_cong) (auto simp del: upt_Suc)
  also have "\<dots> = int (length cs) + 1"
    by (simp only: sum_list_addf Cons.IH one)
  finally show ?case by simp
qed

lemma sum_freq_filter:
  "sum_list (map freq (filter (\<lambda>n. freq n \<noteq> 0) xs)) = sum_list (map freq xs)"
  by (induction xs) simp_all

lemma sum_freq_valid_nodes:
  assumes "std_sort srt"
  shows "sum_list (map freq (valid_nodes srt data)) = int (length data)"
proof -
  have "sum_list (map freq (valid_nodes srt data)) = sum_mset (image_mset freq (mset (valid_nodes srt data)))"
    by (metis mset_map sum_mset_sum_list)
  also have "\<dots> = sum_list (map freq (filter (\<lambda>n. freq n \<noteq> 0) (count_values data)))"
    by (simp only: mset_valid_nodes [OF assms] filter_count_values) (metis mset_map sum_mset_sum_list)
  also have "\<dots> = sum_list (map freq (count_values data))"
    by (rule sum_freq_filter)
  also have "\<dots> = int (length data)"
    using sum_count_all [of data] by (simp add: count_values_eq o_def del: upt_Suc)
  finally show ?thesis .
qed

section \<open>Claims about the frequency table builder\<close>

subsection \<open>Two sorting functions that meet the contract of \<open>std::sort\<close>\<close>

text \<open>
  \<open>sort_key freq\<close> is insertion sort, which keeps elements of equal frequency in their
  order.  \<open>sort_ties_reversed\<close> sorts by decreasing frequency and reverses the result,
  so it leaves elements of equal frequency in the opposite order.  Both are permutations
  sorted by frequency, which is all that \<open>std::sort\<close> promises.
\<close>

definition sort_ties_reversed :: "node list \<Rightarrow> node list" where
  "sort_ties_reversed xs = rev (sort_key (\<lambda>n. - freq n) xs)"

lemma std_sort_sort_key: "std_sort (sort_key freq)"
  unfolding std_sort_def
proof (intro allI conjI)
  fix xs :: "node list"
  show "mset (sort_key freq xs) = mset xs" by simp
  have "sorted (map freq (sort_key freq xs))" by simp
  then show "sorted_wrt (\<lambda>a b. \<not> freq b < freq a) (sort_key freq xs)"
    by (simp add: sorted_map not_less)
qed

lemma std_sort_sort_ties_reversed: "std_sort sort_ties_reversed"
  unfolding std_sort_def sort_ties_reversed_def
proof (intro allI conjI)
  fix xs :: "node list"
  show "mset (rev (sort_key (\<lambda>n. - freq n) xs)) = mset xs" by simp
  have "sorted (map (\<lambda>n. - freq n) (sort_key (\<lambda>n. - freq n) xs))" by simp
  then have "sorted_wrt (\<lambda>a b. freq b \<le> freq a) (sort_key (\<lambda>n. - freq n) xs)"
    by (simp add: sorted_map)
  then have "sorted_wrt (\<lambda>a b. freq a \<le> freq b) (rev (sort_key (\<lambda>n. - freq n) xs))"
    by (simp add: sorted_wrt_rev)
  then show "sorted_wrt (\<lambda>a b. \<not> freq b < freq a) (rev (sort_key (\<lambda>n. - freq n) xs))"
    by (simp add: not_less)
qed

subsection \<open>C6: the list of the frequency table builder\<close>

text \<open>
  C6 (as stated): for every input the builder returns the occurring symbols sorted by
  ascending frequency, equal frequencies in the order of the scan from 0 to 255.  In the
  terms of the model: \<open>build_node_list srt data\<close> is the stable sort of the nodes of the
  occurring symbols.

  The code differs in two ways.  With a single distinct symbol the list gets a second
  entry, a default node of value 0 and frequency 0, placed \<^emph>\<open>after\<close> the symbol; and the
  order among equal frequencies is the one \<open>std::sort\<close> leaves, which need not be the
  scan order.
\<close>

theorem build_node_list_stable_counterexample:
  "build_node_list (sort_key freq) [0x61]
     = [\<lparr>val = 97, freq = 1, parent = - 1, left = - 1, right = - 1\<rparr>,
        \<lparr>val = 0, freq = 0, parent = - 1, left = - 1, right = - 1\<rparr>]
   \<and> sort_key freq (map (symbol_node [0x61]) (occurring [0x61]))
     = [\<lparr>val = 97, freq = 1, parent = - 1, left = - 1, right = - 1\<rparr>]
   \<and> build_node_list sort_ties_reversed [0x61, 0x62]
     = [\<lparr>val = 98, freq = 1, parent = - 1, left = - 1, right = - 1\<rparr>,
        \<lparr>val = 97, freq = 1, parent = - 1, left = - 1, right = - 1\<rparr>]
   \<and> sort_key freq (map (symbol_node [0x61, 0x62]) (occurring [0x61, 0x62]))
     = [\<lparr>val = 97, freq = 1, parent = - 1, left = - 1, right = - 1\<rparr>,
        \<lparr>val = 98, freq = 1, parent = - 1, left = - 1, right = - 1\<rparr>]"
  by code_simp

text \<open>
  C6 (amended): for every sorting function that meets the contract of \<open>std::sort\<close>, the
  list is the nodes of the occurring symbols (value, number of occurrences, no links), in
  ascending order of frequency, followed by default nodes up to a length of two.
\<close>

theorem build_node_list_sorted:
  assumes "std_sort srt"
  shows "\<exists>occ. build_node_list srt data = occ @ replicate (2 - length occ) node_default
           \<and> mset occ = mset (map (symbol_node data) (occurring data))
           \<and> sorted_wrt (\<lambda>a b. freq a \<le> freq b) occ"
  using build_node_list_eq [OF assms] mset_valid_nodes [OF assms] sorted_valid_nodes [OF assms]
  by blast

theorem build_node_list_sorted_witness:
  "\<exists>occ. build_node_list sort_ties_reversed [0x61, 0x62, 0x61]
             = occ @ replicate (2 - length occ) node_default
         \<and> mset occ = mset (map (symbol_node [0x61, 0x62, 0x61]) (occurring [0x61, 0x62, 0x61]))
         \<and> sorted_wrt (\<lambda>a b. freq a \<le> freq b) occ"
  using build_node_list_sorted [OF std_sort_sort_ties_reversed] .

section \<open>Properties of the tree builder\<close>

subsection \<open>The merge loop\<close>

text \<open>
  One pass of the \<open>while (1)\<close> loop takes the first two nodes \<open>a\<close> and \<open>b\<close> of the
  working list, writes them in front of the tree and puts their parent into the rest of
  the list.  The loop is the repetition of this step until one node is left.
\<close>

definition mk_parent :: "int \<Rightarrow> node \<Rightarrow> node \<Rightarrow> node" where
  "mk_parent v a b = \<lparr>val = v, freq = freq a + freq b, parent = - 1, left = val a, right = val b\<rparr>"

lemma insert_parent_Nil [simp]: "insert_parent n [] = [n]"
  by (simp add: insert_parent_def find_if_def)

lemma mset_insert_parent [simp]: "mset (insert_parent n rest) = add_mset n (mset rest)"
proof -
  have "mset (take k rest @ n # drop k rest) = add_mset n (mset rest)" for k
    by (metis append_take_drop_id mset.simps(2) mset_append union_mset_add_mset_right)
  then show ?thesis by (simp add: insert_parent_def Let_def)
qed

lemma set_insert_parent [simp]: "set (insert_parent n rest) = insert n (set rest)"
  by (metis mset_insert_parent set_mset_add_mset_insert set_mset_mset)

lemma merge_nodes_step:
  "merge_nodes (a # b # rest) tree nv =
     (if rest = [] then Inr (mk_parent nv a b # b # a # tree)
      else merge_nodes (insert_parent (mk_parent nv a b) rest) (b # a # tree) (nv + 1))"
  by (subst merge_nodes.simps) (simp add: mk_parent_def Let_def)

lemma merge_nodes_invariant:
  assumes "I list tree nv" and "2 \<le> length list"
    and step: "\<And>a b rest tree nv. I (a # b # rest) tree nv \<Longrightarrow>
                 I (insert_parent (mk_parent nv a b) rest) (b # a # tree) (nv + 1)"
  shows "\<exists>root tree' nv'. merge_nodes list tree nv = Inr (root # tree') \<and> I [root] tree' nv'"
  using assms(1,2)
proof (induction "length list" arbitrary: list tree nv rule: less_induct)
  case less
  from less.prems(2) obtain a b rest where l: "list = a # b # rest"
    by (metis Suc_le_length_iff numeral_2_eq_2)
  have I': "I (insert_parent (mk_parent nv a b) rest) (b # a # tree) (nv + 1)"
    using step less.prems(1) unfolding l .
  show ?case
  proof (cases "rest = []")
    case True
    with I' show ?thesis unfolding l by (subst merge_nodes_step) auto
  next
    case False
    have len: "length (insert_parent (mk_parent nv a b) rest) < length list"
      by (simp add: l length_insert_parent)
    have two: "2 \<le> length (insert_parent (mk_parent nv a b) rest)"
      using False by (cases rest) (simp_all add: length_insert_parent)
    from less.hyps [OF len I' two] False show ?thesis
      unfolding l by (subst merge_nodes_step) simp
  qed
qed

text \<open>
  The invariant.  \<open>rev tree\<close> lists the tree in the order it was written: the nodes
  \<open>a\<close> and \<open>b\<close> of the \<open>k\<close>-th pass are at positions \<open>2k\<close> and \<open>2k + 1\<close>, and their
  parent has the value \<open>256 + k\<close>.
\<close>

definition node_ok :: "int \<Rightarrow> node \<Rightarrow> bool" where
  "node_ok nv n \<longleftrightarrow> parent n = - 1 \<and> 0 \<le> val n \<and> val n < nv
     \<and> (if val n < 256 then left n = - 1 \<and> right n = - 1 else 0 \<le> left n \<and> 0 \<le> right n)"

definition owns :: "node list \<Rightarrow> node \<Rightarrow> bool" where
  "owns r n \<longleftrightarrow> 2 * nat (val n - 256) + 1 < length r
     \<and> left n = val (r ! (2 * nat (val n - 256)))
     \<and> right n = val (r ! (2 * nat (val n - 256) + 1))
     \<and> freq n = freq (r ! (2 * nat (val n - 256))) + freq (r ! (2 * nat (val n - 256) + 1))"

definition minv :: "nat \<Rightarrow> int \<Rightarrow> node multiset \<Rightarrow> node list \<Rightarrow> node list \<Rightarrow> int \<Rightarrow> bool" where
  "minv L0 F0 M0 list tree nv \<longleftrightarrow>
     even (length tree) \<and> nv = 256 + int (length tree div 2)
   \<and> (\<forall>n \<in> set list \<union> set tree. node_ok nv n)
   \<and> (\<forall>n \<in> set list \<union> set tree. 256 \<le> val n \<longrightarrow> owns (rev tree) n)
   \<and> (\<forall>i < length tree. 256 \<le> val (rev tree ! i) \<longrightarrow> 2 * nat (val (rev tree ! i) - 256) + 1 < i)
   \<and> distinct (filter (\<lambda>v. 256 \<le> v) (map val (list @ tree)))
   \<and> (\<forall>k < length tree div 2. \<exists>n \<in> set list \<union> set tree. val n = 256 + int k)
   \<and> val ` set list \<inter> val ` set tree = {}
   \<and> distinct (map val (tl list)) \<and> (list \<noteq> [] \<longrightarrow> val (hd list) \<notin> val ` set (drop 2 list))
   \<and> (\<forall>i j. i < length tree \<and> j < length tree \<and> i div 2 \<noteq> j div 2 \<longrightarrow>
          val (rev tree ! i) \<noteq> val (rev tree ! j))
   \<and> length list + length tree div 2 = L0
   \<and> sum_list (map freq list) = F0
   \<and> filter_mset (\<lambda>n. val n < 256) (mset list + mset tree) = M0"

lemma node_ok_mono: "node_ok nv n \<Longrightarrow> node_ok (nv + 1) n"
  by (auto simp: node_ok_def)

lemma owns_append: "owns r n \<Longrightarrow> owns (r @ xs) n"
  by (auto simp: owns_def nth_append)

lemma distinct_map_insert_parent:
  "distinct (map f (insert_parent n rest)) \<longleftrightarrow> f n \<notin> f ` set rest \<and> distinct (map f rest)"
proof -
  have "mset (map f (insert_parent n rest)) = mset (map f (n # rest))" by simp
  then have "distinct (map f (insert_parent n rest)) = distinct (map f (n # rest))"
    by (rule mset_eq_imp_distinct_iff)
  then show ?thesis by simp
qed

lemma sum_freq_insert_parent:
  "sum_list (map freq (insert_parent n rest)) = freq n + sum_list (map freq rest)"
proof -
  have "mset (map freq (insert_parent n rest)) = mset (map freq (n # rest))" by simp
  then have "sum_mset (mset (map freq (insert_parent n rest))) = sum_mset (mset (map freq (n # rest)))"
    by simp
  then show ?thesis by (simp only: sum_mset_sum_list) simp
qed

lemma distinct_filter_vals_mset:
  "mset xs = mset ys \<Longrightarrow>
   distinct (filter P (map val xs)) = distinct (filter P (map val ys))"
proof -
  assume "mset xs = mset ys"
  then have "mset (filter P (map val xs)) = mset (filter P (map val ys))"
    by (metis mset_filter mset_map)
  then show ?thesis by (rule mset_eq_imp_distinct_iff)
qed

lemma distinct_filter_Cons:
  "x \<notin> set xs \<Longrightarrow> distinct (filter P xs) \<Longrightarrow> distinct (filter P (x # xs))"
  by simp

lemma minv_step:
  assumes "minv L0 F0 M0 (a # b # rest) tree nv"
  shows "minv L0 F0 M0 (insert_parent (mk_parent nv a b) rest) (b # a # tree) (nv + 1)"
proof -
  let ?new = "mk_parent nv a b"
  let ?r = "rev tree"
  let ?r' = "rev (b # a # tree)"
  let ?m = "length tree div 2"
  have raw: "even (length tree)" "nv = 256 + int ?m"
    "\<forall>n \<in> set (a # b # rest) \<union> set tree. node_ok nv n"
    "\<forall>n \<in> set (a # b # rest) \<union> set tree. 256 \<le> val n \<longrightarrow> owns ?r n"
    "\<forall>i < length tree. 256 \<le> val (?r ! i) \<longrightarrow> 2 * nat (val (?r ! i) - 256) + 1 < i"
    "distinct (filter (\<lambda>v. 256 \<le> v) (map val ((a # b # rest) @ tree)))"
    "\<forall>k < ?m. \<exists>n \<in> set (a # b # rest) \<union> set tree. val n = 256 + int k"
    "val ` set (a # b # rest) \<inter> val ` set tree = {}"
    "distinct (map val (tl (a # b # rest)))"
    "a # b # rest \<noteq> [] \<longrightarrow> val (hd (a # b # rest)) \<notin> val ` set (drop 2 (a # b # rest))"
    "\<forall>i j. i < length tree \<and> j < length tree \<and> i div 2 \<noteq> j div 2 \<longrightarrow>
          val (?r ! i) \<noteq> val (?r ! j)"
    "length (a # b # rest) + ?m = L0"
    "sum_list (map freq (a # b # rest)) = F0"
    "filter_mset (\<lambda>n. val n < 256) (mset (a # b # rest) + mset tree) = M0"
    using assms unfolding minv_def by blast+
  note ev = raw(1) and nv = raw(2) and ok = raw(3) and ow = raw(4) and ord = raw(5)
    and dist = raw(6) and ex = raw(7) and disj = raw(8) and pairs = raw(11)
    and L0 = raw(12) and F0 = raw(13) and M0 = raw(14)
  have dtl: "distinct (map val (b # rest))" using raw(9) by simp
  have hd: "val a \<notin> val ` set rest" using raw(10) by simp
  have len: "length tree = 2 * ?m" using ev by simp
  have r': "?r' = ?r @ [a, b]" by simp
  have lr: "length ?r = 2 * ?m" using len by simp
  have ra: "?r' ! (2 * ?m) = a" and rb: "?r' ! (2 * ?m + 1) = b"
    unfolding r' using lr by (simp_all add: nth_append)
  have rold: "\<And>i. i < length tree \<Longrightarrow> ?r' ! i = ?r ! i"
    unfolding r' by (simp add: nth_append)
  have oka: "node_ok nv a" and okb: "node_ok nv b" using ok by auto
  have nvge: "256 \<le> nv" using nv by simp
  have oknew: "node_ok (nv + 1) ?new"
    using oka okb nvge by (auto simp: node_ok_def mk_parent_def)
  have knew: "nat (val ?new - 256) = ?m" using nv by (simp add: mk_parent_def)
  have ownew: "owns ?r' ?new"
    unfolding owns_def knew ra rb using len by (simp add: mk_parent_def)
  have vlt: "\<And>n. n \<in> set (a # b # rest) \<union> set tree \<Longrightarrow> val n < nv"
    using ok by (auto simp: node_ok_def)
  have c1: "even (length (b # a # tree)) \<and> nv + 1 = 256 + int (length (b # a # tree) div 2)"
    using ev nv by simp
  have c2: "\<forall>n \<in> set (insert_parent ?new rest) \<union> set (b # a # tree). node_ok (nv + 1) n"
    using ok oknew by (auto intro: node_ok_mono)
  have c3: "\<forall>n \<in> set (insert_parent ?new rest) \<union> set (b # a # tree). 256 \<le> val n \<longrightarrow> owns ?r' n"
  proof (intro ballI impI)
    fix n assume n: "n \<in> set (insert_parent ?new rest) \<union> set (b # a # tree)" and i: "256 \<le> val n"
    show "owns ?r' n"
    proof (cases "n = ?new")
      case True then show ?thesis using ownew by simp
    next
      case False
      with n have "n \<in> set (a # b # rest) \<union> set tree" by auto
      with ow i have "owns ?r n" by blast
      then show ?thesis unfolding r' by (rule owns_append)
    qed
  qed
  have c4: "\<forall>i < length (b # a # tree). 256 \<le> val (?r' ! i) \<longrightarrow> 2 * nat (val (?r' ! i) - 256) + 1 < i"
  proof (intro allI impI)
    fix i assume i: "i < length (b # a # tree)" and v: "256 \<le> val (?r' ! i)"
    consider "i < length tree" | "i = 2 * ?m" | "i = 2 * ?m + 1" using i len by force
    then show "2 * nat (val (?r' ! i) - 256) + 1 < i"
    proof cases
      case 1
      with ord v rold show ?thesis by simp
    next
      case 2
      with v ra have va: "256 \<le> val a" by simp
      with ow have "owns ?r a" by simp
      then have "2 * nat (val a - 256) + 1 < 2 * ?m" using lr by (simp add: owns_def)
      with 2 ra show ?thesis by simp
    next
      case 3
      with v rb have vb: "256 \<le> val b" by simp
      with ow have "owns ?r b" by simp
      then have "2 * nat (val b - 256) + 1 < 2 * ?m" using lr by (simp add: owns_def)
      with 3 rb show ?thesis by simp
    qed
  qed
  have c5: "distinct (filter (\<lambda>v. 256 \<le> v) (map val (insert_parent ?new rest @ b # a # tree)))"
  proof -
    have "mset (insert_parent ?new rest @ b # a # tree) = mset (?new # (a # b # rest) @ tree)"
      by simp
    then have "distinct (filter (\<lambda>v. 256 \<le> v) (map val (insert_parent ?new rest @ b # a # tree)))
        = distinct (filter (\<lambda>v. 256 \<le> v) (map val (?new # (a # b # rest) @ tree)))"
      by (rule distinct_filter_vals_mset)
    moreover have "distinct (filter (\<lambda>v. 256 \<le> v) (map val (?new # (a # b # rest) @ tree)))"
    proof -
      have "val ?new \<notin> set (map val ((a # b # rest) @ tree))"
        using vlt by (force simp: mk_parent_def)
      from distinct_filter_Cons [OF this dist] show ?thesis by (simp only: list.map)
    qed
    ultimately show ?thesis by blast
  qed
  have c6: "\<forall>k < length (b # a # tree) div 2. \<exists>n \<in> set (insert_parent ?new rest) \<union> set (b # a # tree). val n = 256 + int k"
  proof (intro allI impI)
    fix k assume "k < length (b # a # tree) div 2"
    then have "k < ?m \<or> k = ?m" using len by auto
    then show "\<exists>n \<in> set (insert_parent ?new rest) \<union> set (b # a # tree). val n = 256 + int k"
    proof
      assume "k < ?m"
      with ex obtain n where "n \<in> set (a # b # rest) \<union> set tree" "val n = 256 + int k" by blast
      then show ?thesis by auto
    next
      assume "k = ?m"
      then have "val ?new = 256 + int k" using nv by (simp add: mk_parent_def)
      then show ?thesis by (metis UnI1 insertI1 set_insert_parent)
    qed
  qed
  have vnew: "val ?new = nv" by (simp add: mk_parent_def)
  have c7: "val ` set (insert_parent ?new rest) \<inter> val ` set (b # a # tree) = {}"
  proof -
    have "nv \<notin> val ` set (b # a # tree)" using vlt by force
    moreover have "val ` set rest \<inter> val ` set tree = {}" using disj by auto
    moreover have "val a \<notin> val ` set rest" "val b \<notin> val ` set rest" using hd dtl by auto
    ultimately show ?thesis using vnew by auto
  qed
  have dl: "distinct (map val (insert_parent ?new rest))"
    unfolding distinct_map_insert_parent using dtl vlt vnew by force
  have c8: "distinct (map val (tl (insert_parent ?new rest)))"
    using dl by (cases "insert_parent ?new rest") simp_all
  have c9: "insert_parent ?new rest \<noteq> [] \<longrightarrow>
      val (hd (insert_parent ?new rest)) \<notin> val ` set (drop 2 (insert_parent ?new rest))"
  proof (cases "insert_parent ?new rest")
    case Nil then show ?thesis by simp
  next
    case (Cons x xs)
    with dl have "val x \<notin> val ` set xs" by simp
    moreover have "set (drop 2 (x # xs)) \<subseteq> set xs" by (cases xs) (auto dest: in_set_dropD)
    ultimately show ?thesis using Cons by auto
  qed
  have c10: "\<forall>i j. i < length (b # a # tree) \<and> j < length (b # a # tree) \<and> i div 2 \<noteq> j div 2 \<longrightarrow>
          val (?r' ! i) \<noteq> val (?r' ! j)"
  proof (intro allI impI, elim conjE)
    fix i j assume i: "i < length (b # a # tree)" and j: "j < length (b # a # tree)" and ne: "i div 2 \<noteq> j div 2"
    have new_in: "\<And>i. i < length (b # a # tree) \<Longrightarrow> \<not> i < length tree \<Longrightarrow> val (?r' ! i) \<in> {val a, val b}"
    proof -
      fix i assume "i < length (b # a # tree)" "\<not> i < length tree"
      then have "i = 2 * ?m \<or> i = 2 * ?m + 1" using len by force
      then show "val (?r' ! i) \<in> {val a, val b}" using ra rb by auto
    qed
    have old_in: "\<And>i. i < length tree \<Longrightarrow> val (?r' ! i) \<in> val ` set tree"
    proof -
      fix i assume "i < length tree"
      then have "?r ! i \<in> set ?r" by (metis length_rev nth_mem)
      then show "val (?r' ! i) \<in> val ` set tree" using rold \<open>i < length tree\<close> by simp
    qed
    have ab: "val a \<notin> val ` set tree" "val b \<notin> val ` set tree" using disj by auto
    show "val (?r' ! i) \<noteq> val (?r' ! j)"
    proof (cases "i < length tree")
      case True
      show ?thesis
      proof (cases "j < length tree")
        case True
        with \<open>i < length tree\<close> pairs ne rold show ?thesis by simp
      next
        case False
        from new_in [OF j False] old_in [OF True] ab show ?thesis by auto
      qed
    next
      case False
      show ?thesis
      proof (cases "j < length tree")
        case True
        from new_in [OF i False] old_in [OF True] ab show ?thesis by auto
      next
        case F2: False
        from i False len have "i = 2 * ?m \<or> i = 2 * ?m + 1" by force
        moreover from j F2 len have "j = 2 * ?m \<or> j = 2 * ?m + 1" by force
        ultimately have "i div 2 = j div 2" by auto
        with ne show ?thesis by simp
      qed
    qed
  qed
  have c11: "length (insert_parent ?new rest) + length (b # a # tree) div 2 = L0"
    using L0 len by (simp add: length_insert_parent)
  have c12: "sum_list (map freq (insert_parent ?new rest)) = F0"
    using F0 by (simp add: sum_freq_insert_parent mk_parent_def)
  have c13: "filter_mset (\<lambda>n. val n < 256) (mset (insert_parent ?new rest) + mset (b # a # tree)) = M0"
  proof -
    have "mset (insert_parent ?new rest) + mset (b # a # tree)
        = add_mset ?new (mset (a # b # rest) + mset tree)" by simp
    moreover have "\<not> val ?new < 256" using nvge vnew by simp
    ultimately show ?thesis using M0 by (simp only: filter_mset_add_mset if_False)
  qed
  show ?thesis
    unfolding minv_def
    using c1 c2 c3 c4 c5 c6 c7 c8 c9 c10 c11 c12 c13 by blast
qed

lemma valid_node_cases:
  assumes "std_sort srt" and "n \<in> set (valid_nodes srt data)"
  obtains i where "i < 256" and "n = symbol_node data i" and "(word_of_nat i :: byte) \<in> set data"
  using assms by (auto simp: set_valid_nodes occurring_def)

lemma build_node_list_cases:
  assumes "std_sort srt" and "n \<in> set (build_node_list srt data)"
  shows "n = node_default \<or> (\<exists>i < 256. n = symbol_node data i \<and> (word_of_nat i :: byte) \<in> set data)"
proof -
  from assms(2) have "n \<in> set (valid_nodes srt data) \<or> n = node_default"
    unfolding build_node_list_eq [OF assms(1)] by (auto split: if_splits)
  then show ?thesis using valid_node_cases [OF assms(1)] by metis
qed

lemma build_node_list_node_ok:
  assumes "std_sort srt" and "n \<in> set (build_node_list srt data)"
  shows "node_ok 256 n" and "val n < 256"
  using build_node_list_cases [OF assms]
  by (auto simp: node_ok_def node_default_def)

lemma distinct_vals_valid_nodes:
  assumes "std_sort srt"
  shows "distinct (map val (valid_nodes srt data))"
proof -
  have "mset (map val (valid_nodes srt data)) = mset (map val (map (symbol_node data) (occurring data)))"
    using mset_valid_nodes [OF assms, of data] by (metis mset_map)
  also have "\<dots> = mset (map int (occurring data))" by (simp add: o_def)
  finally have "distinct (map val (valid_nodes srt data)) = distinct (map int (occurring data))"
    by (rule mset_eq_imp_distinct_iff)
  then show ?thesis by (simp add: distinct_map occurring_def)
qed

lemma length_build_node_list:
  assumes "std_sort srt"
  shows "length (build_node_list srt data) = max 2 (card (set data))"
  unfolding build_node_list_eq [OF assms]
  by (simp add: length_valid_nodes [OF assms] occurring_card)

lemma sum_freq_build_node_list:
  assumes "std_sort srt"
  shows "sum_list (map freq (build_node_list srt data)) = int (length data)"
  unfolding build_node_list_eq [OF assms]
  by (simp add: sum_freq_valid_nodes [OF assms] node_default_def sum_list_replicate)

lemma almost_distinct_build_node_list:
  assumes "std_sort srt"
  shows "distinct (map val (tl (build_node_list srt data)))"
    and "val (hd (build_node_list srt data)) \<notin> val ` set (drop 2 (build_node_list srt data))"
proof -
  let ?v = "valid_nodes srt data"
  have d: "distinct (map val ?v)" by (rule distinct_vals_valid_nodes [OF assms])
  consider "?v = []" | x where "?v = [x]" | x y zs where "?v = x # y # zs"
    by (metis list.exhaust)
  then have "distinct (map val (tl (build_node_list srt data)))
      \<and> val (hd (build_node_list srt data)) \<notin> val ` set (drop 2 (build_node_list srt data))"
  proof cases
    case 1
    then show ?thesis unfolding build_node_list_eq [OF assms] by (simp add: numeral_2_eq_2)
  next
    case 2
    then show ?thesis unfolding build_node_list_eq [OF assms] by (simp add: numeral_2_eq_2)
  next
    case 3
    with d show ?thesis unfolding build_node_list_eq [OF assms] by auto
  qed
  then show "distinct (map val (tl (build_node_list srt data)))"
    and "val (hd (build_node_list srt data)) \<notin> val ` set (drop 2 (build_node_list srt data))"
    by blast+
qed

lemma minv_initial:
  assumes "std_sort srt"
  shows "minv (length (build_node_list srt data)) (int (length data))
           (mset (build_node_list srt data)) (build_node_list srt data) [] 256"
proof -
  let ?l = "build_node_list srt data"
  have lt: "\<And>n. n \<in> set ?l \<Longrightarrow> val n < 256"
    by (rule build_node_list_node_ok(2) [OF assms])
  have f: "filter (\<lambda>v. 256 \<le> v) (map val (?l @ [])) = []"
    using lt by (fastforce simp: filter_empty_conv)
  have m: "filter_mset (\<lambda>n. val n < 256) (mset ?l + mset []) = mset ?l"
    using lt by (simp add: filter_mset_eq_conv)
  have ow: "\<forall>n \<in> set ?l \<union> set []. 256 \<le> val n \<longrightarrow> owns (rev []) n"
    using lt by fastforce
  have ok: "\<forall>n \<in> set ?l \<union> set []. node_ok 256 n"
    using build_node_list_node_ok(1) [OF assms] by auto
  show ?thesis
    unfolding minv_def
    using ok ow almost_distinct_build_node_list [OF assms, of data]
      sum_freq_build_node_list [OF assms, of data]
    by (simp only: f m) simp
qed

text \<open>The tree as \<open>merge_nodes\<close> returns it, before the parents are linked.\<close>

definition arena :: "nat \<Rightarrow> int \<Rightarrow> node multiset \<Rightarrow> node list \<Rightarrow> bool" where
  "arena L0 F0 M0 t \<longleftrightarrow> (\<exists>root tree nv. t = root # tree \<and> minv L0 F0 M0 [root] tree nv)"

lemma merge_nodes_arena:
  assumes "std_sort srt"
  shows "\<exists>t. merge_nodes (build_node_list srt data) [] 256 = Inr t
           \<and> arena (length (build_node_list srt data)) (int (length data))
                (mset (build_node_list srt data)) t"
proof -
  have two: "2 \<le> length (build_node_list srt data)"
    by (simp add: length_build_node_list [OF assms])
  from merge_nodes_invariant [where I = "minv (length (build_node_list srt data)) (int (length data))
           (mset (build_node_list srt data))", OF minv_initial [OF assms] two minv_step]
  show ?thesis unfolding arena_def by blast
qed

subsection \<open>The tree before linking, by index\<close>

lemma rev_tl_nth:
  assumes "q < length tree"
  shows "rev tree ! q = (root # tree) ! (length (root # tree) - 1 - q)"
proof -
  have "rev tree ! q = tree ! (length tree - Suc q)" using assms by (rule rev_nth)
  also have "\<dots> = (root # tree) ! Suc (length tree - Suc q)" by simp
  also have "Suc (length tree - Suc q) = length (root # tree) - 1 - q" using assms by simp
  finally show ?thesis .
qed

lemma arenaD:
  assumes "arena L0 F0 M0 t"
  obtains root tree nv where "t = root # tree"
    and "even (length tree)" and "nv = 256 + int (length tree div 2)"
    and "\<forall>n \<in> set [root] \<union> set tree. node_ok nv n"
    and "\<forall>n \<in> set [root] \<union> set tree. 256 \<le> val n \<longrightarrow> owns (rev tree) n"
    and "\<forall>i < length tree. 256 \<le> val (rev tree ! i) \<longrightarrow> 2 * nat (val (rev tree ! i) - 256) + 1 < i"
    and "distinct (filter (\<lambda>v. 256 \<le> v) (map val ([root] @ tree)))"
    and "\<forall>k < length tree div 2. \<exists>n \<in> set [root] \<union> set tree. val n = 256 + int k"
    and "\<forall>i j. i < length tree \<and> j < length tree \<and> i div 2 \<noteq> j div 2 \<longrightarrow>
          val (rev tree ! i) \<noteq> val (rev tree ! j)"
    and "length [root] + length tree div 2 = L0"
    and "sum_list (map freq [root]) = F0"
    and "filter_mset (\<lambda>n. val n < 256) (mset [root] + mset tree) = M0"
  using assms unfolding arena_def minv_def by blast

lemma arena_length:
  assumes "arena L0 F0 M0 t"
  shows "length t = 2 * L0 - 1" and "1 \<le> L0" and "odd (length t)"
proof -
  from assms obtain root tree where t: "t = root # tree" and ev: "even (length tree)"
    and L: "length [root] + length tree div 2 = L0" by (rule arenaD)
  from ev L show "length t = 2 * L0 - 1" and "1 \<le> L0" and "odd (length t)"
    unfolding t by auto
qed

lemma arena_node_ok:
  assumes "arena L0 F0 M0 t" and "n \<in> set t"
  shows "parent n = - 1" and "0 \<le> val n"
    and "val n < 256 \<Longrightarrow> left n = - 1 \<and> right n = - 1"
    and "256 \<le> val n \<Longrightarrow> 0 \<le> left n \<and> 0 \<le> right n"
proof -
  from assms(1) obtain root tree nv where "t = root # tree"
    and "\<forall>n \<in> set [root] \<union> set tree. node_ok nv n" by (rule arenaD)
  with assms(2) have "node_ok nv n" by auto
  then show "parent n = - 1" and "0 \<le> val n"
    and "val n < 256 \<Longrightarrow> left n = - 1 \<and> right n = - 1"
    and "256 \<le> val n \<Longrightarrow> 0 \<le> left n \<and> 0 \<le> right n"
    by (auto simp: node_ok_def split: if_splits)
qed

lemma arena_root_freq:
  assumes "arena L0 F0 M0 t"
  shows "freq (t ! 0) = F0"
proof -
  from assms obtain root tree where "t = root # tree" and "sum_list (map freq [root]) = F0"
    by (rule arenaD)
  then show ?thesis by simp
qed

lemma arena_leaves:
  assumes "arena L0 F0 M0 t"
  shows "filter_mset (\<lambda>n. val n < 256) (mset t) = M0"
proof -
  from assms obtain root tree where "t = root # tree"
    and "filter_mset (\<lambda>n. val n < 256) (mset [root] + mset tree) = M0"
    by (rule arenaD)
  then show ?thesis by simp
qed

lemma distinct_filter_map_nth:
  assumes "distinct (filter P (map f xs))" and "i < length xs" and "j < length xs"
    and "P (f (xs ! i))" and "f (xs ! i) = f (xs ! j)"
  shows "i = j"
  using assms
proof (induction xs arbitrary: i j)
  case Nil
  then show ?case by simp
next
  case (Cons x xs)
  show ?case
  proof (cases i)
    case 0
    show ?thesis
    proof (cases j)
      case 0 with \<open>i = 0\<close> show ?thesis by simp
    next
      case (Suc j')
      with 0 Cons.prems have "f (xs ! j') = f x" "j' < length xs" "P (f x)" by auto
      then have "f x \<in> f ` set xs" "P (f x)" by (metis nth_mem imageI)+
      with Cons.prems(1) show ?thesis by simp
    qed
  next
    case (Suc i')
    show ?thesis
    proof (cases j)
      case 0
      with Suc Cons.prems have "f (xs ! i') = f x" "i' < length xs" "P (f x)" by auto
      then have "f x \<in> f ` set xs" "P (f x)" by (metis nth_mem imageI)+
      with Cons.prems(1) show ?thesis by simp
    next
      case Sj: (Suc j')
      from Cons.prems(1) have "distinct (filter P (map f xs))" by (simp split: if_splits)
      from Cons.IH [OF this, of i' j'] Suc Sj Cons.prems show ?thesis by simp
    qed
  qed
qed

lemma arena_internal_distinct:
  assumes "arena L0 F0 M0 t" and "i < length t" and "j < length t"
    and "256 \<le> val (t ! i)" and "val (t ! i) = val (t ! j)"
  shows "i = j"
proof -
  from assms(1) obtain root tree where t: "t = root # tree"
    and d: "distinct (filter (\<lambda>v. 256 \<le> v) (map val ([root] @ tree)))"
    by (rule arenaD)
  from d have "distinct (filter (\<lambda>v. 256 \<le> v) (map val t))" unfolding t by simp
  from distinct_filter_map_nth [OF this assms(2,3)] assms(4,5) show ?thesis by simp
qed

text \<open>
  The children of the node at index \<open>i\<close>: it was made in pass \<open>kidx t i\<close>, and the two
  nodes of that pass are at the indices \<open>lchild t i\<close> and \<open>rchild t i\<close>.
\<close>

definition kidx :: "node list \<Rightarrow> nat \<Rightarrow> nat" where
  "kidx t i = nat (val (t ! i) - 256)"

definition lchild :: "node list \<Rightarrow> nat \<Rightarrow> nat" where
  "lchild t i = length t - 1 - 2 * kidx t i"

definition rchild :: "node list \<Rightarrow> nat \<Rightarrow> nat" where
  "rchild t i = length t - 2 - 2 * kidx t i"

lemma arena_children:
  assumes "arena L0 F0 M0 t" and "i < length t" and "256 \<le> val (t ! i)"
  shows "2 * kidx t i + 2 < length t"
    and "i < rchild t i"
    and "left (t ! i) = val (t ! lchild t i)"
    and "right (t ! i) = val (t ! rchild t i)"
    and "freq (t ! i) = freq (t ! lchild t i) + freq (t ! rchild t i)"
proof -
  from assms(1) obtain root tree where t: "t = root # tree"
    and ow: "\<forall>n \<in> set [root] \<union> set tree. 256 \<le> val n \<longrightarrow> owns (rev tree) n"
    and ord: "\<forall>i < length tree. 256 \<le> val (rev tree ! i) \<longrightarrow> 2 * nat (val (rev tree ! i) - 256) + 1 < i"
    by (rule arenaD)
  let ?k = "kidx t i"
  have "t ! i \<in> set t" using assms(2) by simp
  then have "t ! i \<in> set [root] \<union> set tree" unfolding t by simp
  with ow assms(3) have o: "owns (rev tree) (t ! i)" by blast
  then have k: "2 * ?k + 1 < length tree" by (simp add: owns_def kidx_def)
  then show k2: "2 * ?k + 2 < length t" unfolding t by simp
  have q0: "rev tree ! (2 * ?k) = t ! lchild t i"
    using rev_tl_nth [of "2 * ?k" tree root] k unfolding t lchild_def by simp
  have q1: "rev tree ! (2 * ?k + 1) = t ! rchild t i"
    using rev_tl_nth [of "2 * ?k + 1" tree root] k unfolding t rchild_def by simp
  from o show "left (t ! i) = val (t ! lchild t i)"
    and "right (t ! i) = val (t ! rchild t i)"
    and "freq (t ! i) = freq (t ! lchild t i) + freq (t ! rchild t i)"
    unfolding owns_def kidx_def [symmetric] q0 q1 by simp_all
  show "i < rchild t i"
  proof (cases i)
    case 0
    with k show ?thesis unfolding t rchild_def by simp
  next
    case (Suc i')
    let ?q = "length t - 1 - i"
    have q: "?q < length tree" using assms(2) Suc unfolding t by simp
    have "rev tree ! ?q = t ! i"
      using rev_tl_nth [OF q, of root] assms(2) unfolding t by simp
    with ord [rule_format, OF q] assms(3) have "2 * ?k + 1 < ?q" by (simp add: kidx_def)
    then show ?thesis unfolding rchild_def by simp
  qed
qed

lemma arena_owner:
  assumes "arena L0 F0 M0 t" and "1 \<le> j" and "j < length t"
  shows "\<exists>p < length t. val (t ! p) = 256 + int ((length t - 1 - j) div 2)"
proof -
  from assms(1) obtain root tree where t: "t = root # tree"
    and ex: "\<forall>k < length tree div 2. \<exists>n \<in> set [root] \<union> set tree. val n = 256 + int k"
    by (rule arenaD)
  have "(length t - 1 - j) div 2 < length tree div 2"
    using assms(2,3) arena_length(3) [OF assms(1)] unfolding t by (auto elim!: oddE)
  with ex obtain n where "n \<in> set [root] \<union> set tree" "val n = 256 + int ((length t - 1 - j) div 2)"
    by blast
  then have "n \<in> set t" unfolding t by simp
  then obtain p where "p < length t" "t ! p = n" by (auto simp: in_set_conv_nth)
  with \<open>val n = _\<close> show ?thesis by auto
qed

lemma arena_pairs:
  assumes "arena L0 F0 M0 t" and "1 \<le> i" and "i < length t" and "1 \<le> j" and "j < length t"
    and "(length t - 1 - i) div 2 \<noteq> (length t - 1 - j) div 2"
  shows "val (t ! i) \<noteq> val (t ! j)"
proof -
  from assms(1) obtain root tree where t: "t = root # tree"
    and pairs: "\<forall>i j. i < length tree \<and> j < length tree \<and> i div 2 \<noteq> j div 2 \<longrightarrow>
          val (rev tree ! i) \<noteq> val (rev tree ! j)"
    by (rule arenaD)
  let ?qi = "length t - 1 - i" and ?qj = "length t - 1 - j"
  have qi: "?qi < length tree" and qj: "?qj < length tree" using assms(2-5) unfolding t by simp_all
  have "rev tree ! ?qi = t ! i" using rev_tl_nth [OF qi, of root] assms(3) unfolding t by simp
  moreover have "rev tree ! ?qj = t ! j" using rev_tl_nth [OF qj, of root] assms(5) unfolding t by simp
  ultimately show ?thesis using pairs qi qj assms(6) by metis
qed

subsection \<open>\<open>find_if\<close>\<close>

lemma find_if_Nil [simp]: "find_if P [] = 0"
  by (simp add: find_if_def)

lemma find_if_Cons: "find_if P (x # xs) = (if P x then 0 else Suc (find_if P xs))"
  by (simp add: find_if_def)

lemma find_if_less_iff: "find_if P xs < length xs \<longleftrightarrow> (\<exists>x \<in> set xs. P x)"
  by (induction xs) (auto simp: find_if_Cons)

lemma find_if_nth: "find_if P xs < length xs \<Longrightarrow> P (xs ! find_if P xs)"
  by (induction xs) (auto simp: find_if_Cons split: if_splits)

lemma find_if_before: "i < find_if P xs \<Longrightarrow> \<not> P (xs ! i)"
proof (induction xs arbitrary: i)
  case Nil
  then show ?case by simp
next
  case (Cons x xs)
  then show ?case by (cases i) (auto simp: find_if_Cons split: if_splits)
qed

lemma find_if_le_witness: "i < length xs \<Longrightarrow> P (xs ! i) \<Longrightarrow> find_if P xs \<le> i"
  using find_if_before [of i P xs] by (meson not_le)

lemma find_if_eqI:
  assumes "i < length xs" and "P (xs ! i)" and "\<And>j. j < i \<Longrightarrow> \<not> P (xs ! j)"
  shows "find_if P xs = i"
proof -
  have le: "find_if P xs \<le> i" using assms(1,2) by (rule find_if_le_witness)
  then have "find_if P xs < length xs" using assms(1) by simp
  then have "P (xs ! find_if P xs)" by (rule find_if_nth)
  with assms(3) le show ?thesis by (meson le_neq_implies_less)
qed

lemma find_if_map: "find_if Q (map g xs) = find_if (\<lambda>x. Q (g x)) xs"
  by (induction xs) (simp_all add: find_if_Cons)

lemma find_if_cong_map:
  "map g xs = map g ys \<Longrightarrow> find_if (\<lambda>x. Q (g x)) xs = find_if (\<lambda>x. Q (g x)) ys"
  by (metis find_if_map)

subsection \<open>The linking pass\<close>

definition linked :: "node list \<Rightarrow> nat \<Rightarrow> node" where
  "linked t j =
     (if parent (t ! j) = - 1 then
        (let p = find_if (\<lambda>n. left n = val (t ! j) \<or> right n = val (t ! j)) (take j t)
         in if p \<noteq> j then (t ! j)\<lparr>parent := int p\<rparr> else t ! j)
      else t ! j)"

lemma linked_fields [simp]:
  "val (linked t j) = val (t ! j)" "left (linked t j) = left (t ! j)"
  "right (linked t j) = right (t ! j)" "freq (linked t j) = freq (t ! j)"
  by (simp_all add: linked_def Let_def)

definition link_step :: "nat \<Rightarrow> node list \<Rightarrow> node list" where
  "link_step iter t =
     (if parent (t ! iter) = - 1 then
        (let p = find_if (\<lambda>n. left n = val (t ! iter) \<or> right n = val (t ! iter)) (take iter t)
         in if p \<noteq> iter then t[iter := (t ! iter)\<lparr>parent := int p\<rparr>] else t)
      else t)"

lemma link_parents_fold: "link_parents t = fold link_step [1..<length t] t"
  unfolding link_parents_def link_step_def [abs_def] ..

definition linked_upto :: "node list \<Rightarrow> nat \<Rightarrow> node list" where
  "linked_upto t k = map (\<lambda>j. if 1 \<le> j \<and> j < k then linked t j else t ! j) [0..<length t]"

lemma linked_upto_nth:
  "j < length t \<Longrightarrow> linked_upto t k ! j = (if 1 \<le> j \<and> j < k then linked t j else t ! j)"
  by (simp add: linked_upto_def)

lemma length_linked_upto [simp]: "length (linked_upto t k) = length t"
  by (simp add: linked_upto_def)

lemma link_step_linked_upto:
  assumes "1 \<le> k" and "k < length t"
  shows "link_step k (linked_upto t k) = linked_upto t (Suc k)"
proof -
  have nk: "linked_upto t k ! k = t ! k" using assms by (simp add: linked_upto_nth)
  have "map (\<lambda>n. (left n, right n)) (take k (linked_upto t k)) = map (\<lambda>n. (left n, right n)) (take k t)"
    using assms by (intro nth_equalityI) (auto simp: linked_upto_nth)
  then have fi: "find_if (\<lambda>n. left n = val (t ! k) \<or> right n = val (t ! k)) (take k (linked_upto t k))
      = find_if (\<lambda>n. left n = val (t ! k) \<or> right n = val (t ! k)) (take k t)"
    using find_if_cong_map [where g = "\<lambda>n. (left n, right n)"
        and Q = "\<lambda>p. fst p = val (t ! k) \<or> snd p = val (t ! k)"]
    by simp
  have upd: "(linked_upto t k)[k := t ! k] = linked_upto t k"
    using nk by (metis list_update_id)
  have step: "link_step k (linked_upto t k) = (linked_upto t k)[k := linked t k]"
    unfolding link_step_def nk fi by (simp add: linked_def Let_def upd)
  have "(linked_upto t k)[k := linked t k] = linked_upto t (Suc k)"
    using assms by (intro nth_equalityI) (auto simp: nth_list_update linked_upto_nth)
  with step show ?thesis by simp
qed

lemma link_fold:
  assumes "k \<le> length t"
  shows "fold link_step [1..<k] t = linked_upto t k"
  using assms
proof (induction k)
  case 0
  have "linked_upto t 0 = t" by (intro nth_equalityI) (auto simp: linked_upto_nth)
  then show ?case by simp
next
  case (Suc k)
  show ?case
  proof (cases "k = 0")
    case True
    have "linked_upto t (Suc 0) = t" by (intro nth_equalityI) (auto simp: linked_upto_nth)
    with True show ?thesis by simp
  next
    case False
    then have k1: "1 \<le> k" by simp
    have kl: "k < length t" using Suc.prems by simp
    have "fold link_step [1..<Suc k] t = link_step k (fold link_step [1..<k] t)"
      using k1 by simp
    also have "\<dots> = link_step k (linked_upto t k)" using Suc.IH kl by simp
    also have "\<dots> = linked_upto t (Suc k)" by (rule link_step_linked_upto [OF k1 kl])
    finally show ?thesis .
  qed
qed

lemma link_parents_eq:
  "link_parents t = map (\<lambda>j. if 1 \<le> j then linked t j else t ! j) [0..<length t]"
  unfolding link_parents_fold link_fold [OF le_refl] linked_upto_def
  by (rule map_cong) auto

lemma length_link_parents [simp]: "length (link_parents t) = length t"
  by (simp add: link_parents_eq)

lemma link_parents_nth:
  "j < length t \<Longrightarrow> link_parents t ! j = (if 1 \<le> j then linked t j else t ! j)"
  by (simp add: link_parents_eq)

lemma link_parents_fields:
  assumes "j < length t"
  shows "val (link_parents t ! j) = val (t ! j)" "left (link_parents t ! j) = left (t ! j)"
    "right (link_parents t ! j) = right (t ! j)" "freq (link_parents t ! j) = freq (t ! j)"
  using assms by (simp_all add: link_parents_nth)

subsection \<open>The linked tree\<close>

text \<open>
  What the walks and the decode table rely on: values are not negative; a node with a
  value below 256 is a leaf; the root has no parent; every other node has a parent at a
  smaller index that names it as \<open>left\<close> or \<open>right\<close>; merged nodes have values of their
  own; and the two values a merged node names are found at larger indices.
\<close>

definition tree_ok :: "node list \<Rightarrow> bool" where
  "tree_ok tr \<longleftrightarrow>
     3 \<le> length tr
   \<and> (\<forall>j < length tr. 0 \<le> val (tr ! j)
         \<and> (if val (tr ! j) < 256 then left (tr ! j) = - 1 \<and> right (tr ! j) = - 1
            else 0 \<le> left (tr ! j) \<and> 0 \<le> right (tr ! j)))
   \<and> parent (tr ! 0) = - 1 \<and> 256 \<le> val (tr ! 0)
   \<and> (\<forall>j. 1 \<le> j \<and> j < length tr \<longrightarrow>
         (\<exists>p < j. parent (tr ! j) = int p \<and> 256 \<le> val (tr ! p)
            \<and> (left (tr ! p) = val (tr ! j) \<or> right (tr ! p) = val (tr ! j))))
   \<and> (\<forall>i j. i < length tr \<and> j < length tr \<and> 256 \<le> val (tr ! i) \<and> val (tr ! i) = val (tr ! j)
         \<longrightarrow> i = j)
   \<and> (\<forall>i < length tr. 256 \<le> val (tr ! i) \<longrightarrow>
         (\<exists>j. i < j \<and> j < length tr \<and> val (tr ! j) = left (tr ! i))
       \<and> (\<exists>j. i < j \<and> j < length tr \<and> val (tr ! j) = right (tr ! i)))"

lemma arena_child_cases:
  assumes "arena L0 F0 M0 t" and "1 \<le> j" and "j < length t"
    and "p < length t" and "val (t ! p) = 256 + int ((length t - 1 - j) div 2)"
  shows "j = lchild t p \<or> j = rchild t p"
proof -
  have k: "kidx t p = (length t - 1 - j) div 2" using assms(5) by (simp add: kidx_def)
  define d where "d = length t - 1 - j"
  have dj: "j = length t - 1 - d" using assms(2,3) by (simp add: d_def)
  have dl: "d < length t - 1" using assms(2,3) by (simp add: d_def)
  have "d = 2 * (d div 2) \<or> d = 2 * (d div 2) + 1" by presburger
  then show ?thesis
  proof
    assume "d = 2 * (d div 2)"
    then have "j = lchild t p" unfolding lchild_def k d_def [symmetric] using dj by simp
    then show ?thesis ..
  next
    assume e: "d = 2 * (d div 2) + 1"
    have "length t - 2 - 2 * (d div 2) = length t - 1 - (2 * (d div 2) + 1)" by simp
    also have "\<dots> = length t - 1 - d" using e by simp
    finally have "j = rchild t p" unfolding rchild_def k d_def [symmetric] using dj by simp
    then show ?thesis ..
  qed
qed

lemma arena_parent_exists:
  assumes "arena L0 F0 M0 t" and "1 \<le> j" and "j < length t"
  shows "\<exists>p < j. 256 \<le> val (t ! p) \<and> (left (t ! p) = val (t ! j) \<or> right (t ! p) = val (t ! j))
           \<and> (j = lchild t p \<or> j = rchild t p)"
proof -
  from arena_owner [OF assms] obtain p where p: "p < length t"
    and v: "val (t ! p) = 256 + int ((length t - 1 - j) div 2)" by blast
  have i: "256 \<le> val (t ! p)" using v by simp
  note ch = arena_children [OF assms(1) p i]
  have c: "j = lchild t p \<or> j = rchild t p" by (rule arena_child_cases [OF assms p v])
  have "rchild t p \<le> lchild t p" by (simp add: lchild_def rchild_def)
  with c ch(2) have "p < j" by auto
  with c ch(3,4) i show ?thesis by auto
qed

lemma arena_linked_parent:
  assumes "arena L0 F0 M0 t" and "1 \<le> j" and "j < length t"
  shows "\<exists>p < j. parent (linked t j) = int p \<and> 256 \<le> val (t ! p)
           \<and> (left (t ! p) = val (t ! j) \<or> right (t ! p) = val (t ! j))
           \<and> (\<forall>q < p. left (t ! q) \<noteq> val (t ! j) \<and> right (t ! q) \<noteq> val (t ! j))"
proof -
  let ?P = "\<lambda>n. left n = val (t ! j) \<or> right n = val (t ! j)"
  let ?p = "find_if ?P (take j t)"
  from arena_parent_exists [OF assms] obtain p0 where p0: "p0 < j" and "?P (t ! p0)" by blast
  then have "p0 < length (take j t)" "?P (take j t ! p0)" using assms(3) by simp_all
  then have le: "?p \<le> p0" by (rule find_if_le_witness)
  with p0 have lt: "?p < j" by simp
  then have "?p < length (take j t)" using assms(3) by simp
  then have "?P (take j t ! ?p)" by (rule find_if_nth)
  with lt have P: "?P (t ! ?p)" by simp
  have jm: "t ! j \<in> set t" and pm: "t ! ?p \<in> set t" using assms(3) lt by simp_all
  have par: "parent (t ! j) = - 1" by (rule arena_node_ok(1) [OF assms(1) jm])
  have "0 \<le> val (t ! j)" by (rule arena_node_ok(2) [OF assms(1) jm])
  with P arena_node_ok(3) [OF assms(1) pm] have int: "256 \<le> val (t ! ?p)" by fastforce
  have first: "\<forall>q < ?p. left (t ! q) \<noteq> val (t ! j) \<and> right (t ! q) \<noteq> val (t ! j)"
  proof (intro allI impI)
    fix q assume q: "q < ?p"
    then have "\<not> ?P (take j t ! q)" by (rule find_if_before)
    with q lt show "left (t ! q) \<noteq> val (t ! j) \<and> right (t ! q) \<noteq> val (t ! j)" by simp
  qed
  have "parent (linked t j) = int ?p" using par lt by (simp add: linked_def Let_def)
  with lt int P first show ?thesis by blast
qed

lemma arena_root_internal:
  assumes "arena L0 F0 M0 t" and "2 \<le> L0"
  shows "256 \<le> val (t ! 0)" and "3 \<le> length t"
proof -
  show len: "3 \<le> length t" using arena_length(1) [OF assms(1)] assms(2) by simp
  from arena_parent_exists [OF assms(1), of 1] len
  obtain p where "p < 1" "256 \<le> val (t ! p)" by auto
  then show "256 \<le> val (t ! 0)" by simp
qed

lemma tree_ok_link_parents:
  assumes "arena L0 F0 M0 t" and "2 \<le> L0"
  shows "tree_ok (link_parents t)"
proof -
  let ?tr = "link_parents t"
  note f = link_parents_fields
  have c1: "3 \<le> length ?tr" using arena_root_internal(2) [OF assms] by simp
  have c2: "\<forall>j < length ?tr. 0 \<le> val (?tr ! j)
         \<and> (if val (?tr ! j) < 256 then left (?tr ! j) = - 1 \<and> right (?tr ! j) = - 1
            else 0 \<le> left (?tr ! j) \<and> 0 \<le> right (?tr ! j))"
  proof (intro allI impI)
    fix j assume "j < length ?tr"
    then have j: "j < length t" by simp
    then have "t ! j \<in> set t" by simp
    from arena_node_ok(2-4) [OF assms(1) this]
    have "0 \<le> val (t ! j)
         \<and> (if val (t ! j) < 256 then left (t ! j) = - 1 \<and> right (t ! j) = - 1
            else 0 \<le> left (t ! j) \<and> 0 \<le> right (t ! j))"
      by auto
    then show "0 \<le> val (?tr ! j)
         \<and> (if val (?tr ! j) < 256 then left (?tr ! j) = - 1 \<and> right (?tr ! j) = - 1
            else 0 \<le> left (?tr ! j) \<and> 0 \<le> right (?tr ! j))"
      by (simp add: f(1) [OF j] f(2) [OF j] f(3) [OF j])
  qed
  have z: "0 < length t" using arena_root_internal(2) [OF assms] by auto
  have "t ! 0 \<in> set t" using z by simp
  then have "parent (t ! 0) = - 1" by (rule arena_node_ok(1) [OF assms(1)])
  then have c3: "parent (?tr ! 0) = - 1 \<and> 256 \<le> val (?tr ! 0)"
    using arena_root_internal(1) [OF assms] z by (simp add: link_parents_nth)
  have c4: "\<forall>j. 1 \<le> j \<and> j < length ?tr \<longrightarrow>
         (\<exists>p < j. parent (?tr ! j) = int p \<and> 256 \<le> val (?tr ! p)
            \<and> (left (?tr ! p) = val (?tr ! j) \<or> right (?tr ! p) = val (?tr ! j)))"
  proof (intro allI impI, elim conjE)
    fix j assume j1: "1 \<le> j" and "j < length ?tr"
    then have j: "j < length t" by simp
    from arena_linked_parent [OF assms(1) j1 j] obtain p where p: "p < j"
      and "parent (linked t j) = int p" "256 \<le> val (t ! p)"
      "left (t ! p) = val (t ! j) \<or> right (t ! p) = val (t ! j)" by blast
    moreover have pl: "p < length t" using p j by simp
    moreover have "parent (?tr ! j) = parent (linked t j)"
      using j1 j by (simp add: link_parents_nth)
    ultimately have "p < j \<and> parent (?tr ! j) = int p \<and> 256 \<le> val (?tr ! p)
            \<and> (left (?tr ! p) = val (?tr ! j) \<or> right (?tr ! p) = val (?tr ! j))"
      by (simp add: f(1) [OF j] f(1) [OF pl] f(2) [OF pl] f(3) [OF pl])
    then show "\<exists>p < j. parent (?tr ! j) = int p \<and> 256 \<le> val (?tr ! p)
            \<and> (left (?tr ! p) = val (?tr ! j) \<or> right (?tr ! p) = val (?tr ! j))"
      by blast
  qed
  have c5: "\<forall>i j. i < length ?tr \<and> j < length ?tr \<and> 256 \<le> val (?tr ! i) \<and> val (?tr ! i) = val (?tr ! j)
         \<longrightarrow> i = j"
  proof (intro allI impI, elim conjE)
    fix i j assume "i < length ?tr" "j < length ?tr" and v: "256 \<le> val (?tr ! i)"
      and e: "val (?tr ! i) = val (?tr ! j)"
    then have i: "i < length t" and j: "j < length t" by simp_all
    from v e have "256 \<le> val (t ! i)" "val (t ! i) = val (t ! j)"
      unfolding f(1) [OF i] f(1) [OF j] by simp_all
    with arena_internal_distinct [OF assms(1) i j] show "i = j" by simp
  qed
  have c6: "\<forall>i < length ?tr. 256 \<le> val (?tr ! i) \<longrightarrow>
         (\<exists>j. i < j \<and> j < length ?tr \<and> val (?tr ! j) = left (?tr ! i))
       \<and> (\<exists>j. i < j \<and> j < length ?tr \<and> val (?tr ! j) = right (?tr ! i))"
  proof (intro allI impI)
    fix i assume "i < length ?tr" and "256 \<le> val (?tr ! i)"
    then have i: "i < length t" and v: "256 \<le> val (t ! i)" by (simp_all add: f)
    note ch = arena_children [OF assms(1) i v]
    have r: "rchild t i < length t" and l: "lchild t i < length t" and il: "i < lchild t i"
      using ch(1,2) by (simp_all add: lchild_def rchild_def)
    have "i < lchild t i \<and> lchild t i < length ?tr \<and> val (?tr ! lchild t i) = left (?tr ! i)"
      using il l ch(3) by (simp add: f(1) [OF l] f(2) [OF i])
    moreover have "i < rchild t i \<and> rchild t i < length ?tr \<and> val (?tr ! rchild t i) = right (?tr ! i)"
      using ch(2) r ch(4) by (simp add: f(1) [OF r] f(3) [OF i])
    ultimately show "(\<exists>j. i < j \<and> j < length ?tr \<and> val (?tr ! j) = left (?tr ! i))
       \<and> (\<exists>j. i < j \<and> j < length ?tr \<and> val (?tr ! j) = right (?tr ! i))"
      by blast
  qed
  show ?thesis unfolding tree_ok_def using c1 c2 c3 c4 c5 c6 by blast
qed

subsection \<open>The result of \<open>build_node_tree\<close>\<close>

lemma build_node_tree_arena:
  assumes "std_sort srt"
  shows "\<exists>t. build_node_tree srt data = Inr (link_parents t)
           \<and> arena (length (build_node_list srt data)) (int (length data))
                (mset (build_node_list srt data)) t"
  using merge_nodes_arena [OF assms, of data] by (auto simp: build_node_tree_def)

lemma tree_count_eq:
  assumes "std_sort srt"
  shows "tree_count srt data = 2 * max 2 (card (set data)) - 1"
  by (simp add: tree_count_def length_build_node_list [OF assms] mult.commute)

lemma data_leaf_in_list:
  assumes "std_sort srt" and "c \<in> set data"
  shows "symbol_node data (unat c) \<in> set (build_node_list srt data)"
proof -
  have "unat c \<in> set (occurring data)"
    using assms(2) unat_byte_lt [of c] by (simp add: occurring_def)
  then have "symbol_node data (unat c) \<in> set (valid_nodes srt data)"
    by (simp add: set_valid_nodes [OF assms(1)])
  then show ?thesis unfolding build_node_list_eq [OF assms(1)] by simp
qed

lemma build_node_tree_ok:
  assumes "std_sort srt"
  shows "\<exists>tr. build_node_tree srt data = Inr tr \<and> tree_ok tr
           \<and> length tr = tree_count srt data
           \<and> (\<forall>c \<in> set data. \<exists>j < length tr. val (tr ! j) = uint c)"
proof -
  let ?l = "build_node_list srt data"
  from build_node_tree_arena [OF assms, of data] obtain t
    where b: "build_node_tree srt data = Inr (link_parents t)"
      and a: "arena (length ?l) (int (length data)) (mset ?l) t" by blast
  have two: "2 \<le> length ?l" by (simp add: length_build_node_list [OF assms])
  have ok: "tree_ok (link_parents t)" by (rule tree_ok_link_parents [OF a two])
  have len: "length (link_parents t) = tree_count srt data"
    using arena_length(1) [OF a] by (simp add: tree_count_def mult.commute)
  have leaves: "\<forall>c \<in> set data. \<exists>j < length (link_parents t). val (link_parents t ! j) = uint c"
  proof
    fix c assume c: "c \<in> set data"
    let ?n = "symbol_node data (unat c)"
    have "?n \<in># mset ?l" using data_leaf_in_list [OF assms c] by simp
    then have "?n \<in># filter_mset (\<lambda>n. val n < 256) (mset t)"
      unfolding arena_leaves [OF a] .
    then have "?n \<in> set t" by simp
    then obtain j where j: "j < length t" "t ! j = ?n" by (auto simp: in_set_conv_nth)
    then have "val (link_parents t ! j) = uint c"
      by (simp add: link_parents_fields)
    with j(1) show "\<exists>j < length (link_parents t). val (link_parents t ! j) = uint c" by auto
  qed
  from b ok len leaves show ?thesis by blast
qed

section \<open>The size calculator\<close>

text \<open>
  The number of tree edges from a node to the root: the number of \<open>parent\<close> links to
  follow until the node without a parent is reached.  \<open>total_bits\<close> adds these numbers
  for the leaves of all bytes of the data, each leaf found by its value as the size
  calculator finds it.
\<close>

partial_function (option) edges_to_root :: "node list \<Rightarrow> nat \<Rightarrow> nat option" where
  "edges_to_root tree leaf =
     (if leaf \<ge> length tree then None
      else if parent (tree ! leaf) = - 1 then Some 0
      else if parent (tree ! leaf) < 0 then None
      else Option.bind (edges_to_root tree (nat (parent (tree ! leaf)))) (\<lambda>d. Some (Suc d)))"

declare edges_to_root.simps [code]

lemma bind_Some_Suc: "Option.bind x (\<lambda>d. Some (Suc d)) = map_option Suc x"
  by (cases x) simp_all

fun sum_edges :: "node list \<Rightarrow> byte list \<Rightarrow> nat option" where
  "sum_edges tree [] = Some 0"
| "sum_edges tree (c # cs) =
     (case edges_to_root tree (find_if (\<lambda>n. val n = uint c) tree) of
        None \<Rightarrow> None
      | Some d \<Rightarrow> map_option (\<lambda>s. d + s) (sum_edges tree cs))"

definition total_bits :: "(node list \<Rightarrow> node list) \<Rightarrow> byte list \<Rightarrow> nat option" where
  "total_bits srt data =
     (case build_node_tree srt data of Inl e \<Rightarrow> None | Inr tree \<Rightarrow> sum_edges tree data)"

lemma bind_res_ok [simp]: "bind_res (ok x) f = f x"
  by (simp add: bind_res_def)

lemma bind_res_eq_ok:
  "bind_res m f = ok y \<longleftrightarrow> (\<exists>x. m = ok x \<and> f x = ok y)"
  by (auto simp: bind_res_def split: option.splits sum.splits)

subsection \<open>Walks in a linked tree\<close>

lemma tree_okD:
  assumes "tree_ok tr"
  shows "3 \<le> length tr"
    and "\<And>j. j < length tr \<Longrightarrow> 0 \<le> val (tr ! j)"
    and "\<And>j. j < length tr \<Longrightarrow> val (tr ! j) < 256 \<Longrightarrow> left (tr ! j) = - 1 \<and> right (tr ! j) = - 1"
    and "\<And>j. j < length tr \<Longrightarrow> 256 \<le> val (tr ! j) \<Longrightarrow> 0 \<le> left (tr ! j) \<and> 0 \<le> right (tr ! j)"
    and "parent (tr ! 0) = - 1" and "256 \<le> val (tr ! 0)"
    and "\<And>j. 1 \<le> j \<Longrightarrow> j < length tr \<Longrightarrow>
         \<exists>p < j. parent (tr ! j) = int p \<and> 256 \<le> val (tr ! p)
            \<and> (left (tr ! p) = val (tr ! j) \<or> right (tr ! p) = val (tr ! j))"
    and "\<And>i j. i < length tr \<Longrightarrow> j < length tr \<Longrightarrow> 256 \<le> val (tr ! i) \<Longrightarrow>
          val (tr ! i) = val (tr ! j) \<Longrightarrow> i = j"
    and "\<And>i. i < length tr \<Longrightarrow> 256 \<le> val (tr ! i) \<Longrightarrow>
         (\<exists>j. i < j \<and> j < length tr \<and> val (tr ! j) = left (tr ! i))
       \<and> (\<exists>j. i < j \<and> j < length tr \<and> val (tr ! j) = right (tr ! i))"
proof -
  note a = assms [unfolded tree_ok_def]
  show "3 \<le> length tr" using a by blast
  show "\<And>j. j < length tr \<Longrightarrow> 0 \<le> val (tr ! j)" using a by blast
  show "\<And>j. j < length tr \<Longrightarrow> val (tr ! j) < 256 \<Longrightarrow> left (tr ! j) = - 1 \<and> right (tr ! j) = - 1"
    using a by meson
  show "\<And>j. j < length tr \<Longrightarrow> 256 \<le> val (tr ! j) \<Longrightarrow> 0 \<le> left (tr ! j) \<and> 0 \<le> right (tr ! j)"
    using a by (meson not_le)
  show "parent (tr ! 0) = - 1" and "256 \<le> val (tr ! 0)" using a by blast+
  show "\<And>j. 1 \<le> j \<Longrightarrow> j < length tr \<Longrightarrow>
         \<exists>p < j. parent (tr ! j) = int p \<and> 256 \<le> val (tr ! p)
            \<and> (left (tr ! p) = val (tr ! j) \<or> right (tr ! p) = val (tr ! j))"
    using a by blast
  show "\<And>i j. i < length tr \<Longrightarrow> j < length tr \<Longrightarrow> 256 \<le> val (tr ! i) \<Longrightarrow>
          val (tr ! i) = val (tr ! j) \<Longrightarrow> i = j"
    using a by blast
  show "\<And>i. i < length tr \<Longrightarrow> 256 \<le> val (tr ! i) \<Longrightarrow>
         (\<exists>j. i < j \<and> j < length tr \<and> val (tr ! j) = left (tr ! i))
       \<and> (\<exists>j. i < j \<and> j < length tr \<and> val (tr ! j) = right (tr ! i))"
    using a by blast
qed

text \<open>The parent of a node other than the root, as an index.\<close>

definition parent_of :: "node list \<Rightarrow> nat \<Rightarrow> nat" where
  "parent_of tr j = nat (parent (tr ! j))"

lemma parent_of:
  assumes "tree_ok tr" and "1 \<le> j" and "j < length tr"
  shows "parent (tr ! j) = int (parent_of tr j)" and "parent_of tr j < j"
    and "256 \<le> val (tr ! parent_of tr j)"
    and "left (tr ! parent_of tr j) = val (tr ! j) \<or> right (tr ! parent_of tr j) = val (tr ! j)"
    and "parent (tr ! j) \<noteq> - 1" and "\<not> parent (tr ! j) < 0"
proof -
  from tree_okD(7) [OF assms] obtain p where "p < j" "parent (tr ! j) = int p" "256 \<le> val (tr ! p)"
    "left (tr ! p) = val (tr ! j) \<or> right (tr ! p) = val (tr ! j)" by blast
  then show "parent (tr ! j) = int (parent_of tr j)" and "parent_of tr j < j"
    and "256 \<le> val (tr ! parent_of tr j)"
    and "left (tr ! parent_of tr j) = val (tr ! j) \<or> right (tr ! parent_of tr j) = val (tr ! j)"
    and "parent (tr ! j) \<noteq> - 1" and "\<not> parent (tr ! j) < 0"
    by (simp_all add: parent_of_def)
qed

lemma edges_to_root_root:
  assumes "tree_ok tr"
  shows "edges_to_root tr 0 = Some 0"
  using tree_okD(1,5) [OF assms] by (subst edges_to_root.simps) auto

lemma edges_to_root_step:
  assumes "tree_ok tr" and "1 \<le> j" and "j < length tr"
  shows "edges_to_root tr j = map_option Suc (edges_to_root tr (parent_of tr j))"
  using assms(3) parent_of(5,6) [OF assms]
  by (subst edges_to_root.simps) (simp add: parent_of_def bind_Some_Suc)

lemma edges_to_root_total:
  assumes "tree_ok tr" and "j < length tr"
  shows "\<exists>d. edges_to_root tr j = Some d \<and> d \<le> j"
  using assms(2)
proof (induction j rule: less_induct)
  case (less j)
  show ?case
  proof (cases "j = 0")
    case True
    then show ?thesis using edges_to_root_root [OF assms(1)] by simp
  next
    case False
    then have j1: "1 \<le> j" by simp
    note p = parent_of(2) [OF assms(1) j1 less.prems]
    from less.IH [OF p] p less.prems obtain d where "edges_to_root tr (parent_of tr j) = Some d"
      "d \<le> parent_of tr j" by auto
    with p show ?thesis
      unfolding edges_to_root_step [OF assms(1) j1 less.prems] by auto
  qed
qed

text \<open>
  The counters of the size calculator: with \<open>bits\<close> in \<open>0..7\<close>, the pair
  \<open>(bytes, bits)\<close> stands for \<open>8 * (bytes - 1) + bits\<close> counted bits.
\<close>

lemma counter_id:
  fixes bytes bits :: int
  assumes "0 \<le> bits" and "bits < 8"
  shows "(8 * (bytes - 1) + bits) div 8 + 1 = bytes" and "(8 * (bytes - 1) + bits) mod 8 = bits"
  using assms by presburger+

lemma count_walk_edges:
  assumes "edges_to_root tr j = Some d" and "0 \<le> bits" and "bits < 8"
  shows "count_walk tr j bytes bits
           = ok ((8 * (bytes - 1) + bits + int d) div 8 + 1, (8 * (bytes - 1) + bits + int d) mod 8)"
  using assms
proof (induction d arbitrary: j bytes bits)
  case 0
  from "0.prems"(1) have j: "j < length tr" and p: "parent (tr ! j) = - 1"
    by (subst (asm) edges_to_root.simps, auto simp: bind_Some_Suc split: if_splits)+
  note counter_id [OF "0.prems"(2,3), of bytes]
  with j p show ?case by (subst count_walk.simps) simp
next
  case (Suc d)
  from Suc.prems(1) have j: "j < length tr" and p: "parent (tr ! j) \<noteq> - 1" "\<not> parent (tr ! j) < 0"
    and e: "edges_to_root tr (nat (parent (tr ! j))) = Some d"
    by (subst (asm) edges_to_root.simps, auto simp: bind_Some_Suc split: if_splits)+
  show ?case
  proof (cases "bits + 1 = 8")
    case True
    have "count_walk tr j bytes bits = count_walk tr (nat (parent (tr ! j))) (bytes + 1) 0"
      using j p True by (subst count_walk.simps) simp
    also have "\<dots> = ok ((8 * (bytes + 1 - 1) + 0 + int d) div 8 + 1, (8 * (bytes + 1 - 1) + 0 + int d) mod 8)"
      by (rule Suc.IH [OF e]) simp_all
    also have "8 * (bytes + 1 - 1) + 0 + int d = 8 * (bytes - 1) + bits + int (Suc d)"
      using True by simp
    finally show ?thesis .
  next
    case False
    have "count_walk tr j bytes bits = count_walk tr (nat (parent (tr ! j))) bytes (bits + 1)"
      using j p False by (subst count_walk.simps) simp
    also have "\<dots> = ok ((8 * (bytes - 1) + (bits + 1) + int d) div 8 + 1, (8 * (bytes - 1) + (bits + 1) + int d) mod 8)"
      using Suc.prems(2,3) False by (intro Suc.IH [OF e]) simp_all
    also have "8 * (bytes - 1) + (bits + 1) + int d = 8 * (bytes - 1) + bits + int (Suc d)"
      by simp
    finally show ?thesis .
  qed
qed

lemma size_loop_edges:
  assumes "sum_edges tr data = Some s" and "0 \<le> bits" and "bits < 8"
  shows "size_loop tr data bytes bits
           = ok ((8 * (bytes - 1) + bits + int s) div 8 + 1, (8 * (bytes - 1) + bits + int s) mod 8)"
  using assms
proof (induction data arbitrary: s bytes bits)
  case Nil
  then have "s = 0" by simp
  with counter_id [OF Nil.prems(2,3), of bytes] show ?case by simp
next
  case (Cons c cs)
  from Cons.prems(1) obtain d s' where d: "edges_to_root tr (find_if (\<lambda>n. val n = uint c) tr) = Some d"
    and s': "sum_edges tr cs = Some s'" and s: "s = d + s'"
    by (auto split: option.splits)
  let ?n = "8 * (bytes - 1) + bits + int d"
  have m: "0 \<le> ?n mod 8" "?n mod 8 < 8" by simp_all
  have "size_loop tr (c # cs) bytes bits = size_loop tr cs (?n div 8 + 1) (?n mod 8)"
    by (simp add: count_walk_edges [OF d Cons.prems(2,3)])
  also have "\<dots> = ok ((8 * (?n div 8 + 1 - 1) + ?n mod 8 + int s') div 8 + 1,
                       (8 * (?n div 8 + 1 - 1) + ?n mod 8 + int s') mod 8)"
    by (rule Cons.IH [OF s' m])
  also have "8 * (?n div 8 + 1 - 1) + ?n mod 8 + int s' = 8 * (bytes - 1) + bits + int s"
    using s by simp
  finally show ?case .
qed

lemma find_value_leaf:
  assumes "tree_ok tr" and "\<exists>j < length tr. val (tr ! j) = v"
  shows "find_if (\<lambda>n. val n = v) tr < length tr"
    and "val (tr ! find_if (\<lambda>n. val n = v) tr) = v"
    and "\<And>i. i < find_if (\<lambda>n. val n = v) tr \<Longrightarrow> val (tr ! i) \<noteq> v"
proof -
  from assms(2) have "\<exists>x \<in> set tr. val x = v" by (metis nth_mem)
  then show l: "find_if (\<lambda>n. val n = v) tr < length tr" by (simp add: find_if_less_iff)
  then show "val (tr ! find_if (\<lambda>n. val n = v) tr) = v" by (rule find_if_nth)
  show "\<And>i. i < find_if (\<lambda>n. val n = v) tr \<Longrightarrow> val (tr ! i) \<noteq> v"
    by (rule find_if_before)
qed

lemma sum_edges_total:
  assumes "tree_ok tr" and "\<forall>c \<in> set data. \<exists>j < length tr. val (tr ! j) = uint c"
  shows "\<exists>s. sum_edges tr data = Some s \<and> s \<le> length tr * length data"
  using assms(2)
proof (induction data)
  case Nil
  show ?case by simp
next
  case (Cons c cs)
  then obtain s where s: "sum_edges tr cs = Some s" "s \<le> length tr * length cs" by auto
  have "find_if (\<lambda>n. val n = uint c) tr < length tr"
    using find_value_leaf(1) [OF assms(1)] Cons.prems by simp
  from edges_to_root_total [OF assms(1) this] obtain d
    where d: "edges_to_root tr (find_if (\<lambda>n. val n = uint c) tr) = Some d"
      and "d \<le> find_if (\<lambda>n. val n = uint c) tr" by blast
  with \<open>find_if _ tr < length tr\<close> have "d \<le> length tr" by simp
  with s d show ?case by simp
qed

subsection \<open>C3: the pair returned by the size calculator\<close>

text \<open>
  C3 (as stated): the size calculator returns \<open>(ceil (total_bits / 8), total_bits mod 8)\<close>.

  The counter \<open>bytes\<close> starts at 1 and is incremented whenever \<open>bits\<close> reaches 8, so
  the first component is \<open>total_bits div 8 + 1\<close>.  When the number of bits is a multiple
  of 8 this is one more than the ceiling, and the second component 0 then means that the
  last counted byte holds no bit at all.  The encoder accounts for this
  (\<open>bits = 0, bytes--\<close>), and so does \<open>end()\<close> of the decoder.  Eight bytes \<open>a\<close> take
  one bit each: 8 bits, for which the code returns \<open>(2, 0)\<close>.
\<close>

theorem compressed_size_info_ceiling_counterexample:
  "total_bits (sort_key freq) (replicate 8 0x61) = Some 8
   \<and> compressed_size_info (sort_key freq) (replicate 8 0x61) = ok (2, 0)
   \<and> compressed_size_info (sort_key freq) (replicate 8 0x61) \<noteq> ok ((8 + 7) div 8, 8 mod 8)"
  by code_simp

text \<open>
  C3 (amended): for every input (and every sorting function that meets the contract of
  \<open>std::sort\<close>) the walk from each byte's leaf reaches the root, and the size calculator
  returns \<open>(total_bits div 8 + 1, total_bits mod 8)\<close>.
\<close>

theorem compressed_size_info_total_bits:
  assumes "std_sort srt"
  shows "\<exists>tb. total_bits srt data = Some tb
           \<and> compressed_size_info srt data = ok (int tb div 8 + 1, int tb mod 8)"
proof -
  from build_node_tree_ok [OF assms, of data] obtain tr
    where b: "build_node_tree srt data = Inr tr" and ok: "tree_ok tr"
      and lv: "\<forall>c \<in> set data. \<exists>j < length tr. val (tr ! j) = uint c" by blast
  from sum_edges_total [OF ok lv] obtain s where s: "sum_edges tr data = Some s" by blast
  have "size_loop tr data 1 0 = ok ((8 * (1 - 1) + 0 + int s) div 8 + 1, (8 * (1 - 1) + 0 + int s) mod 8)"
    by (rule size_loop_edges [OF s]) simp_all
  then have "compressed_size_info srt data = ok (int s div 8 + 1, int s mod 8)"
    by (simp add: compressed_size_info_def b)
  moreover have "total_bits srt data = Some s" by (simp add: total_bits_def b s)
  ultimately show ?thesis by blast
qed

theorem compressed_size_info_total_bits_witness:
  "total_bits (sort_key freq) [0x61, 0x62, 0x61] = Some 3
   \<and> compressed_size_info (sort_key freq) [0x61, 0x62, 0x61] = ok (1, 3)"
proof -
  from compressed_size_info_total_bits [OF std_sort_sort_key, of "[0x61, 0x62, 0x61]"]
  obtain tb where t: "total_bits (sort_key freq) [0x61, 0x62, 0x61] = Some tb"
    and c: "compressed_size_info (sort_key freq) [0x61, 0x62, 0x61] = ok (int tb div 8 + 1, int tb mod 8)"
    by blast
  have "total_bits (sort_key freq) [0x61, 0x62, 0x61] = Some 3" by code_simp
  with t have "tb = 3" by simp
  with t c show ?thesis by simp
qed

section \<open>The shape of the tree\<close>

text \<open>The children of node \<open>i\<close>: the nodes whose \<open>parent\<close> is \<open>i\<close>.\<close>

definition children :: "node list \<Rightarrow> nat \<Rightarrow> nat set" where
  "children tr i = set (filter (\<lambda>j. parent (tr ! j) = int i) [0..<length tr])"

lemma children_iff: "j \<in> children tr i \<longleftrightarrow> j < length tr \<and> parent (tr ! j) = int i"
  by (auto simp: children_def)

lemma child_pair_index:
  assumes "2 * kidx t p + 2 < length t" and "c = lchild t p \<or> c = rchild t p"
  shows "(length t - 1 - c) div 2 = kidx t p" and "1 \<le> c" and "c < length t"
  using assms by (auto simp: lchild_def rchild_def)

lemma arena_val_kidx:
  assumes "256 \<le> val (t ! i)"
  shows "val (t ! i) = 256 + int (kidx t i)"
  using assms by (simp add: kidx_def)

lemma arena_parent_eq:
  assumes "arena L0 F0 M0 t" and "i < length t" and "256 \<le> val (t ! i)"
    and "j = lchild t i \<or> j = rchild t i"
  shows "parent (linked t j) = int i"
proof -
  note chi = arena_children [OF assms(1-3)]
  note ji = child_pair_index [OF chi(1) assms(4)]
  from arena_linked_parent [OF assms(1) ji(2,3)] obtain p where p: "p < j"
    and par: "parent (linked t j) = int p" and ip: "256 \<le> val (t ! p)"
    and ref: "left (t ! p) = val (t ! j) \<or> right (t ! p) = val (t ! j)" by blast
  have pl: "p < length t" using p ji(3) by simp
  note chp = arena_children [OF assms(1) pl ip]
  from ref chp(3,4) obtain c where c: "c = lchild t p \<or> c = rchild t p" and vc: "val (t ! c) = val (t ! j)"
    by metis
  note cp = child_pair_index [OF chp(1) c]
  have "(length t - 1 - c) div 2 = (length t - 1 - j) div 2"
    using arena_pairs [OF assms(1) cp(2,3) ji(2,3)] vc by blast
  then have "kidx t p = kidx t i" using cp(1) ji(1) by simp
  then have "val (t ! p) = val (t ! i)"
    using arena_val_kidx [OF ip] arena_val_kidx [OF assms(3)] by simp
  from arena_internal_distinct [OF assms(1) pl assms(2) ip this] par show ?thesis by simp
qed

lemma arena_parent_only:
  assumes "arena L0 F0 M0 t" and "1 \<le> j" and "j < length t" and "parent (linked t j) = int i"
  shows "i < length t \<and> 256 \<le> val (t ! i) \<and> (j = lchild t i \<or> j = rchild t i)"
proof -
  from arena_parent_exists [OF assms(1-3)] obtain p where p: "p < j" "256 \<le> val (t ! p)"
    "j = lchild t p \<or> j = rchild t p" by blast
  have pl: "p < length t" using p(1) assms(3) by simp
  from arena_parent_eq [OF assms(1) pl p(2,3)] assms(4) have "i = p" by simp
  with p pl show ?thesis by simp
qed

lemma children_link_parents:
  assumes "arena L0 F0 M0 t" and "2 \<le> L0" and "i < length t"
  shows "children (link_parents t) i = (if 256 \<le> val (t ! i) then {lchild t i, rchild t i} else {})"
proof -
  have root: "parent (link_parents t ! 0) = - 1"
    using tree_okD(5) [OF tree_ok_link_parents [OF assms(1,2)]] .
  have par: "\<And>j. 1 \<le> j \<Longrightarrow> j < length t \<Longrightarrow> parent (link_parents t ! j) = parent (linked t j)"
    by (simp add: link_parents_nth)
  show ?thesis
  proof (cases "256 \<le> val (t ! i)")
    case True
    note chi = arena_children [OF assms(1,3) True]
    have "\<And>j. j \<in> children (link_parents t) i \<longleftrightarrow> j = lchild t i \<or> j = rchild t i"
    proof
      fix j assume "j \<in> children (link_parents t) i"
      then have j: "j < length t" and pj: "parent (link_parents t ! j) = int i"
        by (simp_all add: children_iff)
      with root have "1 \<le> j" by (cases j) auto
      with arena_parent_only [OF assms(1) this j] pj par j
      show "j = lchild t i \<or> j = rchild t i" by simp
    next
      fix j assume c: "j = lchild t i \<or> j = rchild t i"
      note ji = child_pair_index [OF chi(1) c]
      from arena_parent_eq [OF assms(1,3) True c] par [OF ji(2,3)] ji(3)
      show "j \<in> children (link_parents t) i" by (simp add: children_iff)
    qed
    with True show ?thesis by auto
  next
    case False
    have "\<And>j. j \<notin> children (link_parents t) i"
    proof
      fix j assume "j \<in> children (link_parents t) i"
      then have j: "j < length t" and pj: "parent (link_parents t ! j) = int i"
        by (simp_all add: children_iff)
      with root have "1 \<le> j" by (cases j) auto
      with arena_parent_only [OF assms(1) this j] pj par j False
      show False by simp
    qed
    with False show ?thesis by auto
  qed
qed

subsection \<open>C4: the shape of the built tree\<close>

text \<open>
  C4: with \<open>L\<close> the number of distinct symbols, at least 2, the tree has \<open>2L - 1\<close>
  nodes; the node at index 0 is the root, the only node without a parent, and every
  other node has a parent at a smaller index; the frequency of the root is the length of
  the data; every merged node has exactly two children and its frequency is the sum of
  theirs; a leaf has no children.  A child of a node is a node whose \<open>parent\<close> is that
  node.
\<close>

theorem build_node_tree_shape:
  assumes "std_sort srt"
  shows "\<exists>tr. build_node_tree srt data = Inr tr
           \<and> length tr = 2 * max 2 (card (set data)) - 1
           \<and> parent (tr ! 0) = - 1
           \<and> (\<forall>j. 1 \<le> j \<and> j < length tr \<longrightarrow> 0 \<le> parent (tr ! j) \<and> parent (tr ! j) < int j)
           \<and> freq (tr ! 0) = int (length data)
           \<and> (\<forall>i < length tr. 256 \<le> val (tr ! i) \<longrightarrow>
                 card (children tr i) = 2 \<and> freq (tr ! i) = (\<Sum>j \<in> children tr i. freq (tr ! j)))
           \<and> (\<forall>i < length tr. val (tr ! i) < 256 \<longrightarrow> children tr i = {})"
proof -
  let ?l = "build_node_list srt data"
  from build_node_tree_arena [OF assms, of data] obtain t
    where b: "build_node_tree srt data = Inr (link_parents t)"
      and a: "arena (length ?l) (int (length data)) (mset ?l) t" by blast
  let ?tr = "link_parents t"
  have two: "2 \<le> length ?l" by (simp add: length_build_node_list [OF assms])
  have ok: "tree_ok ?tr" by (rule tree_ok_link_parents [OF a two])
  note f = link_parents_fields
  have c1: "length ?tr = 2 * max 2 (card (set data)) - 1"
    using arena_length(1) [OF a] by (simp add: length_build_node_list [OF assms])
  have c2: "parent (?tr ! 0) = - 1" by (rule tree_okD(5) [OF ok])
  have c3: "\<forall>j. 1 \<le> j \<and> j < length ?tr \<longrightarrow> 0 \<le> parent (?tr ! j) \<and> parent (?tr ! j) < int j"
    using parent_of(1,2) [OF ok] by (metis of_nat_0_le_iff of_nat_less_iff)
  have z: "0 < length t" using tree_okD(1) [OF ok] by auto
  have c4: "freq (?tr ! 0) = int (length data)"
    using arena_root_freq [OF a] by (simp add: f(4) [OF z])
  have c5: "\<forall>i < length ?tr. 256 \<le> val (?tr ! i) \<longrightarrow>
                 card (children ?tr i) = 2 \<and> freq (?tr ! i) = (\<Sum>j \<in> children ?tr i. freq (?tr ! j))"
  proof (intro allI impI)
    fix i assume "i < length ?tr" and "256 \<le> val (?tr ! i)"
    then have i: "i < length t" and v: "256 \<le> val (t ! i)" by (simp_all add: f)
    note ch = arena_children [OF a i v]
    have r: "rchild t i < length t" and l: "lchild t i < length t"
      and ne: "lchild t i \<noteq> rchild t i"
      using ch(1) by (simp_all add: lchild_def rchild_def)
    have cs: "children ?tr i = {lchild t i, rchild t i}"
      using children_link_parents [OF a two i] v by simp
    have "(\<Sum>j \<in> children ?tr i. freq (?tr ! j)) = freq (?tr ! lchild t i) + freq (?tr ! rchild t i)"
      unfolding cs using ne by simp
    also have "\<dots> = freq (?tr ! i)" using ch(5) by (simp add: f(4) [OF l] f(4) [OF r] f(4) [OF i])
    finally show "card (children ?tr i) = 2 \<and> freq (?tr ! i) = (\<Sum>j \<in> children ?tr i. freq (?tr ! j))"
      unfolding cs using ne by simp
  qed
  have c6: "\<forall>i < length ?tr. val (?tr ! i) < 256 \<longrightarrow> children ?tr i = {}"
  proof (intro allI impI)
    fix i assume "i < length ?tr" and "val (?tr ! i) < 256"
    then have i: "i < length t" and v: "\<not> 256 \<le> val (t ! i)" by (simp_all add: f)
    show "children ?tr i = {}" using children_link_parents [OF a two i] v by simp
  qed
  from b c1 c2 c3 c4 c5 c6 show ?thesis by blast
qed

theorem build_node_tree_shape_witness:
  "\<exists>tr. build_node_tree (sort_key freq) [0x61, 0x62, 0x61, 0x63] = Inr tr
           \<and> length tr = 2 * max 2 (card (set [0x61, 0x62, 0x61, 0x63 :: byte])) - 1
           \<and> parent (tr ! 0) = - 1
           \<and> (\<forall>j. 1 \<le> j \<and> j < length tr \<longrightarrow> 0 \<le> parent (tr ! j) \<and> parent (tr ! j) < int j)
           \<and> freq (tr ! 0) = int (length [0x61, 0x62, 0x61, 0x63 :: byte])
           \<and> (\<forall>i < length tr. 256 \<le> val (tr ! i) \<longrightarrow>
                 card (children tr i) = 2 \<and> freq (tr ! i) = (\<Sum>j \<in> children tr i. freq (tr ! j)))
           \<and> (\<forall>i < length tr. val (tr ! i) < 256 \<longrightarrow> children tr i = {})"
  using build_node_tree_shape [OF std_sort_sort_key] .

section \<open>Construction and the empty input\<close>

text \<open>No step of the build reports \<open>EmptyInput\<close>: only the \<open>requires\<close> clause does.\<close>

definition not_empty_error :: "'a res \<Rightarrow> bool" where
  "not_empty_error r \<longleftrightarrow> r \<noteq> Some (Inl EmptyInput)"

lemma not_empty_error_simps [simp]:
  "not_empty_error None" "not_empty_error (ok x)" "not_empty_error oob"
  by (simp_all add: not_empty_error_def)

lemma not_empty_error_bind:
  assumes "not_empty_error m" and "\<And>x. not_empty_error (f x)"
  shows "not_empty_error (bind_res m f)"
  using assms by (auto simp: not_empty_error_def bind_res_def split: option.splits sum.splits)

lemma merge_nodes_not_empty: "merge_nodes list tree nv \<noteq> Inl EmptyInput"
proof (induction list tree nv rule: merge_nodes.induct)
  case (1 list tree nv)
  show ?case
  proof (cases "length list < 2")
    case True
    then show ?thesis by (subst merge_nodes.simps) simp
  next
    case False
    show ?thesis
    proof (cases "length list - 1 = 1")
      case True
      with False show ?thesis by (subst merge_nodes.simps) (simp add: Let_def)
    next
      case F2: False
      from "1.IH" [OF False refl refl refl F2] False F2
      show ?thesis by (subst merge_nodes.simps) (simp add: Let_def)
    qed
  qed
qed

lemma build_node_tree_not_empty: "build_node_tree srt data \<noteq> Inl EmptyInput"
  using merge_nodes_not_empty [of "build_node_list srt data" "[]" 256]
  by (auto simp: build_node_tree_def split: sum.splits)

lemma count_walk_not_empty: "not_empty_error (count_walk tree leaf bytes bits)"
proof (cases "count_walk tree leaf bytes bits")
  case None
  then show ?thesis by simp
next
  case (Some y)
  then have "y \<noteq> Inl EmptyInput"
    by (rule count_walk.raw_induct [where P = "\<lambda>_ _ _ _ y. y \<noteq> Inl EmptyInput", rotated])
       (auto split: if_splits)
  with Some show ?thesis by (simp add: not_empty_error_def)
qed

lemma size_loop_not_empty: "not_empty_error (size_loop tree data bytes bits)"
  by (induction data arbitrary: bytes bits)
     (auto intro!: not_empty_error_bind count_walk_not_empty)

lemma compressed_size_info_not_empty: "not_empty_error (compressed_size_info srt data)"
  using build_node_tree_not_empty [of srt data] size_loop_not_empty
  by (auto simp: compressed_size_info_def not_empty_error_def split: sum.splits)

lemma compressed_size_not_empty: "not_empty_error (compressed_size srt data)"
  unfolding compressed_size_def
  by (auto intro!: not_empty_error_bind compressed_size_info_not_empty)

lemma bytes_saved_not_empty: "not_empty_error (bytes_saved srt data)"
  unfolding bytes_saved_def
  by (auto intro!: not_empty_error_bind compressed_size_not_empty simp: Let_def)

lemma encode_walk_not_empty: "not_empty_error (encode_walk tree leaf bytes bits cd)"
proof (cases "encode_walk tree leaf bytes bits cd")
  case None
  then show ?thesis by simp
next
  case (Some y)
  then have "y \<noteq> Inl EmptyInput"
    by (rule encode_walk.raw_induct [where P = "\<lambda>_ _ _ _ _ y. y \<noteq> Inl EmptyInput", rotated])
       (auto simp: Let_def split: if_splits)
  with Some show ?thesis by (simp add: not_empty_error_def)
qed

lemma compress_loop_not_empty: "not_empty_error (compress_loop tree data bytes bits cd)"
  by (induction data arbitrary: bytes bits cd)
     (auto intro!: not_empty_error_bind encode_walk_not_empty)

lemma compress_not_empty: "not_empty_error (compress srt data cd)"
proof (cases "build_node_tree srt data")
  case (Inl e)
  with build_node_tree_not_empty [of srt data] show ?thesis
    by (simp add: compress_def not_empty_error_def)
next
  case (Inr tree)
  then show ?thesis
    unfolding compress_def
    by (auto intro!: not_empty_error_bind compressed_size_info_not_empty compress_loop_not_empty)
qed

lemma build_decode_tree_not_empty: "not_empty_error (build_decode_tree srt data cd)"
proof (cases "build_node_tree srt data")
  case (Inl e)
  with build_node_tree_not_empty [of srt data] show ?thesis
    by (simp add: build_decode_tree_def not_empty_error_def)
next
  case (Inr tree)
  then show ?thesis
    unfolding build_decode_tree_def
    by (auto intro!: not_empty_error_bind compressed_size_info_not_empty simp: write_at_def)
qed

subsection \<open>C9: \<open>EmptyInput\<close>\<close>

text \<open>
  C9: construction fails with \<open>EmptyInput\<close> exactly when the length of the input is 0,
  and then there is no object: the result is the error and nothing else.  The same holds
  for the earlier revision \<open>huffman_compress\<close>.
\<close>

theorem empty_input_iff:
  "(huffman_compressor srt raw_data = Some (Inl EmptyInput)) = (length raw_data = 0)
   \<and> (\<nexists>cd. length raw_data = 0 \<and> huffman_compressor srt raw_data = ok cd)
   \<and> (huffman_compress srt raw_data = Some (Inl EmptyInput)) = (length raw_data = 0)
   \<and> (\<nexists>obj. length raw_data = 0 \<and> huffman_compress srt raw_data = ok obj)"
proof -
  have a: "not_empty_error (bind_res (bytes_saved srt raw_data) (\<lambda>saved.
          if saved > 0 then
            bind_res (compressed_size_info srt raw_data) (\<lambda>(bytes, bits).
              bind_res (build_decode_tree srt raw_data
                          (replicate (nat bytes + 3 * tree_count srt raw_data) 0))
                (\<lambda>cd. compress srt raw_data cd))
          else ok raw_data))"
    by (auto intro!: not_empty_error_bind bytes_saved_not_empty compressed_size_info_not_empty
          build_decode_tree_not_empty compress_not_empty)
  have b: "not_empty_error (bind_res (bytes_saved srt raw_data) (\<lambda>saved.
          if saved > 0 then
            bind_res (compressed_size_info srt raw_data) (\<lambda>(bytes, bits).
              case build_node_tree srt raw_data of
                Inl e \<Rightarrow> Some (Inl e)
              | Inr tree \<Rightarrow>
                  bind_res (compress srt raw_data (replicate (nat bytes) 0)) (\<lambda>cd.
                    ok \<lparr>compressed_data = cd, decode_tree = decode_table tree\<rparr>))
          else ok \<lparr>compressed_data = raw_data,
                    decode_tree = replicate (3 * tree_count srt raw_data) 0\<rparr>))"
  proof (cases "build_node_tree srt raw_data")
    case (Inl e)
    with build_node_tree_not_empty [of srt raw_data]
    have "not_empty_error (Some (Inl e) :: huffman_compress_obj res)"
      by (simp add: not_empty_error_def)
    with Inl show ?thesis
      by (auto intro!: not_empty_error_bind bytes_saved_not_empty compressed_size_info_not_empty)
  next
    case (Inr tree)
    then show ?thesis
      by (auto intro!: not_empty_error_bind bytes_saved_not_empty compressed_size_info_not_empty
          compress_not_empty)
  qed
  show ?thesis
    using a b by (auto simp: huffman_compressor_def huffman_compress_def not_empty_error_def)
qed

section \<open>Sizes and the fallback policy\<close>

lemma card_set_bytes: "card (set (data :: byte list)) \<le> 256"
proof -
  have "card (set data) \<le> card (UNIV :: byte set)" by (rule card_mono) simp_all
  then show ?thesis by (simp add: card_word)
qed

lemma tree_count_bounds:
  assumes "std_sort srt"
  shows "3 \<le> tree_count srt data" and "tree_count srt data \<le> 511"
  using card_set_bytes [of data] by (simp_all add: tree_count_eq [OF assms])

lemma compressed_size_info_bounds:
  assumes "std_sort srt"
  shows "\<exists>first bits. compressed_size_info srt data = ok (first, bits)
           \<and> 1 \<le> first \<and> first \<le> 64 * int (length data) + 1 \<and> 0 \<le> bits \<and> bits < 8"
proof -
  from build_node_tree_ok [OF assms, of data] obtain tr
    where b: "build_node_tree srt data = Inr tr" and ok: "tree_ok tr"
      and len: "length tr = tree_count srt data"
      and lv: "\<forall>c \<in> set data. \<exists>j < length tr. val (tr ! j) = uint c" by blast
  from sum_edges_total [OF ok lv] obtain s where s: "sum_edges tr data = Some s"
    and sb: "s \<le> length tr * length data" by blast
  have "length tr * length data \<le> 511 * length data"
    using tree_count_bounds(2) [OF assms, of data] len by simp
  with sb have s511: "int s \<le> 511 * int (length data)" by linarith
  have "size_loop tr data 1 0 = ok ((8 * (1 - 1) + 0 + int s) div 8 + 1, (8 * (1 - 1) + 0 + int s) mod 8)"
    by (rule size_loop_edges [OF s]) simp_all
  then have c: "compressed_size_info srt data = ok (int s div 8 + 1, int s mod 8)"
    by (simp add: compressed_size_info_def b)
  have "int s div 8 \<le> 64 * int (length data)" using s511 by linarith
  moreover have "0 \<le> int s div 8" by simp
  ultimately show ?thesis using c by auto
qed

lemma sint_word_of_int_64:
  assumes "- (2 ^ 63) \<le> k" and "k < 2 ^ 63"
  shows "sint (word_of_int k :: 64 word) = k"
  using assms by (simp add: sint_sbintrunc' signed_take_bit_int_eq_self)

lemma bytes_saved_eq:
  assumes "std_sort srt" and "length data < 2 ^ 50"
    and "compressed_size_info srt data = ok (first, bits)"
  shows "bytes_saved srt data
           = ok (max 0 (int (length data) - (first + 3 * int (tree_count srt data))))"
proof -
  from compressed_size_info_bounds [OF assms(1), of data] assms(3)
  have f: "1 \<le> first" "first \<le> 64 * int (length data) + 1" by auto
  let ?k = "int (length data) - (first + 3 * int (tree_count srt data))"
  have n: "int (length data) < 2 ^ 50" using assms(2) by (metis of_nat_less_numeral_power_cancel_iff)
  have T: "int (tree_count srt data) \<le> 511" using tree_count_bounds(2) [OF assms(1), of data] by simp
  have lo: "- (2 ^ 63) \<le> ?k" using f n T by simp
  have hi: "?k < 2 ^ 63" using f n T by simp
  have "uncompressed_size data - (word_of_int first + 3 * word_of_nat (tree_count srt data))
      = (word_of_int ?k :: 64 word)"
    by (simp add: uncompressed_size_def)
  then have "sint (uncompressed_size data - (word_of_int first + 3 * word_of_nat (tree_count srt data)) :: 64 word) = ?k"
    using sint_word_of_int_64 [OF lo hi] by simp
  then show ?thesis
    by (simp add: bytes_saved_def compressed_size_def assms(3) Let_def max_def)
qed


subsection \<open>The decoder in fallback mode\<close>





subsection \<open>C2: the fallback policy\<close>



section \<open>The encoder\<close>

text \<open>
  Bit \<open>q\<close> of a byte array, counted from the most significant bit of byte 0: the order
  in which the decoder reads the payload.
\<close>

definition getbit :: "byte list \<Rightarrow> nat \<Rightarrow> bool" where
  "getbit cd q = bit (cd ! (q div 8)) (7 - q mod 8)"

text \<open>
  The bits the encoder writes for the node \<open>j\<close>, in the order of its walk from \<open>j\<close> to
  the root: a bit is 1 when the node is named as \<open>right\<close> by its parent.
\<close>

function up_bits :: "node list \<Rightarrow> nat \<Rightarrow> bool list" where
  "up_bits tr j =
     (if 1 \<le> j \<and> j < length tr \<and> 0 \<le> parent (tr ! j) \<and> nat (parent (tr ! j)) < j
      then (right (tr ! nat (parent (tr ! j))) = val (tr ! j)) # up_bits tr (nat (parent (tr ! j)))
      else [])"
  by pat_completeness auto
termination
  by (relation "measure snd") auto

declare up_bits.simps [simp del]

lemma up_bits_root [simp]: "up_bits tr 0 = []"
  by (subst up_bits.simps) simp

lemma up_bits_step:
  assumes "tree_ok tr" and "1 \<le> j" and "j < length tr"
  shows "up_bits tr j
           = (right (tr ! parent_of tr j) = val (tr ! j)) # up_bits tr (parent_of tr j)"
proof -
  have "0 \<le> parent (tr ! j)" using parent_of(6) [OF assms] by linarith
  moreover have "nat (parent (tr ! j)) < j"
    using parent_of(2) [OF assms] by (simp add: parent_of_def)
  ultimately
  show ?thesis
    using assms(2,3) by (subst up_bits.simps) (simp add: parent_of_def)
qed

lemma edges_up_bits:
  assumes "tree_ok tr" and "j < length tr"
  shows "edges_to_root tr j = Some (length (up_bits tr j))"
  using assms(2)
proof (induction j rule: less_induct)
  case (less j)
  show ?case
  proof (cases "j = 0")
    case True
    then show ?thesis using edges_to_root_root [OF assms(1)] by simp
  next
    case False
    then have j1: "1 \<le> j" by simp
    note p = parent_of(2) [OF assms(1) j1 less.prems]
    have "edges_to_root tr (parent_of tr j) = Some (length (up_bits tr (parent_of tr j)))"
      using less.IH [OF p] p less.prems by simp
    then show ?thesis
      unfolding edges_to_root_step [OF assms(1) j1 less.prems] up_bits_step [OF assms(1) j1 less.prems]
      by simp
  qed
qed

lemma up_bits_leaf_nonempty:
  assumes "tree_ok tr" and "1 \<le> j" and "j < length tr"
  shows "up_bits tr j \<noteq> []"
  by (simp add: up_bits_step [OF assms])

subsection \<open>Writing one bit\<close>

lemma bit_or_push_bit_1:
  fixes w :: byte
  shows "bit (w OR push_bit b 1) m \<longleftrightarrow> bit w m \<or> (m = b \<and> b < 8)"
proof -
  have "bit (push_bit b (1 :: byte)) m \<longleftrightarrow> m = b \<and> b < 8"
    by (auto simp: bit_exp_iff possible_bit_word)
  then show ?thesis by (simp add: bit_or_iff)
qed

lemma bit_or_exp:
  fixes w :: byte
  shows "bit (w OR 2 ^ b) m \<longleftrightarrow> bit w m \<or> (m = b \<and> b < 8)"
  using bit_or_push_bit_1 [of w b m] by simp

lemma bit_position:
  fixes q i b :: nat
  assumes "b < 8"
  shows "(q div 8 = i \<and> 7 - q mod 8 = b) \<longleftrightarrow> q = 8 * i + 7 - b"
proof
  assume a: "q div 8 = i \<and> 7 - q mod 8 = b"
  have "q mod 8 < 8" by simp
  moreover have "q = 8 * (q div 8) + q mod 8" by simp
  ultimately show "q = 8 * i + 7 - b" using a by linarith
next
  assume "q = 8 * i + 7 - b"
  then have q: "q = (7 - b) + i * 8" using assms by simp
  have "q div 8 = i" unfolding q by simp
  moreover have "q mod 8 = 7 - b" unfolding q by simp
  ultimately show "q div 8 = i \<and> 7 - q mod 8 = b" using assms by simp
qed

lemma getbit_set:
  assumes "i < length cd" and "b < 8"
  shows "getbit (cd[i := cd ! i OR push_bit b 1]) q \<longleftrightarrow> getbit cd q \<or> q = 8 * i + 7 - b"
proof (cases "q div 8 = i")
  case True
  then show ?thesis
    using assms bit_position [OF assms(2), of q i] by (auto simp: getbit_def bit_or_exp)
next
  case False
  then show ?thesis
    using assms bit_position [OF assms(2), of q i] by (simp add: getbit_def)
qed

text \<open>
  The cursor of the encoder: the pair \<open>(bytes, bits)\<close> stands for the bit position
  \<open>8 * bytes - bits\<close>, one past the bit that is written next (the encoder moves towards
  the start of the array).
\<close>

definition cursor :: "nat \<Rightarrow> int \<Rightarrow> int \<Rightarrow> bool" where
  "cursor K bytes bits \<longleftrightarrow> int K = 8 * bytes - bits \<and> 0 \<le> bits \<and> bits < 8"

text \<open>
  \<open>written cd K ws cd'\<close>: the array \<open>cd'\<close> is \<open>cd\<close> with the bits \<open>ws\<close> ORed into the
  positions \<open>K - length ws, \<dots>, K - 1\<close>.
\<close>

definition written :: "byte list \<Rightarrow> nat \<Rightarrow> bool list \<Rightarrow> byte list \<Rightarrow> bool" where
  "written cd K ws cd' \<longleftrightarrow>
     length ws \<le> K \<and> length cd' = length cd
   \<and> (\<forall>q. getbit cd' q = (getbit cd q \<or> (K - length ws \<le> q \<and> q < K \<and> ws ! (q - (K - length ws)))))"

lemma written_Nil: "written cd K [] cd"
  by (auto simp: written_def)

lemma written_append:
  assumes "written cd K ws1 cd1" and "written cd1 (K - length ws1) ws2 cd2"
  shows "written cd K (ws2 @ ws1) cd2"
proof -
  from assms have l: "length ws1 \<le> K" "length ws2 \<le> K - length ws1"
    and n: "length cd1 = length cd" "length cd2 = length cd1"
    and g1: "\<And>q. getbit cd1 q = (getbit cd q \<or> (K - length ws1 \<le> q \<and> q < K \<and> ws1 ! (q - (K - length ws1))))"
    and g2: "\<And>q. getbit cd2 q = (getbit cd1 q \<or> (K - length ws1 - length ws2 \<le> q \<and> q < K - length ws1
                 \<and> ws2 ! (q - (K - length ws1 - length ws2))))"
    unfolding written_def by blast+
  have "getbit cd2 q = (getbit cd q \<or> (K - length (ws2 @ ws1) \<le> q \<and> q < K
            \<and> (ws2 @ ws1) ! (q - (K - length (ws2 @ ws1)))))" for q
  proof (cases "q < K - length ws1")
    case True
    then have "K - length ws1 - length ws2 \<le> q \<Longrightarrow> q - (K - length (ws2 @ ws1)) < length ws2"
      using l by simp
    then show ?thesis
      using True l unfolding g2 g1 by (auto simp: nth_append ac_simps)
  next
    case False
    then have "q < K \<Longrightarrow> q - (K - length (ws2 @ ws1)) = length ws2 + (q - (K - length ws1))"
      using l by simp
    then show ?thesis
      using False l unfolding g2 g1 by (auto simp: nth_append ac_simps)
  qed
  with l n show ?thesis unfolding written_def by simp
qed

lemma cursor_step:
  assumes "cursor K bytes bits" and "1 \<le> K" and "K \<le> 8 * length cd"
  shows "nat (bytes - 1) < length cd" and "\<not> bytes - 1 < 0"
    and "K - 1 = 8 * nat (bytes - 1) + 7 - nat bits" and "nat bits < 8"
    and "cursor (K - 1) (if bits + 1 = 8 then bytes - 1 else bytes) (if bits + 1 = 8 then 0 else bits + 1)"
proof -
  from assms(1) have c: "int K = 8 * bytes - bits" "0 \<le> bits" "bits < 8"
    by (simp_all add: cursor_def)
  from c assms(2) have b1: "1 \<le> bytes" by linarith
  then show "\<not> bytes - 1 < 0" by simp
  from c assms(3) have "bytes \<le> int (length cd)" by linarith
  with b1 show i: "nat (bytes - 1) < length cd" by linarith
  show "K - 1 = 8 * nat (bytes - 1) + 7 - nat bits"
    using c b1 assms(2) by linarith
  show "nat bits < 8" using c by simp
  show "cursor (K - 1) (if bits + 1 = 8 then bytes - 1 else bytes) (if bits + 1 = 8 then 0 else bits + 1)"
    using c assms(2) by (auto simp: cursor_def)
qed

lemma written_one:
  assumes "cursor K bytes bits" and "1 \<le> K" and "K \<le> 8 * length cd"
  shows "written cd K [b] (if b then cd[nat (bytes - 1) := cd ! nat (bytes - 1) OR push_bit (nat bits) 1]
                           else cd)"
proof (cases b)
  case True
  note s = cursor_step [OF assms]
  have "getbit (cd[nat (bytes - 1) := cd ! nat (bytes - 1) OR push_bit (nat bits) 1]) q
          = (getbit cd q \<or> (K - length [b] \<le> q \<and> q < K \<and> [b] ! (q - (K - length [b]))))" for q
  proof -
    have "(K - length [b] \<le> q \<and> q < K \<and> [b] ! (q - (K - length [b]))) \<longleftrightarrow> q = K - 1"
      using True assms(2) by auto
    then show ?thesis unfolding getbit_set [OF s(1,4)] s(3) [symmetric] by simp
  qed
  then show ?thesis using True assms(2) unfolding written_def by simp
next
  case False
  then show ?thesis using assms(2) by (auto simp: written_def)
qed

subsection \<open>The walk of the encoder\<close>

lemma encode_walk_written:
  assumes "tree_ok tr"
  shows "j < length tr \<Longrightarrow> cursor K bytes bits \<Longrightarrow> length (up_bits tr j) \<le> K \<Longrightarrow> K \<le> 8 * length cd \<Longrightarrow>
         \<exists>bytes' bits' cd'. encode_walk tr j bytes bits cd = ok (bytes', bits', cd')
            \<and> cursor (K - length (up_bits tr j)) bytes' bits'
            \<and> written cd K (rev (up_bits tr j)) cd'"
proof (induction j arbitrary: K bytes bits cd rule: less_induct)
  case (less j)
  show ?case
  proof (cases "j = 0")
    case True
    have "encode_walk tr 0 bytes bits cd = ok (bytes, bits, cd)"
      using tree_okD(1,5) [OF assms] by (subst encode_walk.simps) auto
    with True less.prems show ?thesis by (simp add: written_Nil)
  next
    case False
    then have j1: "1 \<le> j" by simp
    define p where "p = parent_of tr j"
    define b where "b = (right (tr ! p) = val (tr ! j))"
    note pf = parent_of [OF assms j1 less.prems(1), folded p_def]
    have pl: "p < length tr" using pf(2) less.prems(1) by simp
    have ub: "up_bits tr j = b # up_bits tr p"
      unfolding b_def p_def by (rule up_bits_step [OF assms j1 less.prems(1)])
    have K1: "1 \<le> K" using less.prems(3) ub by simp
    define cd1 where "cd1 = (if b then cd[nat (bytes - 1) := cd ! nat (bytes - 1) OR push_bit (nat bits) 1] else cd)"
    define bytes1 where "bytes1 = (if bits + 1 = 8 then bytes - 1 else bytes)"
    define bits1 where "bits1 = (if bits + 1 = 8 then 0 else bits + 1)"
    note cs = cursor_step [OF less.prems(2) K1 less.prems(4), folded bytes1_def bits1_def]
    note w = written_one [OF less.prems(2) K1 less.prems(4), of b, folded cd1_def]
    have l1: "length cd1 = length cd" by (simp add: cd1_def)
    have step: "encode_walk tr j bytes bits cd = encode_walk tr p bytes1 bits1 cd1"
      using less.prems(1) pf(5,6) pl cs(1,2)
      by (subst encode_walk.simps)
         (simp add: parent_of_def [symmetric] p_def [symmetric] b_def [symmetric] cd1_def bytes1_def bits1_def Let_def)
    have "\<exists>bytes' bits' cd'. encode_walk tr p bytes1 bits1 cd1 = ok (bytes', bits', cd')
            \<and> cursor (K - 1 - length (up_bits tr p)) bytes' bits'
            \<and> written cd1 (K - 1) (rev (up_bits tr p)) cd'"
      using less.prems(3,4) ub l1 by (intro less.IH [OF pf(2) pl cs(5)]) simp_all
    then obtain bytes' bits' cd' where r: "encode_walk tr p bytes1 bits1 cd1 = ok (bytes', bits', cd')"
      and c: "cursor (K - 1 - length (up_bits tr p)) bytes' bits'"
      and w2: "written cd1 (K - 1) (rev (up_bits tr p)) cd'" by blast
    have "written cd K (rev (up_bits tr p) @ [b]) cd'"
      using written_append [OF w] w2 by simp
    with r c show ?thesis unfolding step ub by simp
  qed
qed

subsection \<open>The loop of the encoder\<close>

text \<open>The code of a byte, from the root to its leaf, and of a sequence of bytes.\<close>

definition code_of :: "node list \<Rightarrow> byte \<Rightarrow> bool list" where
  "code_of tr c = rev (up_bits tr (find_if (\<lambda>n. val n = uint c) tr))"

definition codes :: "node list \<Rightarrow> byte list \<Rightarrow> bool list" where
  "codes tr cs = concat (map (code_of tr) cs)"

lemma codes_simps [simp]:
  "codes tr [] = []" "codes tr (c # cs) = code_of tr c @ codes tr cs"
  "codes tr (xs @ ys) = codes tr xs @ codes tr ys"
  by (simp_all add: codes_def)

lemma compress_loop_written:
  assumes "tree_ok tr"
  shows "\<forall>c \<in> set ys. \<exists>j < length tr. val (tr ! j) = uint c \<Longrightarrow> cursor K bytes bits \<Longrightarrow>
         length (codes tr (rev ys)) \<le> K \<Longrightarrow> K \<le> 8 * length cd \<Longrightarrow>
         \<exists>bytes' bits' cd'. compress_loop tr ys bytes bits cd = ok (bytes', bits', cd')
            \<and> cursor (K - length (codes tr (rev ys))) bytes' bits'
            \<and> written cd K (codes tr (rev ys)) cd'"
proof (induction ys arbitrary: K bytes bits cd)
  case Nil
  then show ?case by (simp add: written_Nil)
next
  case (Cons y ys)
  let ?j = "find_if (\<lambda>n. val n = uint y) tr"
  have jl: "?j < length tr"
    using find_value_leaf(1) [OF assms] Cons.prems(1) by simp
  have cy: "rev (up_bits tr ?j) = code_of tr y" by (simp add: code_of_def)
  have ly: "length (up_bits tr ?j) = length (code_of tr y)" by (simp add: code_of_def)
  have len: "length (code_of tr y) \<le> K" using Cons.prems(3) by simp
  from encode_walk_written [OF assms jl Cons.prems(2) _ Cons.prems(4)] len ly
  obtain bytes1 bits1 cd1 where r: "encode_walk tr ?j bytes bits cd = ok (bytes1, bits1, cd1)"
    and c: "cursor (K - length (code_of tr y)) bytes1 bits1"
    and w: "written cd K (code_of tr y) cd1"
    unfolding cy ly by auto
  have l1: "length cd1 = length cd" using w by (simp add: written_def)
  have "\<exists>bytes' bits' cd'. compress_loop tr ys bytes1 bits1 cd1 = ok (bytes', bits', cd')
            \<and> cursor (K - length (code_of tr y) - length (codes tr (rev ys))) bytes' bits'
            \<and> written cd1 (K - length (code_of tr y)) (codes tr (rev ys)) cd'"
    using Cons.prems(1,3,4) l1 by (intro Cons.IH [OF _ c]) simp_all
  then obtain bytes' bits' cd' where r2: "compress_loop tr ys bytes1 bits1 cd1 = ok (bytes', bits', cd')"
    and c2: "cursor (K - length (code_of tr y) - length (codes tr (rev ys))) bytes' bits'"
    and w2: "written cd1 (K - length (code_of tr y)) (codes tr (rev ys)) cd'" by blast
  have "written cd K (codes tr (rev ys) @ code_of tr y) cd'"
    by (rule written_append [OF w w2])
  moreover have "K - length (code_of tr y) - length (codes tr (rev ys))
                   = K - length (codes tr (rev (y # ys)))" by simp
  ultimately show ?case using r r2 c2 by simp
qed

lemma sum_edges_codes:
  assumes "tree_ok tr" and "\<forall>c \<in> set data. \<exists>j < length tr. val (tr ! j) = uint c"
  shows "sum_edges tr data = Some (length (codes tr data))"
  using assms(2)
proof (induction data)
  case Nil
  show ?case by simp
next
  case (Cons c cs)
  have "find_if (\<lambda>n. val n = uint c) tr < length tr"
    using find_value_leaf(1) [OF assms(1)] Cons.prems by simp
  from edges_up_bits [OF assms(1) this] Cons show ?case
    by (simp add: code_of_def)
qed

subsection \<open>The payload\<close>


lemma build_facts:
  assumes "std_sort srt" and "build_node_tree srt data = Inr tr"
  shows "tree_ok tr" and "length tr = tree_count srt data"
    and "\<forall>c \<in> set data. \<exists>j < length tr. val (tr ! j) = uint c"
    and "compressed_size_info srt data
           = ok (int (length (codes tr data)) div 8 + 1, int (length (codes tr data)) mod 8)"
proof -
  from build_node_tree_ok [OF assms(1), of data] assms(2)
  show ok: "tree_ok tr" and len: "length tr = tree_count srt data"
    and lv: "\<forall>c \<in> set data. \<exists>j < length tr. val (tr ! j) = uint c" by auto
  note s = sum_edges_codes [OF ok lv]
  have "size_loop tr data 1 0 = ok ((8 * (1 - 1) + 0 + int (length (codes tr data))) div 8 + 1,
                                    (8 * (1 - 1) + 0 + int (length (codes tr data))) mod 8)"
    by (rule size_loop_edges [OF s]) simp_all
  then show "compressed_size_info srt data
           = ok (int (length (codes tr data)) div 8 + 1, int (length (codes tr data)) mod 8)"
    by (simp add: compressed_size_info_def assms(2))
qed

lemma div8_bound: "(n :: nat) \<le> 8 * (n div 8 + 1 + k)"
proof -
  define d r where "d = n div 8" and "r = n mod 8"
  have "n = 8 * d + r" "r < 8" by (simp_all add: d_def r_def)
  then have "n \<le> 8 * (d + 1 + k)" by simp
  then show ?thesis by (simp only: d_def)
qed

lemma start_cursor:
  fixes tb :: nat
  shows "cursor tb (if int tb mod 8 > 0 then int tb div 8 + 1 else int tb div 8 + 1 - 1)
                   (if int tb mod 8 > 0 then 8 - int tb mod 8 else 0)"
proof -
  define k where "k = int tb"
  have "k = 8 * (if k mod 8 > 0 then k div 8 + 1 else k div 8 + 1 - 1)
              - (if k mod 8 > 0 then 8 - k mod 8 else 0)"
    by presburger
  moreover have "0 \<le> (if k mod 8 > 0 then 8 - k mod 8 else 0)"
    and "(if k mod 8 > 0 then 8 - k mod 8 else 0) < 8" by presburger+
  ultimately show ?thesis unfolding cursor_def k_def by blast
qed

lemma compress_written:
  assumes "std_sort srt" and "build_node_tree srt data = Inr tr"
    and "length (codes tr data) \<le> 8 * length cd"
  shows "\<exists>cd'. compress srt data cd = ok cd'
           \<and> written cd (length (codes tr data)) (codes tr data) cd'"
proof -
  note ok = build_facts(1) [OF assms(1,2)] and lv = build_facts(3) [OF assms(1,2)]
    and sz = build_facts(4) [OF assms(1,2)]
  define tb where "tb = length (codes tr data)"
  define bytes0 where "bytes0 = (if int tb mod 8 > 0 then int tb div 8 + 1 else int tb div 8 + 1 - 1)"
  define bits0 where "bits0 = (if int tb mod 8 > 0 then 8 - int tb mod 8 else 0)"
  have c: "cursor tb bytes0 bits0" unfolding bytes0_def bits0_def by (rule start_cursor)
  have lv': "\<forall>c \<in> set (rev data). \<exists>j < length tr. val (tr ! j) = uint c" using lv by simp
  from compress_loop_written [OF ok lv' c, of cd] assms(3)
  obtain bytes' bits' cd' where r: "compress_loop tr (rev data) bytes0 bits0 cd = ok (bytes', bits', cd')"
    and w: "written cd tb (codes tr data) cd'"
    by (auto simp: tb_def)
  have "compress srt data cd = ok cd'"
    using r by (cases "0 < int tb mod 8")
      (simp_all add: compress_def assms(2) sz tb_def [symmetric] bytes0_def bits0_def)
  with w show ?thesis unfolding tb_def by blast
qed

lemma byte_eqI:
  fixes x y :: byte
  assumes "\<And>m. m < 8 \<Longrightarrow> bit x (7 - m) = bit y (7 - m)"
  shows "x = y"
proof (rule bit_word_eqI)
  fix n assume "n < LENGTH(8)"
  then have n: "n < 8" by simp
  then have "7 - n < 8" by simp
  from assms [OF this] n show "bit x n = bit y n" by simp
qed

lemma getbit_byte: "m < 8 \<Longrightarrow> getbit cd (8 * i + m) = bit (cd ! i) (7 - m)"
  by (simp add: getbit_def)

lemma written_above:
  assumes "written cd K ws cd'" and "K \<le> 8 * i"
  shows "cd' ! i = cd ! i"
proof (rule byte_eqI)
  fix m :: nat assume m: "m < 8"
  from assms(1) have "getbit cd' (8 * i + m) = (getbit cd (8 * i + m)
       \<or> (K - length ws \<le> 8 * i + m \<and> 8 * i + m < K \<and> ws ! (8 * i + m - (K - length ws))))"
    unfolding written_def by blast
  with assms(2) have "getbit cd' (8 * i + m) = getbit cd (8 * i + m)" by simp
  then show "bit (cd' ! i) (7 - m) = bit (cd ! i) (7 - m)"
    by (simp add: getbit_byte [OF m])
qed

lemma written_zero:
  assumes "written cd (length ws) ws cd'" and "q < length ws"
    and "cd ! (q div 8) = 0"
  shows "getbit cd' q = ws ! q"
proof -
  from assms(1) have "getbit cd' q = (getbit cd q
       \<or> (length ws - length ws \<le> q \<and> q < length ws \<and> ws ! (q - (length ws - length ws))))"
    unfolding written_def by blast
  moreover have "\<not> getbit cd q" using assms(3) by (simp add: getbit_def)
  ultimately show ?thesis using assms(2) by simp
qed

subsection \<open>The table and the whole array\<close>

lemma length_decode_entry [simp]: "length (decode_entry tr i) = 3"
  by (simp add: decode_entry_def)

lemma length_concat_const:
  assumes "\<And>x. x \<in> set xs \<Longrightarrow> length (f x) = k"
  shows "length (concat (map f xs)) = k * length xs"
  using assms by (induction xs) simp_all

lemma length_decode_table [simp]: "length (decode_table tr) = 3 * length tr"
  unfolding decode_table_def by (subst length_concat_const [where k = 3]) simp_all

lemma concat_nth_const:
  assumes "\<And>x. x \<in> set xs \<Longrightarrow> length (f x) = k" and "i < length xs" and "m < k"
  shows "concat (map f xs) ! (k * i + m) = f (xs ! i) ! m"
  using assms
proof (induction xs arbitrary: i)
  case Nil
  then show ?case by simp
next
  case (Cons x xs)
  show ?case
  proof (cases i)
    case 0
    with Cons.prems show ?thesis by (simp add: nth_append)
  next
    case (Suc i')
    have "concat (map f xs) ! (k * i' + m) = f (xs ! i') ! m"
      using Cons.prems Suc by (intro Cons.IH) simp_all
    moreover have "k * i + m - k = k * i' + m" using Suc by simp
    ultimately show ?thesis using Cons.prems(1) [of x] Suc by (simp add: nth_append)
  qed
qed

lemma decode_table_nth:
  assumes "i < length tr" and "m < 3"
  shows "decode_table tr ! (3 * i + m) = decode_entry tr i ! m"
  unfolding decode_table_def
  using concat_nth_const [where f = "decode_entry tr" and xs = "[0..<length tr]" and k = 3 and i = i and m = m]
    assms by simp

text \<open>
  The array of an object in compressed mode: \<open>first\<close> payload bytes, which hold the codes
  of the bytes of the data in order, followed by the table.
\<close>

definition payload_bytes :: "node list \<Rightarrow> byte list \<Rightarrow> nat" where
  "payload_bytes tr data = length (codes tr data) div 8 + 1"

lemma huffman_compressor_array:
  assumes "std_sort srt" and "raw_data \<noteq> []" and "bytes_saved srt raw_data = ok s" and "0 < s"
    and "build_node_tree srt raw_data = Inr tr"
  shows "\<exists>cd. huffman_compressor srt raw_data = ok cd
           \<and> length cd = payload_bytes tr raw_data + 3 * length tr
           \<and> (\<forall>q < length (codes tr raw_data). getbit cd q = codes tr raw_data ! q)
           \<and> (\<forall>i < 3 * length tr. cd ! (payload_bytes tr raw_data + i) = decode_table tr ! i)"
proof -
  note len = build_facts(2) [OF assms(1,5)] and sz = build_facts(4) [OF assms(1,5)]
  define B where "B = payload_bytes tr raw_data"
  have B: "nat (int (length (codes tr raw_data)) div 8 + 1) = B"
    unfolding B_def payload_bytes_def by (simp add: nat_add_distrib nat_div_distrib)
  have B0: "\<not> int (length (codes tr raw_data)) div 8 + 1 < 0"
    by (smt (verit) div_int_pos_iff of_nat_0_le_iff)
  define cd0 where "cd0 = replicate B (0 :: byte) @ decode_table tr"
  have w0: "write_at B (decode_table tr) (replicate (B + 3 * length tr) 0) = ok cd0"
    by (simp add: write_at_def cd0_def)
  have bd: "build_decode_tree srt raw_data (replicate (B + 3 * length tr) 0) = ok cd0"
    using B0 by (simp add: build_decode_tree_def assms(5) sz B w0)
  have l0: "length cd0 = B + 3 * length tr" by (simp add: cd0_def)
  have "length (codes tr raw_data) \<le> 8 * length cd0"
    unfolding l0 B_def payload_bytes_def by (rule div8_bound)
  from compress_written [OF assms(1,5) this]
  obtain cd where c: "compress srt raw_data cd0 = ok cd"
    and w: "written cd0 (length (codes tr raw_data)) (codes tr raw_data) cd" by blast
  have hc: "huffman_compressor srt raw_data = ok cd"
    using assms(2,4) by (simp add: huffman_compressor_def assms(3) sz B len [symmetric] bd c)
  have lc: "length cd = B + 3 * length tr" using w l0 by (simp add: written_def)
  have pay: "getbit cd q = codes tr raw_data ! q" if "q < length (codes tr raw_data)" for q
  proof -
    have "q div 8 < B" using that unfolding B_def payload_bytes_def by simp
    then have "cd0 ! (q div 8) = 0" by (simp add: cd0_def nth_append)
    from written_zero [OF w that this] show ?thesis .
  qed
  have tab: "cd ! (B + i) = decode_table tr ! i" if "i < 3 * length tr" for i
  proof -
    have "length (codes tr raw_data) \<le> 8 * (B + i)"
      unfolding B_def payload_bytes_def by (rule div8_bound)
    from written_above [OF w this] show ?thesis by (simp add: cd0_def nth_append)
  qed
  from hc lc pay tab show ?thesis unfolding B_def by blast
qed


section \<open>The decode table\<close>

subsection \<open>The distance to a child\<close>

lemma child_distance_found:
  assumes "i < j" and "j < length tr" and "val (tr ! j) = v"
    and "\<And>k. i < k \<Longrightarrow> k < j \<Longrightarrow> val (tr ! k) \<noteq> v"
  shows "child_distance tr i v = j - i"
proof -
  have "find_if (\<lambda>n. v = val n) (drop (i + 1) tr) = j - i - 1"
  proof (rule find_if_eqI)
    show "j - i - 1 < length (drop (i + 1) tr)" using assms(1,2) by simp
    show "v = val (drop (i + 1) tr ! (j - i - 1))" using assms(1,2,3) by simp
    fix m assume "m < j - i - 1"
    then have "i < i + 1 + m" "i + 1 + m < j" by simp_all
    from assms(4) [OF this] show "v \<noteq> val (drop (i + 1) tr ! m)"
      using assms(1,2) by auto
  qed
  then show ?thesis using assms(1,2) by (simp add: child_distance_def Let_def)
qed

lemma child_distance_none:
  assumes "\<And>k. i < k \<Longrightarrow> k < length tr \<Longrightarrow> val (tr ! k) \<noteq> v"
  shows "child_distance tr i v = 0"
proof -
  have "\<not> (\<exists>x \<in> set (drop (i + 1) tr). v = val x)"
  proof
    assume "\<exists>x \<in> set (drop (i + 1) tr). v = val x"
    then obtain m where "m < length (drop (i + 1) tr)" "v = val (drop (i + 1) tr ! m)"
      by (metis in_set_conv_nth)
    then have "i < i + 1 + m" "i + 1 + m < length tr" "val (tr ! (i + 1 + m)) = v" by auto
    with assms show False by blast
  qed
  then have "\<not> find_if (\<lambda>n. v = val n) (drop (i + 1) tr) < length (drop (i + 1) tr)"
    unfolding find_if_less_iff .
  then have "length tr \<le> i + 1 + find_if (\<lambda>n. v = val n) (drop (i + 1) tr)" by simp
  then show ?thesis by (simp add: child_distance_def Let_def)
qed

lemma child_distance_first:
  assumes "\<exists>k. i < k \<and> k < length tr \<and> val (tr ! k) = v"
  obtains j where "i < j" and "j < length tr" and "val (tr ! j) = v"
    and "\<And>k. i < k \<Longrightarrow> k < j \<Longrightarrow> val (tr ! k) \<noteq> v"
    and "child_distance tr i v = j - i"
proof -
  define j where "j = (LEAST k. i < k \<and> k < length tr \<and> val (tr ! k) = v)"
  from assms have j: "i < j \<and> j < length tr \<and> val (tr ! j) = v"
    unfolding j_def by (rule LeastI_ex)
  have m: "val (tr ! k) \<noteq> v" if "i < k" "k < j" for k
  proof
    assume "val (tr ! k) = v"
    with that j have "i < k \<and> k < length tr \<and> val (tr ! k) = v" by simp
    then have "j \<le> k" unfolding j_def by (rule Least_le)
    with that show False by simp
  qed
  from j m have "child_distance tr i v = j - i" by (intro child_distance_found) simp_all
  with j m show ?thesis by (intro that [of j]) simp_all
qed

lemma child_distance_less:
  assumes "i < length tr"
  shows "child_distance tr i v < length tr - i"
  using assms by (auto simp: child_distance_def Let_def)

text \<open>The entry of a leaf holds two zero distances, the entry of an internal node none.\<close>

lemma child_distance_leaf:
  assumes "tree_ok tr" and "i < length tr" and "val (tr ! i) < 256"
  shows "child_distance tr i (left (tr ! i)) = 0" and "child_distance tr i (right (tr ! i)) = 0"
proof -
  from tree_okD(3) [OF assms] have l: "left (tr ! i) = - 1" "right (tr ! i) = - 1" by simp_all
  have "val (tr ! k) \<noteq> - 1" if "k < length tr" for k
    using tree_okD(2) [OF assms(1) that] by simp
  then show "child_distance tr i (left (tr ! i)) = 0" and "child_distance tr i (right (tr ! i)) = 0"
    unfolding l by (simp_all add: child_distance_none)
qed

lemma child_distance_internal:
  assumes "tree_ok tr" and "i < length tr" and "256 \<le> val (tr ! i)"
  shows "0 < child_distance tr i (left (tr ! i))" and "0 < child_distance tr i (right (tr ! i))"
proof -
  from tree_okD(9) [OF assms]
  have l: "\<exists>j. i < j \<and> j < length tr \<and> val (tr ! j) = left (tr ! i)"
    and r: "\<exists>j. i < j \<and> j < length tr \<and> val (tr ! j) = right (tr ! i)" by simp_all
  from child_distance_first [OF l] show "0 < child_distance tr i (left (tr ! i))"
    by (metis zero_less_diff)
  from child_distance_first [OF r] show "0 < child_distance tr i (right (tr ! i))"
    by (metis zero_less_diff)
qed

subsection \<open>The stored distances\<close>

lemma decode_entry_nth:
  "decode_entry tr i ! 0 = (if val (tr ! i) \<le> 0xFF then word_of_int (val (tr ! i)) else 0)"
  "decode_entry tr i ! 1 = word_of_nat (child_distance tr i (left (tr ! i)))"
  "decode_entry tr i ! 2 = word_of_nat (child_distance tr i (right (tr ! i)))"
  "decode_entry tr i ! Suc 0 = word_of_nat (child_distance tr i (left (tr ! i)))"
  by (simp_all add: decode_entry_def)

lemma unat_byte_of_nat:
  assumes "n < 256"
  shows "unat (word_of_nat n :: byte) = n"
  using assms by (simp add: unat_of_nat)

lemma stored_distance:
  assumes "length tr \<le> 256" and "i < length tr"
  shows "unat (word_of_nat (child_distance tr i v) :: byte) = child_distance tr i v"
proof -
  from child_distance_less [OF assms(2), of v] assms(1)
  have "child_distance tr i v < 256" by simp
  then show ?thesis by (rule unat_byte_of_nat)
qed

lemma stored_zero_iff:
  assumes "length tr \<le> 256" and "i < length tr"
  shows "(word_of_nat (child_distance tr i v) :: byte) = 0 \<longleftrightarrow> child_distance tr i v = 0"
  using stored_distance [OF assms, of v] by (metis unat_0 unat_eq_zero)

section \<open>The decoder\<close>

subsection \<open>The bit mask\<close>

text \<open>The mask of the decoder at bit position \<open>q\<close> of the payload.\<close>

definition bit_mask :: "nat \<Rightarrow> byte" where
  "bit_mask q = push_bit (7 - q mod 8) 1"

lemma below_8:
  fixes n :: nat
  assumes "n < 8"
  shows "n \<in> {0, 1, 2, 3, 4, 5, 6, 7}"
  using assms by auto

lemma exp_byte_inj:
  fixes m n :: nat
  assumes "m < 8" and "n < 8" and "(2 :: byte) ^ m = 2 ^ n"
  shows "m = n"
proof -
  have "bit ((2 :: byte) ^ m) m" using assms(1) by (simp add: bit_exp_iff)
  then have "bit ((2 :: byte) ^ n) m" using assms(3) by simp
  then show ?thesis by (simp add: bit_exp_iff)
qed

lemma bit_mask_eq_iff: "bit_mask q = bit_mask q' \<longleftrightarrow> q mod 8 = q' mod 8"
proof
  assume "bit_mask q = bit_mask q'"
  then have "(2 :: byte) ^ (7 - q mod 8) = 2 ^ (7 - q' mod 8)" by (simp add: bit_mask_def)
  then have "7 - q mod 8 = 7 - q' mod 8" by (intro exp_byte_inj) simp_all
  moreover have "q mod 8 < 8" "q' mod 8 < 8" by simp_all
  ultimately show "q mod 8 = q' mod 8" by linarith
qed (simp add: bit_mask_def)

lemma position_eq_iff: "q div 8 = q' div 8 \<and> bit_mask q = bit_mask q' \<longleftrightarrow> q = q'"
  unfolding bit_mask_eq_iff by (metis div_mult_mod_eq)

lemma and_bit_mask: "x AND bit_mask q \<noteq> 0 \<longleftrightarrow> bit x (7 - q mod 8)"
  by (simp add: bit_mask_def and_exp_eq_0_iff_not_bit)

lemma and_bit_mask_getbit: "cd ! (q div 8) AND bit_mask q \<noteq> 0 \<longleftrightarrow> getbit cd q"
  by (simp add: and_bit_mask getbit_def)

lemma drop_bit_exp_byte:
  fixes n :: nat
  assumes "n < 8"
  shows "drop_bit 1 ((2 :: byte) ^ n) = (if n = 0 then 0 else 2 ^ (n - 1))"
  using below_8 [OF assms] by (auto simp: drop_bit_eq_div)

lemma drop_bit_mask:
  "drop_bit 1 (bit_mask q) = (if q mod 8 = 7 then 0 else bit_mask (q + 1))"
proof (cases "q mod 8 = 7")
  case True
  then show ?thesis by (simp add: bit_mask_def drop_bit_eq_div)
next
  case False
  have q: "q mod 8 < 8" by simp
  from False have "(q + 1) mod 8 = q mod 8 + 1" by presburger
  then have "7 - q mod 8 - 1 = 7 - (q + 1) mod 8" by simp
  moreover have "7 - q mod 8 \<noteq> 0" using False q by linarith
  ultimately show ?thesis
    using False drop_bit_exp_byte [of "7 - q mod 8"] by (simp add: bit_mask_def)
qed

lemma bit_mask_nonzero: "bit_mask q \<noteq> 0"
proof -
  have "bit (bit_mask q) (7 - q mod 8)" by (simp add: bit_mask_def bit_exp_iff)
  then show ?thesis by auto
qed

lemma bit_mask_wrap: "q mod 8 = 7 \<Longrightarrow> bit_mask (q + 1) = 0x80 \<and> (q + 1) div 8 = q div 8 + 1"
proof -
  assume a: "q mod 8 = 7"
  then have "(q + 1) mod 8 = 0" by presburger
  moreover have "(q + 1) div 8 = q div 8 + 1" using a by presburger
  ultimately show ?thesis by (simp add: bit_mask_def)
qed

lemma bit_mask_same_byte:
  fixes q :: nat
  shows "q mod 8 \<noteq> 7 \<Longrightarrow> (q + 1) div 8 = q div 8"
  by presburger

lemma bit_mask_0 [simp]: "bit_mask 0 = 0x80"
  by (simp add: bit_mask_def)

subsection \<open>One step of the table walk\<close>

text \<open>
  The array \<open>cd\<close> holds the table of the tree \<open>tr\<close> from position \<open>B\<close> on, and
  nothing after it.
\<close>

definition holds_table :: "byte list \<Rightarrow> nat \<Rightarrow> node list \<Rightarrow> bool" where
  "holds_table cd B tr \<longleftrightarrow>
     length cd = B + 3 * length tr \<and> (\<forall>i < 3 * length tr. cd ! (B + i) = decode_table tr ! i)"

lemma table_entry:
  assumes "holds_table cd B tr" and "i < length tr" and "m < 3"
  shows "cd ! (B + 3 * i + m) = decode_entry tr i ! m" and "B + 3 * i + m < length cd"
proof -
  have "3 * i + m < 3 * length tr" using assms(2,3) by simp
  with assms(1) have "cd ! (B + (3 * i + m)) = decode_table tr ! (3 * i + m)"
    unfolding holds_table_def by blast
  then show "cd ! (B + 3 * i + m) = decode_entry tr i ! m"
    by (simp add: decode_table_nth [OF assms(2,3)] add.assoc)
  show "B + 3 * i + m < length cd"
    using assms unfolding holds_table_def by simp
qed

text \<open>The child that the table walk moves to from node \<open>i\<close> on reading the bit \<open>b\<close>.\<close>

definition child :: "node list \<Rightarrow> nat \<Rightarrow> bool \<Rightarrow> nat" where
  "child tr i b = i + child_distance tr i (if b then right (tr ! i) else left (tr ! i))"

lemma child_bounds:
  assumes "tree_ok tr" and "i < length tr" and "256 \<le> val (tr ! i)"
  shows "i < child tr i b" and "child tr i b < length tr"
proof -
  show "i < child tr i b"
    using child_distance_internal [OF assms] by (simp add: child_def)
  show "child tr i b < length tr"
    using child_distance_less [OF assms(2)] unfolding child_def
    by (metis less_diff_conv add.commute)
qed

lemma entry_internal_iff:
  assumes "tree_ok tr" and "length tr \<le> 256" and "i < length tr"
  shows "decode_entry tr i ! 1 \<noteq> 0 \<longleftrightarrow> 256 \<le> val (tr ! i)"
    and "decode_entry tr i ! 2 \<noteq> 0 \<longleftrightarrow> 256 \<le> val (tr ! i)"
proof -
  show "decode_entry tr i ! 1 \<noteq> 0 \<longleftrightarrow> 256 \<le> val (tr ! i)"
  proof (cases "256 \<le> val (tr ! i)")
    case True
    with child_distance_internal(1) [OF assms(1,3)] show ?thesis
      by (simp add: decode_entry_nth stored_zero_iff [OF assms(2,3)])
  next
    case False
    with child_distance_leaf(1) [OF assms(1,3)] show ?thesis
      by (simp add: decode_entry_nth)
  qed
  show "decode_entry tr i ! 2 \<noteq> 0 \<longleftrightarrow> 256 \<le> val (tr ! i)"
  proof (cases "256 \<le> val (tr ! i)")
    case True
    with child_distance_internal(2) [OF assms(1,3)] show ?thesis
      by (simp add: decode_entry_nth stored_zero_iff [OF assms(2,3)])
  next
    case False
    with child_distance_leaf(2) [OF assms(1,3)] show ?thesis
      by (simp add: decode_entry_nth)
  qed
qed

lemma table_walk_step:
  assumes "tree_ok tr" and "length tr \<le> 256" and "holds_table cd B tr"
    and "i < length tr" and "256 \<le> val (tr ! i)" and "q div 8 + 1 < length cd"
  shows "table_walk cd (B + 3 * i) (q div 8) (cd ! (q div 8)) (bit_mask q)
         = (if 256 \<le> val (tr ! child tr i (getbit cd q))
            then table_walk cd (B + 3 * child tr i (getbit cd q)) ((q + 1) div 8)
                   (cd ! ((q + 1) div 8)) (bit_mask (q + 1))
            else ok (B + 3 * child tr i (getbit cd q), (q + 1) div 8, bit_mask (q + 1)))"
proof -
  define b where "b = getbit cd q"
  define c where "c = child tr i b"
  define idx :: nat where "idx = (if b then 2 else 1)"
  have idx3: "idx < 3" by (simp add: idx_def)
  have t: "(cd ! (q div 8) AND bit_mask q \<noteq> 0) = b"
    unfolding b_def by (rule and_bit_mask_getbit)
  note e = table_entry [OF assms(3,4) idx3]
  have "decode_entry tr i ! idx
          = word_of_nat (child_distance tr i (if b then right (tr ! i) else left (tr ! i)))"
    by (simp add: idx_def decode_entry_nth)
  then have "unat (cd ! (B + 3 * i + idx))
               = child_distance tr i (if b then right (tr ! i) else left (tr ! i))"
    unfolding e(1) by (simp add: stored_distance [OF assms(2,4)])
  then have n': "B + 3 * i + unat (cd ! (B + 3 * i + idx)) * 3 = B + 3 * c"
    by (simp add: c_def child_def)
  note cb = child_bounds [OF assms(1,4,5), of b, folded c_def]
  have one3: "(1 :: nat) < 3" by simp
  note e1 = table_entry [OF assms(3) cb(2) one3]
  have leafc: "(cd ! (B + 3 * c + 1) \<noteq> 0) = (256 \<le> val (tr ! c))"
    unfolding e1(1) by (rule entry_internal_iff(1) [OF assms(1,2) cb(2)])
  have l1: "\<not> length cd \<le> B + 3 * i + idx" using e(2) by simp
  have l2: "\<not> length cd \<le> B + 3 * c + 1" using e1(2) by simp
  have l3: "\<not> length cd \<le> q div 8 + 1" using assms(6) by simp
  have "table_walk cd (B + 3 * i) (q div 8) (cd ! (q div 8)) (bit_mask q)
         = (if 256 \<le> val (tr ! c)
            then table_walk cd (B + 3 * c) ((q + 1) div 8) (cd ! ((q + 1) div 8)) (bit_mask (q + 1))
            else ok (B + 3 * c, (q + 1) div 8, bit_mask (q + 1)))"
  proof (cases "q mod 8 = 7")
    case True
    note w = bit_mask_wrap [OF True]
    show ?thesis
      apply (subst table_walk.simps)
      apply (simp only: t idx_def [symmetric] l1 if_False Let_def n' drop_bit_mask True if_True
          refl l3 l2 leafc)
      apply (use w in simp)
      done
  next
    case False
    note w = bit_mask_same_byte [OF False]
    show ?thesis
      apply (subst table_walk.simps)
      apply (simp only: t idx_def [symmetric] l1 if_False Let_def n' drop_bit_mask False
          bit_mask_nonzero l2 leafc)
      apply (use w in simp)
      done
  qed
  then show ?thesis unfolding c_def b_def .
qed

subsection \<open>Paths from the root\<close>

text \<open>
  \<open>path tr i bs j\<close>: reading the bits \<open>bs\<close> from node \<open>i\<close> leads to node \<open>j\<close>, and
  every node left on the way is an internal node.
\<close>

fun path :: "node list \<Rightarrow> nat \<Rightarrow> bool list \<Rightarrow> nat \<Rightarrow> bool" where
  "path tr i [] j \<longleftrightarrow> i = j"
| "path tr i (b # bs) j \<longleftrightarrow> i < length tr \<and> 256 \<le> val (tr ! i) \<and> path tr (child tr i b) bs j"

lemma path_append:
  "path tr i xs k \<Longrightarrow> path tr k ys j \<Longrightarrow> path tr i (xs @ ys) j"
  by (induction xs arbitrary: i) simp_all

text \<open>Node \<open>j\<close> is the first node of the array with its value.\<close>

definition first_occ :: "node list \<Rightarrow> nat \<Rightarrow> bool" where
  "first_occ tr j \<longleftrightarrow> (\<forall>i < j. val (tr ! i) \<noteq> val (tr ! j))"

lemma first_occ_internal:
  assumes "tree_ok tr" and "j < length tr" and "256 \<le> val (tr ! j)"
  shows "first_occ tr j"
  unfolding first_occ_def
proof (intro allI impI)
  fix i assume "i < j"
  with assms(2) have "i < length tr" by simp
  show "val (tr ! i) \<noteq> val (tr ! j)"
  proof
    assume "val (tr ! i) = val (tr ! j)"
    with tree_okD(8) [OF assms(1) assms(2) \<open>i < length tr\<close> assms(3)] \<open>i < j\<close>
    show False by simp
  qed
qed

lemma child_parent:
  assumes "tree_ok tr" and "1 \<le> j" and "j < length tr" and "first_occ tr j"
  shows "child tr (parent_of tr j) (right (tr ! parent_of tr j) = val (tr ! j)) = j"
proof -
  define p where "p = parent_of tr j"
  note pf = parent_of [OF assms(1-3), folded p_def]
  define v where "v = (if right (tr ! p) = val (tr ! j) then right (tr ! p) else left (tr ! p))"
  have v: "val (tr ! j) = v" using pf(4) by (auto simp: v_def)
  have "child_distance tr p v = j - p"
  proof (rule child_distance_found [OF pf(2) assms(3) v])
    fix k assume "p < k" "k < j"
    with assms(4) show "val (tr ! k) \<noteq> v" unfolding v [symmetric] first_occ_def by blast
  qed
  then show ?thesis using pf(2) by (simp add: child_def v_def p_def [symmetric])
qed

lemma path_up_bits:
  assumes "tree_ok tr"
  shows "j < length tr \<Longrightarrow> first_occ tr j \<Longrightarrow> path tr 0 (rev (up_bits tr j)) j"
proof (induction j rule: less_induct)
  case (less j)
  show ?case
  proof (cases "j = 0")
    case True
    then show ?thesis by simp
  next
    case False
    then have j1: "1 \<le> j" by simp
    define p where "p = parent_of tr j"
    note pf = parent_of [OF assms j1 less.prems(1), folded p_def]
    have pl: "p < length tr" using pf(2) less.prems(1) by simp
    have "path tr 0 (rev (up_bits tr p)) p"
      by (rule less.IH [OF pf(2) pl first_occ_internal [OF assms pl pf(3)]])
    moreover have "path tr p [right (tr ! p) = val (tr ! j)] j"
      using pl pf(3) child_parent [OF assms j1 less.prems] by (simp add: p_def)
    ultimately have "path tr 0 (rev (up_bits tr p) @ [right (tr ! p) = val (tr ! j)]) j"
      by (rule path_append)
    then show ?thesis
      by (simp add: up_bits_step [OF assms j1 less.prems(1)] p_def)
  qed
qed

text \<open>The leaf of a byte of the data, and the path of its code.\<close>

lemma code_path:
  assumes "tree_ok tr" and "\<exists>j < length tr. val (tr ! j) = uint c"
  defines "j \<equiv> find_if (\<lambda>n. val n = uint c) tr"
  shows "j < length tr" and "val (tr ! j) = uint c" and "path tr 0 (code_of tr c) j"
    and "code_of tr c \<noteq> []"
proof -
  note f = find_value_leaf [OF assms(1,2), folded j_def]
  show jl: "j < length tr" and v: "val (tr ! j) = uint c" by (rule f)+
  have fo: "first_occ tr j" unfolding first_occ_def v using f(3) by blast
  show "path tr 0 (code_of tr c) j"
    unfolding code_of_def j_def [symmetric] by (rule path_up_bits [OF assms(1) jl fo])
  have "uint c < 256" using uint_lt2p [of c] by simp
  with v tree_okD(6) [OF assms(1)] have "j \<noteq> 0" by (metis not_le)
  then have "1 \<le> j" by simp
  from up_bits_leaf_nonempty [OF assms(1) this jl]
  show "code_of tr c \<noteq> []" by (simp add: code_of_def j_def)
qed

subsection \<open>The table walk along a path\<close>

lemma table_walk_path:
  assumes "tree_ok tr" and "length tr \<le> 256" and "holds_table cd B tr"
    and "j < length tr" and "val (tr ! j) < 256"
  shows "path tr i bs j \<Longrightarrow> bs \<noteq> [] \<Longrightarrow> (\<forall>m < length bs. getbit cd (q + m) = bs ! m) \<Longrightarrow>
         (q + length bs) div 8 + 1 \<le> B \<Longrightarrow>
         table_walk cd (B + 3 * i) (q div 8) (cd ! (q div 8)) (bit_mask q)
           = ok (B + 3 * j, (q + length bs) div 8, bit_mask (q + length bs))"
proof (induction bs arbitrary: i q)
  case Nil
  then show ?case by simp
next
  case (Cons b bs)
  from Cons.prems(1) have il: "i < length tr" and iv: "256 \<le> val (tr ! i)"
    and p: "path tr (child tr i b) bs j" by simp_all
  have g: "getbit cd q = b" using Cons.prems(3) by auto
  have "q div 8 \<le> (q + length (b # bs)) div 8" by (rule div_le_mono) simp
  with Cons.prems(4) assms(3) assms(4) have ql: "q div 8 + 1 < length cd"
    unfolding holds_table_def by simp
  note st = table_walk_step [OF assms(1,2,3) il iv ql, unfolded g]
  show ?case
  proof (cases "bs = []")
    case True
    with p have "child tr i b = j" by simp
    with st assms(5) True show ?thesis by simp
  next
    case False
    then obtain b' bs' where bs: "bs = b' # bs'" by (cases bs) auto
    with p have cv: "256 \<le> val (tr ! child tr i b)" by simp
    have "table_walk cd (B + 3 * child tr i b) ((q + 1) div 8) (cd ! ((q + 1) div 8)) (bit_mask (q + 1))
            = ok (B + 3 * j, (q + 1 + length bs) div 8, bit_mask (q + 1 + length bs))"
    proof (rule Cons.IH [OF p False])
      show "\<forall>m < length bs. getbit cd (q + 1 + m) = bs ! m"
      proof (intro allI impI)
        fix m assume "m < length bs"
        then have "Suc m < length (b # bs)" by simp
        with Cons.prems(3) have "getbit cd (q + Suc m) = (b # bs) ! Suc m" by blast
        then show "getbit cd (q + 1 + m) = bs ! m" by simp
      qed
      show "(q + 1 + length bs) div 8 + 1 \<le> B" using Cons.prems(4) by simp
    qed
    with st cv show ?thesis by simp
  qed
qed

subsection \<open>The decoder of an object in compressed mode\<close>

text \<open>
  \<open>compressed_object srt data tr cd\<close>: the array \<open>cd\<close> is the one of the object built
  from \<open>data\<close> in compressed mode, \<open>tr\<close> is the tree, and the tree has at most 256 nodes,
  so that every distance between a node and its child is below 256.
\<close>

definition compressed_object ::
  "(node list \<Rightarrow> node list) \<Rightarrow> byte list \<Rightarrow> node list \<Rightarrow> byte list \<Rightarrow> bool" where
  "compressed_object srt data tr cd \<longleftrightarrow>
     std_sort srt \<and> build_node_tree srt data = Inr tr \<and> length tr \<le> 256
   \<and> (\<exists>s. bytes_saved srt data = ok s \<and> 0 < s)
   \<and> huffman_compressor srt data = ok cd"

text \<open>The decoder whose next bit is bit \<open>q\<close> of the payload.\<close>

definition at_bit :: "nat \<Rightarrow> nat \<Rightarrow> int \<Rightarrow> decoder" where
  "at_bit B q x = \<lparr>m_data = q div 8, m_table = B, m_bit = bit_mask q, m_current = x\<rparr>"

lemma at_bit_sel [simp]:
  "m_data (at_bit B q x) = q div 8" "m_table (at_bit B q x) = B"
  "m_bit (at_bit B q x) = bit_mask q" "m_current (at_bit B q x) = x"
  by (simp_all add: at_bit_def)

lemma at_bit_update [simp]:
  "at_bit B q x\<lparr>m_current := y\<rparr> = at_bit B q y"
  "at_bit B q x\<lparr>m_data := q' div 8, m_bit := bit_mask q', m_current := y\<rparr> = at_bit B q' y"
  by (simp_all add: at_bit_def)

lemma decoder_eq_at_bit:
  "decoder_eq (at_bit B q x) (at_bit B' q' x') \<longleftrightarrow> q = q' \<and> x = x'"
  using position_eq_iff [of q q'] by (auto simp: decoder_eq_def)

lemma compressed_objectD:
  assumes "compressed_object srt data tr cd"
  shows "std_sort srt" and "build_node_tree srt data = Inr tr" and "length tr \<le> 256"
    and "tree_ok tr"
    and "\<forall>c \<in> set data. \<exists>j < length tr. val (tr ! j) = uint c"
    and "compressed_size_info srt data
           = ok (int (length (codes tr data)) div 8 + 1, int (length (codes tr data)) mod 8)"
    and "\<exists>s. bytes_saved srt data = ok s \<and> 0 < s"
    and "holds_table cd (payload_bytes tr data) tr"
    and "\<And>q. q < length (codes tr data) \<Longrightarrow> getbit cd q = codes tr data ! q"
proof -
  from assms show s: "std_sort srt" and b: "build_node_tree srt data = Inr tr"
    and "length tr \<le> 256" and bs: "\<exists>s. bytes_saved srt data = ok s \<and> 0 < s"
    unfolding compressed_object_def by blast+
  from assms have hc: "huffman_compressor srt data = ok cd"
    unfolding compressed_object_def by blast
  show "tree_ok tr" and "\<forall>c \<in> set data. \<exists>j < length tr. val (tr ! j) = uint c"
    and "compressed_size_info srt data
           = ok (int (length (codes tr data)) div 8 + 1, int (length (codes tr data)) mod 8)"
    by (rule build_facts [OF s b])+
  from hc have ne: "data \<noteq> []" by (auto simp: huffman_compressor_def)
  from bs obtain sv where sv: "bytes_saved srt data = ok sv" "0 < sv" by blast
  from huffman_compressor_array [OF s ne sv b] hc
  have a: "length cd = payload_bytes tr data + 3 * length tr
           \<and> (\<forall>q < length (codes tr data). getbit cd q = codes tr data ! q)
           \<and> (\<forall>i < 3 * length tr. cd ! (payload_bytes tr data + i) = decode_table tr ! i)"
    by auto
  then show "holds_table cd (payload_bytes tr data) tr" unfolding holds_table_def by blast
  from a show "\<And>q. q < length (codes tr data) \<Longrightarrow> getbit cd q = codes tr data ! q" by blast
qed

lemma decoder_end_compressed:
  assumes "compressed_object srt data tr cd"
  shows "decoder_end srt data 0 = ok (at_bit 0 (length (codes tr data)) (- 1))"
proof -
  note d = compressed_objectD [OF assms]
  from d(7) obtain s where s: "bytes_saved srt data = ok s" "0 < s" by blast
  define tb where "tb = length (codes tr data)"
  have 1: "nat (int tb div 8) = tb div 8" by (simp add: nat_div_distrib)
  have "int tb mod 8 = int (tb mod 8)" by (simp add: zmod_int)
  then have 2: "nat (7 - int tb mod 8) = 7 - tb mod 8" by simp
  have 3: "\<not> int tb div 8 < 0" by (simp add: div_int_pos_iff)
  show ?thesis
    using s(2) 3 by (simp add: decoder_end_def s(1) d(6) tb_def [symmetric] at_bit_def bit_mask_def 1 2)
qed

lemma nat_first:
  "nat (int (length (codes tr data)) div 8 + 1) = payload_bytes tr data"
  by (simp add: payload_bytes_def nat_add_distrib nat_div_distrib)

lemma get_next_end:
  assumes "compressed_object srt data tr cd"
  shows "get_next srt data cd (at_bit (payload_bytes tr data) (length (codes tr data)) x)
           = ok (at_bit (payload_bytes tr data) (length (codes tr data)) (- 1))"
  by (simp add: get_next_def compressed_objectD(6) [OF assms] nat_first
      decoder_end_compressed [OF assms])

lemma get_next_symbol:
  assumes "compressed_object srt data tr cd" and "data = pre @ c # rest"
  shows "get_next srt data cd (at_bit (payload_bytes tr data) (length (codes tr pre)) x)
           = ok (at_bit (payload_bytes tr data) (length (codes tr (pre @ [c]))) (uint c))"
proof -
  note d = compressed_objectD [OF assms(1)]
  from d(7) obtain s where s: "bytes_saved srt data = ok s" "0 < s" by blast
  define B where "B = payload_bytes tr data"
  define tb where "tb = length (codes tr data)"
  define q where "q = length (codes tr pre)"
  define j where "j = find_if (\<lambda>n. val n = uint c) tr"
  have "\<exists>j < length tr. val (tr ! j) = uint c" using d(5) assms(2) by simp
  note cp = code_path [OF d(4) this, folded j_def]
  have tb: "tb = q + length (code_of tr c) + length (codes tr rest)"
    by (simp add: tb_def q_def assms(2))
  have q': "length (codes tr (pre @ [c])) = q + length (code_of tr c)" by (simp add: q_def)
  have qtb: "q < tb" using cp(4) tb by simp
  have neq: "\<not> (q div 8 = tb div 8 \<and> bit_mask q = bit_mask tb)"
    unfolding position_eq_iff using qtb by simp
  have Bdef: "B = tb div 8 + 1" by (simp add: B_def tb_def payload_bytes_def)
  have lcd: "length cd = B + 3 * length tr" using d(8) by (simp add: holds_table_def B_def)
  have "q div 8 \<le> tb div 8" using qtb by (intro div_le_mono) simp
  then have ql: "\<not> length cd \<le> q div 8" using lcd Bdef by simp
  have bits: "\<forall>m < length (code_of tr c). getbit cd (q + m) = code_of tr c ! m"
  proof (intro allI impI)
    fix m assume m: "m < length (code_of tr c)"
    then have "q + m < length (codes tr data)" using tb by (simp add: tb_def)
    from d(9) [OF this] have "getbit cd (q + m) = codes tr data ! (q + m)" .
    also have "\<dots> = code_of tr c ! m" using m by (simp add: assms(2) q_def nth_append)
    finally show "getbit cd (q + m) = code_of tr c ! m" .
  qed
  have "(q + length (code_of tr c)) div 8 \<le> tb div 8" using tb by (intro div_le_mono) simp
  then have bound: "(q + length (code_of tr c)) div 8 + 1 \<le> B" using Bdef by simp
  have jleaf: "val (tr ! j) < 256" using cp(2) uint_lt2p [of c] by simp
  have w: "table_walk cd B (q div 8) (cd ! (q div 8)) (bit_mask q)
             = ok (B + 3 * j, (q + length (code_of tr c)) div 8, bit_mask (q + length (code_of tr c)))"
    using table_walk_path [OF d(4,3) d(8) [folded B_def] cp(1) jleaf cp(3,4) bits bound] by simp
  have zero3: "(0 :: nat) < 3" by simp
  have "cd ! (B + 3 * j + 0) = decode_entry tr j ! 0"
    by (rule table_entry(1) [OF d(8) [folded B_def] cp(1) zero3])
  also have "\<dots> = word_of_int (uint c)" using jleaf by (simp add: decode_entry_nth cp(2))
  finally have sym: "cd ! (B + 3 * j) = c" by simp
  have e: "decoder_end srt data 0 = ok (at_bit 0 tb (- 1))"
    using decoder_end_compressed [OF assms(1)] by (simp add: tb_def)
  have "get_next srt data cd (at_bit B q x) = ok (at_bit B (q + length (code_of tr c)) (uint c))"
    using neq ql s(2)
    by (auto simp: get_next_def d(6) nat_first B_def [symmetric] e s(1) w sym)
  then show ?thesis unfolding B_def q_def q' [unfolded q_def] .
qed

subsection \<open>Iterating from \<open>begin()\<close> to \<open>end()\<close>\<close>

lemma decode_range_compressed:
  assumes "compressed_object srt data tr cd"
  shows "data = pre @ c # rest \<Longrightarrow>
         decode_range srt data cd
           (at_bit (payload_bytes tr data) (length (codes tr (pre @ [c]))) (uint c))
           (at_bit 0 (length (codes tr data)) (- 1)) acc
         = ok (rev acc @ uint c # map uint rest)"
proof (induction rest arbitrary: pre c acc)
  case Nil
  let ?B = "payload_bytes tr data"
  let ?e = "at_bit 0 (length (codes tr data)) (- 1)"
  have "0 \<le> uint c" by simp
  then have "uint c \<noteq> - 1" by linarith
  then have ne: "\<not> decoder_eq (at_bit ?B (length (codes tr data)) (uint c)) ?e"
    by (simp add: decoder_eq_at_bit)
  have eq: "decoder_eq (at_bit ?B (length (codes tr data)) (- 1)) ?e"
    by (simp add: decoder_eq_at_bit)
  have "decode_range srt data cd (at_bit ?B (length (codes tr data)) (uint c)) ?e acc
          = decode_range srt data cd (at_bit ?B (length (codes tr data)) (- 1)) ?e (uint c # acc)"
    using ne by (subst decode_range.simps) (simp add: get_next_end [OF assms])
  also have "\<dots> = ok (rev (uint c # acc))"
    using eq by (subst decode_range.simps) simp
  finally show ?case using Nil by simp
next
  case (Cons c' rest)
  let ?B = "payload_bytes tr data"
  let ?e = "at_bit 0 (length (codes tr data)) (- 1)"
  let ?it = "at_bit ?B (length (codes tr (pre @ [c]))) (uint c)"
  have "0 \<le> uint c" by simp
  then have "uint c \<noteq> - 1" by linarith
  then have ne: "\<not> decoder_eq ?it ?e" by (simp add: decoder_eq_at_bit)
  have d: "data = (pre @ [c]) @ c' # rest" using Cons.prems by simp
  note g = get_next_symbol [OF assms d, of "uint c"]
  have "decode_range srt data cd ?it ?e acc
          = decode_range srt data cd (at_bit ?B (length (codes tr ((pre @ [c]) @ [c']))) (uint c')) ?e
              (uint c # acc)"
    using ne g by (subst decode_range.simps) simp
  also have "\<dots> = ok (rev (uint c # acc) @ uint c' # map uint rest)"
    by (rule Cons.IH [OF d])
  finally show ?case by simp
qed

lemma decode_all_compressed:
  assumes "compressed_object srt data tr cd"
  shows "decode_all srt data cd = ok (map uint data)"
proof -
  from assms have "huffman_compressor srt data = ok cd" unfolding compressed_object_def by blast
  then have "data \<noteq> []" by (auto simp: huffman_compressor_def)
  then obtain c rest where d: "data = [] @ c # rest" by (cases data) auto
  let ?B = "payload_bytes tr data"
  have st: "\<lparr>m_data = 0, m_table = ?B, m_bit = 0x80, m_current = - 1\<rparr> = at_bit ?B 0 (- 1)"
    by (simp add: at_bit_def)
  have b: "decoder_begin srt data cd = ok (at_bit ?B (length (codes tr ([] @ [c]))) (uint c))"
    using get_next_symbol [OF assms d, of "- 1"]
    by (simp add: decoder_begin_def compressed_objectD(6) [OF assms] nat_first st)
  have md: "map uint data = uint c # map uint rest" using d by simp
  have r: "decode_range srt data cd (at_bit ?B (length (codes tr ([] @ [c]))) (uint c))
             (at_bit 0 (length (codes tr data)) (- 1)) [] = ok (map uint data)"
    unfolding md using decode_range_compressed [OF assms d, of "[]"] by simp
  show ?thesis
    by (simp only: decode_all_def b decoder_end_compressed [OF assms] bind_res_ok r)
qed

section \<open>The decoder of the earlier revision\<close>

subsection \<open>The object in compressed mode\<close>

lemma huffman_compress_array:
  assumes "std_sort srt" and "data \<noteq> []" and "bytes_saved srt data = ok s" and "0 < s"
    and "build_node_tree srt data = Inr tr"
  shows "\<exists>cd. huffman_compress srt data = ok \<lparr>compressed_data = cd, decode_tree = decode_table tr\<rparr>
           \<and> length cd = payload_bytes tr data
           \<and> (\<forall>q < length (codes tr data). getbit cd q = codes tr data ! q)
           \<and> (\<forall>q. length (codes tr data) \<le> q \<and> q < 8 * payload_bytes tr data \<longrightarrow> \<not> getbit cd q)"
proof -
  note sz = build_facts(4) [OF assms(1,5)]
  define B where "B = payload_bytes tr data"
  have B: "nat (int (length (codes tr data)) div 8 + 1) = B"
    unfolding B_def by (rule nat_first)
  define cd0 where "cd0 = replicate B (0 :: byte)"
  have "length (codes tr data) \<le> 8 * (length (codes tr data) div 8 + 1 + 0)" by (rule div8_bound)
  then have "length (codes tr data) \<le> 8 * length cd0"
    by (simp add: cd0_def B_def payload_bytes_def)
  from compress_written [OF assms(1,5) this]
  obtain cd where c: "compress srt data cd0 = ok cd"
    and w: "written cd0 (length (codes tr data)) (codes tr data) cd" by blast
  have hc: "huffman_compress srt data = ok \<lparr>compressed_data = cd, decode_tree = decode_table tr\<rparr>"
    using assms(2,4) by (simp add: huffman_compress_def assms(3,5) sz B cd0_def [symmetric] c)
  have lc: "length cd = B" using w by (simp add: written_def cd0_def)
  have z: "\<not> getbit cd0 q" if "q < 8 * B" for q
  proof -
    from that have "q div 8 < B" by simp
    then show ?thesis by (simp add: getbit_def cd0_def)
  qed
  have pay: "getbit cd q = codes tr data ! q" if "q < length (codes tr data)" for q
  proof -
    have "q div 8 < B" using that unfolding B_def payload_bytes_def by simp
    then have "cd0 ! (q div 8) = 0" by (simp add: cd0_def)
    from written_zero [OF w that this] show ?thesis .
  qed
  have pad: "\<not> getbit cd q" if "length (codes tr data) \<le> q" "q < 8 * B" for q
  proof -
    from w have "getbit cd q = (getbit cd0 q
       \<or> (length (codes tr data) - length (codes tr data) \<le> q \<and> q < length (codes tr data)
           \<and> codes tr data ! (q - (length (codes tr data) - length (codes tr data)))))"
      unfolding written_def by blast
    with that z [OF that(2)] show ?thesis by simp
  qed
  from hc lc pay pad show ?thesis unfolding B_def by blast
qed

definition compressed_object_i ::
  "(node list \<Rightarrow> node list) \<Rightarrow> byte list \<Rightarrow> node list \<Rightarrow> huffman_compress_obj \<Rightarrow> bool" where
  "compressed_object_i srt data tr obj \<longleftrightarrow>
     std_sort srt \<and> build_node_tree srt data = Inr tr \<and> length tr \<le> 256
   \<and> (\<exists>s. bytes_saved srt data = ok s \<and> 0 < s)
   \<and> huffman_compress srt data = ok obj"

lemma compressed_object_iD:
  assumes "compressed_object_i srt data tr obj"
  shows "std_sort srt" and "build_node_tree srt data = Inr tr" and "length tr \<le> 256"
    and "tree_ok tr"
    and "\<forall>c \<in> set data. \<exists>j < length tr. val (tr ! j) = uint c"
    and "compressed_size_info srt data
           = ok (int (length (codes tr data)) div 8 + 1, int (length (codes tr data)) mod 8)"
    and "\<exists>s. bytes_saved srt data = ok s \<and> 0 < s"
    and "decode_tree obj = decode_table tr"
    and "length (compressed_data obj) = payload_bytes tr data"
    and "\<And>q. q < length (codes tr data) \<Longrightarrow> getbit (compressed_data obj) q = codes tr data ! q"
    and "\<And>q. length (codes tr data) \<le> q \<Longrightarrow> q < 8 * payload_bytes tr data
           \<Longrightarrow> \<not> getbit (compressed_data obj) q"
proof -
  from assms show s: "std_sort srt" and b: "build_node_tree srt data = Inr tr"
    and "length tr \<le> 256" and bs: "\<exists>s. bytes_saved srt data = ok s \<and> 0 < s"
    unfolding compressed_object_i_def by blast+
  from assms have hc: "huffman_compress srt data = ok obj"
    unfolding compressed_object_i_def by blast
  show "tree_ok tr" and "\<forall>c \<in> set data. \<exists>j < length tr. val (tr ! j) = uint c"
    and "compressed_size_info srt data
           = ok (int (length (codes tr data)) div 8 + 1, int (length (codes tr data)) mod 8)"
    by (rule build_facts [OF s b])+
  from hc have ne: "data \<noteq> []" by (auto simp: huffman_compress_def)
  from bs obtain sv where sv: "bytes_saved srt data = ok sv" "0 < sv" by blast
  from huffman_compress_array [OF s ne sv b] hc
  obtain cd where o: "obj = \<lparr>compressed_data = cd, decode_tree = decode_table tr\<rparr>"
    and a: "length cd = payload_bytes tr data"
      "\<forall>q < length (codes tr data). getbit cd q = codes tr data ! q"
      "\<forall>q. length (codes tr data) \<le> q \<and> q < 8 * payload_bytes tr data \<longrightarrow> \<not> getbit cd q"
    by auto
  show "decode_tree obj = decode_table tr" by (simp add: o)
  show "length (compressed_data obj) = payload_bytes tr data" using a(1) by (simp add: o)
  show "\<And>q. q < length (codes tr data) \<Longrightarrow> getbit (compressed_data obj) q = codes tr data ! q"
    using a(2) by (simp add: o)
  show "\<And>q. length (codes tr data) \<le> q \<Longrightarrow> q < 8 * payload_bytes tr data
           \<Longrightarrow> \<not> getbit (compressed_data obj) q"
    using a(3) by (simp add: o)
qed

subsection \<open>The table walk\<close>

lemma table_walk_i_step:
  assumes "tree_ok tr" and "length tr \<le> 256" and "decode_tree obj = decode_table tr"
    and "i < length tr" and "256 \<le> val (tr ! i)" and "q div 8 < length (compressed_data obj)"
  shows "table_walk_i obj (3 * i) (int (q div 8)) (bit_mask q)
         = (if 256 \<le> val (tr ! child tr i (getbit (compressed_data obj) q))
            then table_walk_i obj (3 * child tr i (getbit (compressed_data obj) q))
                   (int ((q + 1) div 8)) (bit_mask (q + 1))
            else ok (3 * child tr i (getbit (compressed_data obj) q),
                     int ((q + 1) div 8), bit_mask (q + 1)))"
proof -
  define b where "b = getbit (compressed_data obj) q"
  define c where "c = child tr i b"
  define idx :: nat where "idx = (if b then 2 else 1)"
  have idx3: "idx < 3" by (simp add: idx_def)
  have p0: "\<not> (int (q div 8) < 0 \<or> length (compressed_data obj) \<le> nat (int (q div 8)))"
    using assms(6) by simp
  have t: "(compressed_data obj ! nat (int (q div 8)) AND bit_mask q \<noteq> 0) = b"
    unfolding b_def nat_int by (rule and_bit_mask_getbit)
  have e: "decode_tree obj ! (3 * i + idx) = decode_entry tr i ! idx"
    unfolding assms(3) by (rule decode_table_nth [OF assms(4) idx3])
  have "decode_entry tr i ! idx
          = word_of_nat (child_distance tr i (if b then right (tr ! i) else left (tr ! i)))"
    by (simp add: idx_def decode_entry_nth)
  then have "unat (decode_tree obj ! (3 * i + idx))
               = child_distance tr i (if b then right (tr ! i) else left (tr ! i))"
    unfolding e by (simp add: stored_distance [OF assms(2,4)])
  then have n': "3 * i + unat (decode_tree obj ! (3 * i + idx)) * 3 = 3 * c"
    by (simp add: c_def child_def)
  note cb = child_bounds [OF assms(1,4,5), of b, folded c_def]
  have one3: "(1 :: nat) < 3" by simp
  have e1: "decode_tree obj ! (3 * c + 1) = decode_entry tr c ! 1"
    unfolding assms(3) by (rule decode_table_nth [OF cb(2) one3])
  have leafc: "(decode_tree obj ! (3 * c + 1) \<noteq> 0) = (256 \<le> val (tr ! c))"
    unfolding e1 by (rule entry_internal_iff(1) [OF assms(1,2) cb(2)])
  have l1: "\<not> length (decode_tree obj) \<le> 3 * i + idx"
    using assms(4) idx3 by (simp add: assms(3))
  have l2: "\<not> length (decode_tree obj) \<le> 3 * c + 1"
    using cb(2) by (simp add: assms(3))
  have bt': "(if drop_bit 1 (bit_mask q) = 0 then 0x80 else drop_bit 1 (bit_mask q)) = bit_mask (q + 1)"
    unfolding drop_bit_mask using bit_mask_wrap [of q] bit_mask_nonzero [of "q + 1"] by simp
  have pos': "(if drop_bit 1 (bit_mask q) = 0 then int (q div 8) + 1 else int (q div 8))
                = int ((q + 1) div 8)"
    unfolding drop_bit_mask
    using bit_mask_wrap [of q] bit_mask_same_byte [of q] bit_mask_nonzero [of "q + 1"]
    by simp
  have "table_walk_i obj (3 * i) (int (q div 8)) (bit_mask q)
         = (if 256 \<le> val (tr ! c)
            then table_walk_i obj (3 * c) (int ((q + 1) div 8)) (bit_mask (q + 1))
            else ok (3 * c, int ((q + 1) div 8), bit_mask (q + 1)))"
    apply (subst table_walk_i.simps)
    apply (simp only: p0 if_False t idx_def [symmetric] l1 Let_def n' bt' pos' l2 leafc)
    done
  then show ?thesis unfolding c_def b_def .
qed

lemma table_walk_i_path:
  assumes "tree_ok tr" and "length tr \<le> 256" and "decode_tree obj = decode_table tr"
    and "j < length tr" and "val (tr ! j) < 256"
  shows "path tr i bs j \<Longrightarrow> bs \<noteq> [] \<Longrightarrow>
         (\<forall>m < length bs. getbit (compressed_data obj) (q + m) = bs ! m) \<Longrightarrow>
         (q + length bs) div 8 < length (compressed_data obj) \<Longrightarrow>
         table_walk_i obj (3 * i) (int (q div 8)) (bit_mask q)
           = ok (3 * j, int ((q + length bs) div 8), bit_mask (q + length bs))"
proof (induction bs arbitrary: i q)
  case Nil
  then show ?case by simp
next
  case (Cons b bs)
  from Cons.prems(1) have il: "i < length tr" and iv: "256 \<le> val (tr ! i)"
    and p: "path tr (child tr i b) bs j" by simp_all
  have g: "getbit (compressed_data obj) q = b" using Cons.prems(3) by auto
  have "q div 8 \<le> (q + length (b # bs)) div 8" by (rule div_le_mono) simp
  with Cons.prems(4) have ql: "q div 8 < length (compressed_data obj)" by simp
  note st = table_walk_i_step [OF assms(1,2,3) il iv ql, unfolded g]
  show ?case
  proof (cases "bs = []")
    case True
    with p have "child tr i b = j" by simp
    with st assms(5) True show ?thesis by simp
  next
    case False
    then obtain b' bs' where bs: "bs = b' # bs'" by (cases bs) auto
    with p have cv: "256 \<le> val (tr ! child tr i b)" by simp
    have "table_walk_i obj (3 * child tr i b) (int ((q + 1) div 8)) (bit_mask (q + 1))
            = ok (3 * j, int ((q + 1 + length bs) div 8), bit_mask (q + 1 + length bs))"
    proof (rule Cons.IH [OF p False])
      show "\<forall>m < length bs. getbit (compressed_data obj) (q + 1 + m) = bs ! m"
      proof (intro allI impI)
        fix m assume "m < length bs"
        then have "Suc m < length (b # bs)" by simp
        with Cons.prems(3) have "getbit (compressed_data obj) (q + Suc m) = (b # bs) ! Suc m" by blast
        then show "getbit (compressed_data obj) (q + 1 + m) = bs ! m" by simp
      qed
      show "(q + 1 + length bs) div 8 < length (compressed_data obj)" using Cons.prems(4) by simp
    qed
    with st cv show ?thesis by simp
  qed
qed

subsection \<open>Decoding one symbol\<close>

text \<open>The decoder of the earlier revision whose next bit is bit \<open>q\<close> of the payload.\<close>

definition at_i :: "nat \<Rightarrow> int \<Rightarrow> decode_info" where
  "at_i q x = \<lparr>m_pos = int (q div 8), m_bit_i = bit_mask q, m_current_i = x\<rparr>"

lemma at_i_sel [simp]:
  "m_pos (at_i q x) = int (q div 8)" "m_bit_i (at_i q x) = bit_mask q" "m_current_i (at_i q x) = x"
  by (simp_all add: at_i_def)

lemma decode_info_eq_at_i: "decode_info_eq (at_i q x) (at_i q' x') \<longleftrightarrow> q = q'"
  using position_eq_iff [of q q'] by (auto simp: decode_info_eq_def)

lemma get_next_i_symbol:
  assumes "compressed_object_i srt data tr obj" and "data = pre @ c # rest"
  shows "get_next_i srt data obj (at_i (length (codes tr pre)) x)
           = ok (at_i (length (codes tr (pre @ [c]))) (uint c))"
proof -
  note d = compressed_object_iD [OF assms(1)]
  from d(7) obtain s where s: "bytes_saved srt data = ok s" "0 < s" by blast
  define tb where "tb = length (codes tr data)"
  define q where "q = length (codes tr pre)"
  define j where "j = find_if (\<lambda>n. val n = uint c) tr"
  have "\<exists>j < length tr. val (tr ! j) = uint c" using d(5) assms(2) by simp
  note cp = code_path [OF d(4) this, folded j_def]
  have tb: "tb = q + length (code_of tr c) + length (codes tr rest)"
    by (simp add: tb_def q_def assms(2))
  have q': "length (codes tr (pre @ [c])) = q + length (code_of tr c)" by (simp add: q_def)
  have bits: "\<forall>m < length (code_of tr c). getbit (compressed_data obj) (q + m) = code_of tr c ! m"
  proof (intro allI impI)
    fix m assume m: "m < length (code_of tr c)"
    then have "q + m < length (codes tr data)" using tb by (simp add: tb_def)
    from d(10) [OF this] have "getbit (compressed_data obj) (q + m) = codes tr data ! (q + m)" .
    also have "\<dots> = code_of tr c ! m" using m by (simp add: assms(2) q_def nth_append)
    finally show "getbit (compressed_data obj) (q + m) = code_of tr c ! m" .
  qed
  have "(q + length (code_of tr c)) div 8 \<le> tb div 8" using tb by (intro div_le_mono) simp
  then have bound: "(q + length (code_of tr c)) div 8 < length (compressed_data obj)"
    by (simp add: d(9) payload_bytes_def tb_def)
  have jleaf: "val (tr ! j) < 256" using cp(2) uint_lt2p [of c] by simp
  have "table_walk_i obj (3 * 0) (int (q div 8)) (bit_mask q)
             = ok (3 * j, int ((q + length (code_of tr c)) div 8), bit_mask (q + length (code_of tr c)))"
    by (rule table_walk_i_path [OF d(4,3,8) cp(1) jleaf cp(3,4) bits bound])
  then have w: "table_walk_i obj 0 (int (q div 8)) (bit_mask q)
             = ok (3 * j, int ((q + length (code_of tr c)) div 8), bit_mask (q + length (code_of tr c)))"
    by simp
  have zero3: "(0 :: nat) < 3" by simp
  have "decode_tree obj ! (3 * j + 0) = decode_entry tr j ! 0"
    unfolding d(8) by (rule decode_table_nth [OF cp(1) zero3])
  also have "\<dots> = word_of_int (uint c)" using jleaf by (simp add: decode_entry_nth cp(2))
  finally have sym: "decode_tree obj ! (3 * j) = c" by simp
  have "get_next_i srt data obj (at_i q x) = ok (at_i (q + length (code_of tr c)) (uint c))"
    using s(2) by (simp add: get_next_i_def s(1) w sym at_i_def)
  then show ?thesis unfolding q_def q' [unfolded q_def] .
qed

text \<open>
  The earlier revision has no test for the end: a step of its decoder either fails or
  returns a symbol, never the value \<open>-1\<close>.
\<close>

lemma get_next_i_no_sentinel:
  assumes "get_next_i srt data obj d = ok d'"
  shows "0 \<le> m_current_i d'"
proof -
  from assms obtain saved where s: "bytes_saved srt data = ok saved"
    unfolding get_next_i_def bind_res_eq_ok by blast
  show ?thesis
  proof (cases "0 < saved")
    case True
    with assms s obtain node pos bt
      where "d' = \<lparr>m_pos = pos, m_bit_i = bt, m_current_i = uint (decode_tree obj ! node)\<rparr>"
      unfolding get_next_i_def by (auto simp: bind_res_eq_ok)
    then show ?thesis by simp
  next
    case False
    with assms s
    have "d' = d\<lparr>m_current_i := uint (data ! nat (m_pos d)), m_pos := m_pos d + 1\<rparr>"
      unfolding get_next_i_def by (auto split: if_splits)
    then show ?thesis by simp
  qed
qed

subsection \<open>Iterating from \<open>begin()\<close> to \<open>end()\<close>\<close>

lemma begin_i_compressed:
  assumes "compressed_object_i srt data tr obj" and "data = c # rest"
  shows "begin_i srt data obj = ok (at_i (length (code_of tr c)) (uint c))"
proof -
  have d: "data = [] @ c # rest" using assms(2) by simp
  have st: "\<lparr>m_pos = 0, m_bit_i = 0x80, m_current_i = - 1\<rparr> = at_i 0 (- 1)"
    by (simp add: at_i_def)
  show ?thesis
    using get_next_i_symbol [OF assms(1) d, of "- 1"] by (simp add: begin_i_def st)
qed

lemma end_i_compressed:
  assumes "compressed_object_i srt data tr obj" and "data = c # rest"
  shows "end_i srt data obj = ok (at_i (length (codes tr data)) (uint c))"
proof -
  note d = compressed_object_iD [OF assms(1)]
  from d(7) obtain s where s: "bytes_saved srt data = ok s" "0 < s" by blast
  define tb where "tb = length (codes tr data)"
  have 1: "int tb div 8 = int (tb div 8)" by (simp add: zdiv_int)
  have "int tb mod 8 = int (tb mod 8)" by (simp add: zmod_int)
  then have 2: "nat (7 - int tb mod 8) = 7 - tb mod 8" by simp
  show ?thesis
    using s(2)
    by (simp add: end_i_def begin_i_compressed [OF assms] s(1) d(6) tb_def [symmetric] 1 2)
       (simp add: at_i_def bit_mask_def)
qed

lemma decode_range_i_compressed:
  assumes "compressed_object_i srt data tr obj"
  shows "data = pre @ c # rest \<Longrightarrow>
         decode_range_i srt data obj (at_i (length (codes tr (pre @ [c]))) (uint c))
           (at_i (length (codes tr data)) y) acc
         = ok (rev acc @ map uint (butlast (c # rest)))"
proof (induction rest arbitrary: pre c acc)
  case Nil
  then have "decode_info_eq (at_i (length (codes tr (pre @ [c]))) (uint c))
               (at_i (length (codes tr data)) y)"
    by (simp add: decode_info_eq_at_i)
  then show ?case by (subst decode_range_i.simps) simp
next
  case (Cons c' rest)
  let ?e = "at_i (length (codes tr data)) y"
  let ?it = "at_i (length (codes tr (pre @ [c]))) (uint c)"
  have d: "data = (pre @ [c]) @ c' # rest" using Cons.prems by simp
  have "\<exists>j < length tr. val (tr ! j) = uint c'"
    using compressed_object_iD(5) [OF assms] d by simp
  from code_path(4) [OF compressed_object_iD(4) [OF assms] this]
  have "length (codes tr (pre @ [c])) < length (codes tr data)" unfolding d by simp
  then have ne: "\<not> decode_info_eq ?it ?e" by (simp add: decode_info_eq_at_i)
  note g = get_next_i_symbol [OF assms d, of "uint c"]
  have "decode_range_i srt data obj ?it ?e acc
          = decode_range_i srt data obj (at_i (length (codes tr ((pre @ [c]) @ [c']))) (uint c')) ?e
              (uint c # acc)"
    using ne g by (subst decode_range_i.simps) simp
  also have "\<dots> = ok (rev (uint c # acc) @ map uint (butlast (c' # rest)))"
    by (rule Cons.IH [OF d])
  finally show ?case by simp
qed

text \<open>
  In compressed mode the iteration of the earlier revision stops when the position reaches
  the end, before the symbol decoded last has been taken: it yields the input without its
  last byte.
\<close>

lemma decode_all_i_compressed:
  assumes "compressed_object_i srt data tr obj"
  shows "decode_all_i srt data obj = ok (map uint (butlast data))"
proof -
  from assms have "huffman_compress srt data = ok obj" unfolding compressed_object_i_def by blast
  then have "data \<noteq> []" by (auto simp: huffman_compress_def)
  then obtain c rest where d: "data = c # rest" by (cases data) auto
  then have d': "data = [] @ c # rest" by simp
  have r: "decode_range_i srt data obj (at_i (length (codes tr ([] @ [c]))) (uint c))
             (at_i (length (codes tr data)) (uint c)) [] = ok (map uint (butlast data))"
    using decode_range_i_compressed [OF assms d', of "uint c" "[]"] unfolding d by simp
  have b: "begin_i srt data obj = ok (at_i (length (codes tr ([] @ [c]))) (uint c))"
    using begin_i_compressed [OF assms d] by simp
  show ?thesis
    by (simp only: decode_all_i_def b end_i_compressed [OF assms d] bind_res_ok r)
qed

section \<open>Objects in compressed mode\<close>

text \<open>
  Compressed mode is chosen when the payload and the table together are shorter than the
  input.
\<close>

lemma compressed_mode_saved:
  assumes "std_sort srt" and "length data < 2 ^ 50" and "build_node_tree srt data = Inr tr"
    and "payload_bytes tr data + 3 * length tr < length data"
  shows "bytes_saved srt data
           = ok (int (length data) - int (payload_bytes tr data + 3 * length tr))"
    and "0 < int (length data) - int (payload_bytes tr data + 3 * length tr)"
proof -
  note sz = build_facts(4) [OF assms(1,3)] and len = build_facts(2) [OF assms(1,3)]
  have f: "int (length (codes tr data)) div 8 + 1 = int (payload_bytes tr data)"
    by (simp add: payload_bytes_def zdiv_int)
  show p: "0 < int (length data) - int (payload_bytes tr data + 3 * length tr)"
    using assms(4) by simp
  from bytes_saved_eq [OF assms(1,2) sz] p
  show "bytes_saved srt data
           = ok (int (length data) - int (payload_bytes tr data + 3 * length tr))"
    by (simp add: f len max_def)
qed

lemma compressed_objectI:
  assumes "std_sort srt" and "length data < 2 ^ 50" and "build_node_tree srt data = Inr tr"
    and "payload_bytes tr data + 3 * length tr < length data" and "length tr \<le> 256"
  shows "\<exists>cd. huffman_compressor srt data = ok cd \<and> compressed_object srt data tr cd"
proof -
  note s = compressed_mode_saved [OF assms(1-4)]
  have ne: "data \<noteq> []" using assms(4) by auto
  from huffman_compressor_array [OF assms(1) ne s assms(3)]
  obtain cd where "huffman_compressor srt data = ok cd" by blast
  then show ?thesis
    using assms(1,3,5) s unfolding compressed_object_def by blast
qed

lemma compressed_object_iI:
  assumes "std_sort srt" and "length data < 2 ^ 50" and "build_node_tree srt data = Inr tr"
    and "payload_bytes tr data + 3 * length tr < length data" and "length tr \<le> 256"
  shows "\<exists>obj. huffman_compress srt data = ok obj \<and> compressed_object_i srt data tr obj"
proof -
  note s = compressed_mode_saved [OF assms(1-4)]
  have ne: "data \<noteq> []" using assms(4) by auto
  from huffman_compress_array [OF assms(1) ne s assms(3)]
  obtain obj where "huffman_compress srt data = ok obj" by blast
  then show ?thesis
    using assms(1,3,5) s unfolding compressed_object_i_def by blast
qed

subsection \<open>Advancing a decoder\<close>

text \<open>The decoder made by \<open>begin()\<close> after \<open>k\<close> applications of \<open>++\<close>, in both revisions.\<close>

fun advance :: "(node list \<Rightarrow> node list) \<Rightarrow> byte list \<Rightarrow> byte list \<Rightarrow> nat \<Rightarrow> decoder res" where
  "advance srt raw_data cd 0 = decoder_begin srt raw_data cd"
| "advance srt raw_data cd (Suc k) = bind_res (advance srt raw_data cd k) (get_next srt raw_data cd)"

fun advance_i ::
  "(node list \<Rightarrow> node list) \<Rightarrow> byte list \<Rightarrow> huffman_compress_obj \<Rightarrow> nat \<Rightarrow> decode_info res" where
  "advance_i srt data obj 0 = begin_i srt data obj"
| "advance_i srt data obj (Suc k) = bind_res (advance_i srt data obj k) (get_next_i srt data obj)"

lemma take_Suc_codes:
  assumes "k < length data"
  shows "data = take k data @ data ! k # drop (Suc k) data"
    and "take (Suc k) data = take k data @ [data ! k]"
  using assms by (simp_all add: id_take_nth_drop take_Suc_conv_app_nth)

lemma advance_compressed:
  assumes "compressed_object srt data tr cd"
  shows "k < length data \<Longrightarrow>
         advance srt data cd k
           = ok (at_bit (payload_bytes tr data) (length (codes tr (take (Suc k) data))) (uint (data ! k)))"
proof (induction k)
  case 0
  note t = take_Suc_codes [OF 0]
  have st: "\<lparr>m_data = 0, m_table = payload_bytes tr data, m_bit = 0x80, m_current = - 1\<rparr>
              = at_bit (payload_bytes tr data) (length (codes tr (take 0 data))) (- 1)"
    by (simp add: at_bit_def)
  show ?case
    unfolding advance.simps decoder_begin_def compressed_objectD(6) [OF assms] bind_res_ok
      prod.case nat_first st t(2)
    by (rule get_next_symbol [OF assms t(1)])
next
  case (Suc k)
  then have k: "k < length data" by simp
  note t = take_Suc_codes [OF Suc.prems]
  show ?case
    unfolding advance.simps Suc.IH [OF k] bind_res_ok t(2)
    by (rule get_next_symbol [OF assms t(1)])
qed

lemma advance_i_compressed:
  assumes "compressed_object_i srt data tr obj"
  shows "k < length data \<Longrightarrow>
         advance_i srt data obj k
           = ok (at_i (length (codes tr (take (Suc k) data))) (uint (data ! k)))"
proof (induction k)
  case 0
  note t = take_Suc_codes [OF 0]
  have st: "\<lparr>m_pos = 0, m_bit_i = 0x80, m_current_i = - 1\<rparr>
              = at_i (length (codes tr (take 0 data))) (- 1)"
    by (simp add: at_i_def)
  show ?case
    unfolding advance_i.simps begin_i_def st t(2)
    by (rule get_next_i_symbol [OF assms t(1)])
next
  case (Suc k)
  then have k: "k < length data" by simp
  note t = take_Suc_codes [OF Suc.prems]
  show ?case
    unfolding advance_i.simps Suc.IH [OF k] bind_res_ok t(2)
    by (rule get_next_i_symbol [OF assms t(1)])
qed

text \<open>
  A step of the earlier decoder at a position behind the last code, where the payload
  holds padding bits: it walks from the root as on any other bit.
\<close>

lemma get_next_i_padding:
  assumes "compressed_object_i srt data tr obj"
    and "length (codes tr data) \<le> q" and "q < 8 * payload_bytes tr data"
    and "val (tr ! child tr 0 False) < 256"
  shows "get_next_i srt data obj (at_i q x) = ok (at_i (q + 1) (val (tr ! child tr 0 False)))"
proof -
  note d = compressed_object_iD [OF assms(1)]
  from d(7) obtain s where s: "bytes_saved srt data = ok s" "0 < s" by blast
  define c where "c = child tr 0 False"
  have r: "0 < length tr" "256 \<le> val (tr ! 0)"
    using tree_okD(1,6) [OF d(4)] by auto
  have ql: "q div 8 < length (compressed_data obj)" using assms(3) by (simp add: d(9))
  have g: "getbit (compressed_data obj) q = False" using d(11) [OF assms(2,3)] by simp
  have "table_walk_i obj (3 * 0) (int (q div 8)) (bit_mask q)
          = ok (3 * c, int ((q + 1) div 8), bit_mask (q + 1))"
    using table_walk_i_step [OF d(4,3,8) r ql] assms(4) unfolding g c_def by simp
  then have w: "table_walk_i obj 0 (int (q div 8)) (bit_mask q)
          = ok (3 * c, int ((q + 1) div 8), bit_mask (q + 1))" by simp
  have cl: "c < length tr" unfolding c_def by (rule child_bounds(2) [OF d(4) r])
  have zero3: "(0 :: nat) < 3" by simp
  have "decode_tree obj ! (3 * c + 0) = decode_entry tr c ! 0"
    unfolding d(8) by (rule decode_table_nth [OF cl zero3])
  also have "\<dots> = word_of_int (val (tr ! c))"
    using assms(4) by (simp add: decode_entry_nth c_def)
  finally have "uint (decode_tree obj ! (3 * c)) = uint (word_of_int (val (tr ! c)) :: byte)" by simp
  also have "\<dots> = val (tr ! c)"
    using assms(4) tree_okD(2) [OF d(4) cl] by (simp add: c_def uint_word_of_int)
  finally have sym: "uint (decode_tree obj ! (3 * c)) = val (tr ! c)" .
  show ?thesis
    using s(2) by (simp add: get_next_i_def s(1) w sym at_i_def c_def [symmetric])
qed

section \<open>Twelve equal bytes\<close>

text \<open>
  Twelve bytes \<open>a\<close> are the shortest input that is stored in compressed mode: the tree has
  three nodes, the byte \<open>a\<close> has the one-bit code \<open>0\<close>, the payload takes 2 bytes and the
  table 9.
\<close>

definition tree_12a :: "node list" where
  "tree_12a = [\<lparr>val = 256, freq = 12, parent = - 1, left = 0x61, right = 0\<rparr>,
               \<lparr>val = 0, freq = 0, parent = 0, left = - 1, right = - 1\<rparr>,
               \<lparr>val = 0x61, freq = 12, parent = 0, left = - 1, right = - 1\<rparr>]"

lemma build_12a: "build_node_tree (sort_key freq) (replicate 12 0x61) = Inr tree_12a"
  by code_simp

lemma codes_12a:
  "codes tree_12a (replicate 12 0x61) = replicate 12 False"
  "codes tree_12a (take 12 (replicate 12 0x61)) = replicate 12 False"
  "child tree_12a 0 False = 2"
  by code_simp+

lemma mode_12a:
  "length (replicate 12 (0x61 :: byte)) < 2 ^ 50"
  "payload_bytes tree_12a (replicate 12 0x61) + 3 * length tree_12a < length (replicate 12 (0x61 :: byte))"
  "length tree_12a \<le> 256"
  by (simp_all add: payload_bytes_def codes_12a) (simp_all add: tree_12a_def)

lemma object_12a:
  "\<exists>cd. huffman_compressor (sort_key freq) (replicate 12 0x61) = ok cd
      \<and> compressed_object (sort_key freq) (replicate 12 0x61) tree_12a cd"
  by (rule compressed_objectI [OF std_sort_sort_key mode_12a(1) build_12a mode_12a(2,3)])

lemma object_i_12a:
  "\<exists>obj. huffman_compress (sort_key freq) (replicate 12 0x61) = ok obj
      \<and> compressed_object_i (sort_key freq) (replicate 12 0x61) tree_12a obj"
  by (rule compressed_object_iI [OF std_sort_sort_key mode_12a(1) build_12a mode_12a(2,3)])

subsection \<open>C1: the round trip\<close>

text \<open>
  C1: iterating the decoder of the object from \<open>begin()\<close> to \<open>end()\<close> yields the input.

  The decoder of the newest revision does, as long as the tree has at most 256 nodes
  (\<open>decode_all_compressed\<close>, \<open>decode_all_fallback\<close>).  The decoder \<open>decode_info\<close> of the
  earlier revision compares positions only, and its position is already at the end when
  the last symbol has been decoded: in compressed mode the iteration ends before the
  last symbol is taken (\<open>decode_all_i_compressed\<close>).  For twelve bytes \<open>a\<close> it yields
  eleven, where the newest revision yields twelve.
\<close>

theorem decode_info_drops_last_symbol:
  "bind_res (huffman_compress (sort_key freq) (replicate 12 0x61))
     (decode_all_i (sort_key freq) (replicate 12 0x61)) = ok (replicate 11 0x61)
   \<and> bind_res (huffman_compressor (sort_key freq) (replicate 12 0x61))
     (decode_all (sort_key freq) (replicate 12 0x61)) = ok (replicate 12 0x61)"
proof -
  from object_i_12a obtain obj
    where o: "huffman_compress (sort_key freq) (replicate 12 0x61) = ok obj"
      and c: "compressed_object_i (sort_key freq) (replicate 12 0x61) tree_12a obj" by blast
  from object_12a obtain cd
    where o': "huffman_compressor (sort_key freq) (replicate 12 0x61) = ok cd"
      and c': "compressed_object (sort_key freq) (replicate 12 0x61) tree_12a cd" by blast
  have 1: "map uint (butlast (replicate 12 (0x61 :: byte))) = replicate 11 0x61" by code_simp
  have 2: "map uint (replicate 12 (0x61 :: byte)) = replicate 12 0x61" by code_simp
  show ?thesis
    unfolding o o' bind_res_ok decode_all_i_compressed [OF c] decode_all_compressed [OF c'] 1 2
    by simp
qed

subsection \<open>C7: a decoder that has produced all symbols\<close>

text \<open>
  C7: after \<open>length(S)\<close> symbols every further advance is a no-op that yields the end
  sentinel.

  The newest revision tests for the end at the start of \<open>get_next\<close> and then sets the
  current symbol to \<open>-1\<close>.  The earlier revision has no such test
  (\<open>get_next_i_no_sentinel\<close>): for twelve bytes \<open>a\<close> the decoder that has produced the
  twelfth symbol stands at the position of \<open>end()\<close>, and the next advance decodes a
  padding bit of the payload as a thirteenth \<open>a\<close> and moves on.
\<close>

theorem decode_info_advance_past_end:
  "bind_res (huffman_compress (sort_key freq) (replicate 12 0x61))
     (\<lambda>obj. advance_i (sort_key freq) (replicate 12 0x61) obj 11)
     = ok \<lparr>m_pos = 1, m_bit_i = 0x08, m_current_i = 0x61\<rparr>
   \<and> bind_res (huffman_compress (sort_key freq) (replicate 12 0x61))
     (\<lambda>obj. end_i (sort_key freq) (replicate 12 0x61) obj)
     = ok \<lparr>m_pos = 1, m_bit_i = 0x08, m_current_i = 0x61\<rparr>
   \<and> bind_res (huffman_compress (sort_key freq) (replicate 12 0x61))
     (\<lambda>obj. advance_i (sort_key freq) (replicate 12 0x61) obj 12)
     = ok \<lparr>m_pos = 1, m_bit_i = 0x04, m_current_i = 0x61\<rparr>
   \<and> bind_res (huffman_compressor (sort_key freq) (replicate 12 0x61))
     (\<lambda>cd. advance (sort_key freq) (replicate 12 0x61) cd 12)
     = ok \<lparr>m_data = 1, m_table = 2, m_bit = 0x08, m_current = - 1\<rparr>"
proof -
  let ?s = "sort_key freq" and ?d = "replicate 12 (0x61 :: byte)"
  from object_i_12a obtain obj
    where o: "huffman_compress ?s ?d = ok obj"
      and c: "compressed_object_i ?s ?d tree_12a obj" by blast
  from object_12a obtain cd
    where o': "huffman_compressor ?s ?d = ok cd"
      and c': "compressed_object ?s ?d tree_12a cd" by blast
  have d: "?d = 0x61 # replicate 11 0x61" by (simp add: numeral_eq_Suc)
  have k: "11 < length ?d" by simp
  have n: "?d ! 11 = 0x61" by simp
  have t: "take (Suc 11) ?d = take 12 ?d" by simp
  have u: "uint (0x61 :: byte) = 0x61" by simp
  have a11: "advance_i ?s ?d obj 11 = ok (at_i 12 0x61)"
    unfolding advance_i_compressed [OF c k] n t codes_12a u by simp
  have e: "end_i ?s ?d obj = ok (at_i 12 0x61)"
    unfolding end_i_compressed [OF c d] codes_12a u by simp
  have pad: "get_next_i ?s ?d obj (at_i 12 0x61) = ok (at_i (12 + 1) (val (tree_12a ! child tree_12a 0 False)))"
    by (rule get_next_i_padding [OF c])
      (simp_all add: codes_12a(1) payload_bytes_def, simp add: codes_12a(3), simp add: tree_12a_def)
  have v: "val (tree_12a ! child tree_12a 0 False) = 0x61"
    unfolding codes_12a(3) by (simp add: tree_12a_def)
  have "advance_i ?s ?d obj 12 = bind_res (advance_i ?s ?d obj 11) (get_next_i ?s ?d obj)"
    by (simp add: numeral_eq_Suc)
  then have a12: "advance_i ?s ?d obj 12 = ok (at_i 13 0x61)"
    unfolding a11 bind_res_ok pad v by simp
  have pb: "payload_bytes tree_12a ?d = 2" by (simp add: payload_bytes_def codes_12a(1))
  have tb: "length (codes tree_12a ?d) = 12" "length (codes tree_12a (take 12 ?d)) = 12"
    by (simp_all add: codes_12a(1,2))
  have b11: "advance ?s ?d cd 11 = ok (at_bit 2 12 0x61)"
    unfolding advance_compressed [OF c' k] n t pb tb u ..
  have en: "get_next ?s ?d cd (at_bit 2 12 0x61) = ok (at_bit 2 12 (- 1))"
    using get_next_end [OF c', of "0x61"] unfolding pb tb .
  have "advance ?s ?d cd 12 = bind_res (advance ?s ?d cd 11) (get_next ?s ?d cd)"
    by (simp add: numeral_eq_Suc)
  then have b12: "advance ?s ?d cd 12 = ok (at_bit 2 12 (- 1))"
    unfolding b11 bind_res_ok en .
  show ?thesis
    unfolding o o' bind_res_ok a11 a12 e b12
    by (simp add: at_i_def at_bit_def bit_mask_def)
qed

section \<open>An input whose table does not fit one-byte distances\<close>

text \<open>
  The byte \<open>0\<close> 10000 times, followed by the bytes \<open>2\<close>, \<open>1\<close>, \<open>3\<close>, \<open>4\<close>, \<dots>, \<open>172\<close>
  once each: 173 distinct symbols, a tree of 345 nodes.
\<close>

definition overflow_input :: "byte list" where
  "overflow_input = replicate 10000 0 @ 2 # 1 # map of_nat [3..<173]"

text \<open>The 256 counters after the counting loop, and the sorted list of the symbols that occur.\<close>

definition overflow_counts :: "node list" where
  "overflow_counts =
     map (\<lambda>i. \<lparr>val = int i, freq = (if i = 0 then 10000 else if i < 173 then 1 else 0),
               parent = - 1, left = - 1, right = - 1\<rparr>) [0..<256]"

definition overflow_list :: "node list" where
  "overflow_list =
     map (\<lambda>i. \<lparr>val = int i, freq = 1, parent = - 1, left = - 1, right = - 1\<rparr>) [1..<173]
     @ [\<lparr>val = 0, freq = 10000, parent = - 1, left = - 1, right = - 1\<rparr>]"

lemma count_list_replicate: "count_list (replicate n x) y = (if x = y then n else 0)"
  by (induction n) auto

lemma count_list_upt: "count_list [a..<b] i = (if a \<le> i \<and> i < b then 1 else 0)"
  by (induction b) auto

lemma byte_of_nat_eq_iff:
  assumes "i < 256" and "j < 256"
  shows "(word_of_nat i :: byte) = word_of_nat j \<longleftrightarrow> i = j"
  using assms by (simp add: word_of_nat_eq_iff take_bit_nat_eq_self)

lemma count_list_bytes_upt:
  assumes "i < 256" and "b \<le> 256"
  shows "count_list (map word_of_nat [a..<b]) (word_of_nat i :: byte) = (if a \<le> i \<and> i < b then 1 else 0)"
proof (cases "a \<le> i \<and> i < b")
  case True
  have "inj_on (word_of_nat :: nat \<Rightarrow> byte) (set [a..<b])"
    using assms(2) by (intro inj_onI) (simp add: byte_of_nat_eq_iff)
  moreover have "i \<in> set [a..<b]" using True by simp
  ultimately have "count_list (map word_of_nat [a..<b]) (word_of_nat i :: byte) = count_list [a..<b] i"
    by (rule count_list_inj_map)
  then show ?thesis using True by (simp add: count_list_upt)
next
  case False
  have "(word_of_nat i :: byte) \<notin> set (map word_of_nat [a..<b])"
  proof
    assume "(word_of_nat i :: byte) \<in> set (map word_of_nat [a..<b])"
    then obtain j where j: "a \<le> j" "j < b" "(word_of_nat i :: byte) = word_of_nat j" by auto
    with assms have "i = j" by (simp add: byte_of_nat_eq_iff)
    with j False show False by simp
  qed
  then show ?thesis using False by simp
qed

lemma count_overflow_input:
  assumes "i < 256"
  shows "count_list overflow_input (word_of_nat i) = (if i = 0 then 10000 else if i < 173 then 1 else 0)"
proof -
  have z: "((0 :: byte) = word_of_nat i) = (i = 0)" "((1 :: byte) = word_of_nat i) = (i = 1)"
    "((2 :: byte) = word_of_nat i) = (i = 2)"
    using byte_of_nat_eq_iff [of 0 i] byte_of_nat_eq_iff [of 1 i] byte_of_nat_eq_iff [of 2 i] assms
    by auto
  show ?thesis
    unfolding overflow_input_def count_list_append count_list_replicate count_list.simps z
    using count_list_bytes_upt [OF assms, of 173 3] by auto
qed

lemma count_values_overflow: "count_values overflow_input = overflow_counts"
  unfolding count_values_eq overflow_counts_def
  by (rule map_cong [OF refl]) (simp add: symbol_node_def count_overflow_input)

lemma sort_overflow:
  "(let list = sort_key freq overflow_counts;
        first_valid_node = find_if (\<lambda>n. freq n \<noteq> 0) list;
        dist = length list - first_valid_node;
        fit_size = (if dist < 2 then 2 else dist)
    in drop first_valid_node list @ replicate (fit_size - dist) node_default) = overflow_list"
  by code_simp

lemma build_node_list_overflow: "build_node_list (sort_key freq) overflow_input = overflow_list"
  unfolding build_node_list_def count_values_overflow by (rule sort_overflow)

subsection \<open>The table of an object, as the decoder reads it\<close>

text \<open>
  \<open>true_offsets\<close>: the index distances from node \<open>i\<close> of the tree to its left and right
  child, as \<open>build_decode_tree\<close> computes them (\<open>j - i\<close>, or 0).  \<open>object_offsets\<close>: the bytes
  \<open>node[1]\<close> and \<open>node[2]\<close> of entry \<open>i\<close> of the table of the constructed object, which
  starts \<open>compressed_size_info().first\<close> bytes into \<open>compressed_data\<close> in the newest revision
  and is the array \<open>decode_tree\<close> in the earlier one (\<open>object_offsets_i\<close>).
\<close>

definition compressed_mode :: "(node list \<Rightarrow> node list) \<Rightarrow> byte list \<Rightarrow> bool" where
  "compressed_mode srt data = (case bytes_saved srt data of Some (Inr s) \<Rightarrow> 0 < s | _ \<Rightarrow> False)"

definition tree_node :: "(node list \<Rightarrow> node list) \<Rightarrow> byte list \<Rightarrow> nat \<Rightarrow> node option" where
  "tree_node srt data i = (case build_node_tree srt data of Inl e \<Rightarrow> None | Inr tr \<Rightarrow> Some (tr ! i))"

definition true_offsets :: "(node list \<Rightarrow> node list) \<Rightarrow> byte list \<Rightarrow> nat \<Rightarrow> (nat \<times> nat) option" where
  "true_offsets srt data i =
     (case build_node_tree srt data of
        Inl e \<Rightarrow> None
      | Inr tr \<Rightarrow> Some (child_distance tr i (left (tr ! i)), child_distance tr i (right (tr ! i))))"

definition object_offsets :: "(node list \<Rightarrow> node list) \<Rightarrow> byte list \<Rightarrow> nat \<Rightarrow> (nat \<times> nat) option" where
  "object_offsets srt data i =
     (case huffman_compressor srt data of
        Some (Inr cd) \<Rightarrow>
          (case compressed_size_info srt data of
             Some (Inr (first, bits)) \<Rightarrow>
               Some (unat (cd ! (nat first + 3 * i + 1)), unat (cd ! (nat first + 3 * i + 2)))
           | _ \<Rightarrow> None)
      | _ \<Rightarrow> None)"

definition object_offsets_i :: "(node list \<Rightarrow> node list) \<Rightarrow> byte list \<Rightarrow> nat \<Rightarrow> (nat \<times> nat) option" where
  "object_offsets_i srt data i =
     (case huffman_compress srt data of
        Some (Inr obj) \<Rightarrow> Some (unat (decode_tree obj ! (3 * i + 1)), unat (decode_tree obj ! (3 * i + 2)))
      | _ \<Rightarrow> None)"

lemma compressed_mode_iff: "compressed_mode srt data \<longleftrightarrow> (\<exists>s. bytes_saved srt data = ok s \<and> 0 < s)"
  by (auto simp: compressed_mode_def split: option.splits sum.splits)


lemma object_offsets_eq:
  assumes "std_sort srt" and "compressed_mode srt data" and "build_node_tree srt data = Inr tr"
    and "i < length tr"
  shows "object_offsets srt data i = Some (unat (decode_entry tr i ! 1), unat (decode_entry tr i ! 2))"
    and "object_offsets_i srt data i = Some (unat (decode_entry tr i ! 1), unat (decode_entry tr i ! 2))"
proof -
  from assms(2) obtain s where s: "bytes_saved srt data = ok s" "0 < s"
    unfolding compressed_mode_iff by blast
  have ne: "data \<noteq> []"
  proof
    assume "data = []"
    then have "bytes_saved srt data = ok (max 0 (int (length data) - (int (length (codes tr data)) div 8 + 1
                + 3 * int (tree_count srt data))))"
      by (intro bytes_saved_eq [OF assms(1) _ build_facts(4) [OF assms(1,3)]]) simp
    with s \<open>data = []\<close> show False by (simp add: max_def split: if_splits)
  qed
  note sz = build_facts(4) [OF assms(1,3)]
  have one3: "(1 :: nat) < 3" and two3: "(2 :: nat) < 3" by simp_all
  have i1: "3 * i + 1 < 3 * length tr" and i2: "3 * i + 2 < 3 * length tr" using assms(4) by simp_all
  from huffman_compressor_array [OF assms(1) ne s assms(3)]
  obtain cd where c: "huffman_compressor srt data = ok cd"
    and t: "\<forall>k < 3 * length tr. cd ! (payload_bytes tr data + k) = decode_table tr ! k" by blast
  from t i1 have "cd ! (payload_bytes tr data + (3 * i + 1)) = decode_table tr ! (3 * i + 1)"
    by blast
  then have "cd ! (payload_bytes tr data + 3 * i + 1) = decode_entry tr i ! 1"
    unfolding decode_table_nth [OF assms(4) one3] by (simp only: add.assoc)
  moreover from t i2 have "cd ! (payload_bytes tr data + (3 * i + 2)) = decode_table tr ! (3 * i + 2)"
    by blast
  then have "cd ! (payload_bytes tr data + 3 * i + 2) = decode_entry tr i ! 2"
    unfolding decode_table_nth [OF assms(4) two3] by (simp only: add.assoc)
  ultimately show "object_offsets srt data i
                     = Some (unat (decode_entry tr i ! 1), unat (decode_entry tr i ! 2))"
    by (simp add: object_offsets_def c sz nat_first)
  from huffman_compress_array [OF assms(1) ne s assms(3)]
  obtain cd' where "huffman_compress srt data = ok \<lparr>compressed_data = cd', decode_tree = decode_table tr\<rparr>"
    by blast
  then show "object_offsets_i srt data i
               = Some (unat (decode_entry tr i ! 1), unat (decode_entry tr i ! 2))"
    using decode_table_nth [OF assms(4) one3] decode_table_nth [OF assms(4) two3]
    by (simp add: object_offsets_i_def)
qed

subsection \<open>C5: distances that do not fit a byte\<close>





subsection \<open>The tree of the input\<close>

text \<open>
  What the merge loop returns for the 173 symbols, by evaluation: the nodes on the way
  from the root to the leaves of the bytes \<open>2\<close> and \<open>1\<close>, their distances to their
  children, and the parents that the linking pass finds for them.
\<close>

lemma overflow_merge:
  "case merge_nodes overflow_list [] 256 of
     Inl e \<Rightarrow> False
   | Inr t \<Rightarrow> length t = 345
       \<and> map (\<lambda>i. (val (t ! i), left (t ! i), right (t ! i))) [0, 1, 87, 341, 343, 344]
           = [(427, 426, 0), (0, - 1, - 1), (256, 1, 2), (4, - 1, - 1), (2, - 1, - 1), (1, - 1, - 1)]
       \<and> map (\<lambda>i. (child_distance t i (left (t ! i)), child_distance t i (right (t ! i))))
             [0, 1, 2, 3, 6, 11, 21, 23, 86, 87, 88, 341]
           = [(2, 1), (0, 0), (2, 1), (3, 2), (6, 5), (11, 10), (3, 2), (63, 62), (2, 1),
              (257, 256), (254, 253), (0, 0)]
       \<and> map (\<lambda>j. parent (linked t j)) [343, 344, 87, 86, 23, 21, 11, 6, 3, 2]
           = [87, 87, 86, 23, 21, 11, 6, 3, 2, 0]
       \<and> map (\<lambda>(p, j). right (t ! p) = val (t ! j))
             [(87, 343), (87, 344), (86, 87), (23, 86), (21, 23), (11, 21), (6, 11), (3, 6), (2, 3), (0, 2)]
           = [True, False, True, False, True, True, True, False, True, False]
       \<and> find_if (\<lambda>n. val n = 2) t = 343 \<and> find_if (\<lambda>n. val n = 1) t = 344"
  by code_simp

subsection \<open>From the merged nodes to the linked tree\<close>

lemma map_val_link_parents: "map val (link_parents t) = map val t"
  by (rule nth_equalityI) (simp_all add: link_parents_fields)

lemma child_distance_cong:
  assumes "map val t = map val t'"
  shows "child_distance t i v = child_distance t' i v"
proof -
  have l: "length t = length t'" using assms by (metis length_map)
  have "find_if (\<lambda>n. v = val n) (drop (i + 1) t) = find_if (\<lambda>w. v = w) (map val (drop (i + 1) t))"
    by (simp add: find_if_map)
  also have "\<dots> = find_if (\<lambda>w. v = w) (map val (drop (i + 1) t'))"
    using assms by (simp add: drop_map [symmetric])
  also have "\<dots> = find_if (\<lambda>n. v = val n) (drop (i + 1) t')"
    by (simp add: find_if_map)
  finally show ?thesis by (simp add: child_distance_def l)
qed

lemma find_value_cong:
  assumes "map val t = map val t'"
  shows "find_if (\<lambda>n. val n = v) t = find_if (\<lambda>n. val n = v) t'"
proof -
  have "find_if (\<lambda>n. val n = v) t = find_if (\<lambda>w. w = v) (map val t)" by (simp add: find_if_map)
  also have "\<dots> = find_if (\<lambda>n. val n = v) t'" unfolding assms by (simp add: find_if_map)
  finally show ?thesis .
qed

lemma up_bits_edge:
  assumes "parent (tr ! j) = int p" and "p < j" and "j < length tr"
  shows "up_bits tr j = (right (tr ! p) = val (tr ! j)) # up_bits tr p"
  using assms by (subst up_bits.simps) simp

lemma length_codes_replicate: "length (codes tr (replicate n c)) = n * length (code_of tr c)"
  by (induction n) simp_all

lemma length_codes_le:
  assumes "tree_ok tr" and "\<forall>c \<in> set cs. \<exists>j < length tr. val (tr ! j) = uint c"
  shows "length (codes tr cs) \<le> length tr * length cs"
  using sum_edges_total [OF assms] sum_edges_codes [OF assms] by simp

text \<open>The linked tree of the input, and the nodes, distances and codes that matter below.\<close>

definition overflow_tree :: "node list" where
  "overflow_tree = (case build_node_tree (sort_key freq) overflow_input of Inl e \<Rightarrow> [] | Inr tr \<Rightarrow> tr)"

lemma overflow_tree:
  shows "build_node_tree (sort_key freq) overflow_input = Inr overflow_tree"
    and "length overflow_tree = 345" and "tree_ok overflow_tree"
    and "val (overflow_tree ! 87) = 256" and "val (overflow_tree ! 341) = 4"
    and "map (\<lambda>i. (child_distance overflow_tree i (left (overflow_tree ! i)),
                     child_distance overflow_tree i (right (overflow_tree ! i))))
             [0, 1, 2, 3, 6, 11, 21, 23, 86, 87, 88, 341]
           = [(2, 1), (0, 0), (2, 1), (3, 2), (6, 5), (11, 10), (3, 2), (63, 62), (2, 1),
              (257, 256), (254, 253), (0, 0)]"
    and "code_of overflow_tree 0 = [True]"
    and "code_of overflow_tree 2 = [False, True, False, True, True, True, False, True, True]"
    and "code_of overflow_tree 1 = [False, True, False, True, True, True, False, True, False]"
    and "val (overflow_tree ! 1) = 0"
proof -
  obtain t where Inr: "merge_nodes overflow_list [] 256 = Inr t"
  proof (cases "merge_nodes overflow_list [] 256")
    case (Inl e)
    with overflow_merge have False by (simp only: sum.case)
    then show ?thesis ..
  next
    case (Inr t)
    then show ?thesis by (rule that)
  qed
  define tr where "tr = link_parents t"
  note m = overflow_merge [unfolded Inr sum.case]
  from m have len: "length t = 345"
    and f2: "map (\<lambda>i. (val (t ! i), left (t ! i), right (t ! i))) [0, 1, 87, 341, 343, 344]
           = [(427, 426, 0), (0, - 1, - 1), (256, 1, 2), (4, - 1, - 1), (2, - 1, - 1), (1, - 1, - 1)]"
    and f3: "map (\<lambda>i. (child_distance t i (left (t ! i)), child_distance t i (right (t ! i))))
             [0, 1, 2, 3, 6, 11, 21, 23, 86, 87, 88, 341]
           = [(2, 1), (0, 0), (2, 1), (3, 2), (6, 5), (11, 10), (3, 2), (63, 62), (2, 1),
              (257, 256), (254, 253), (0, 0)]"
    and f4: "map (\<lambda>j. parent (linked t j)) [343, 344, 87, 86, 23, 21, 11, 6, 3, 2]
           = [87, 87, 86, 23, 21, 11, 6, 3, 2, 0]"
    and f5: "map (\<lambda>(p, j). right (t ! p) = val (t ! j))
             [(87, 343), (87, 344), (86, 87), (23, 86), (21, 23), (11, 21), (6, 11), (3, 6), (2, 3), (0, 2)]
           = [True, False, True, False, True, True, True, False, True, False]"
    and f6: "find_if (\<lambda>n. val n = 2) t = 343" "find_if (\<lambda>n. val n = 1) t = 344"
    by blast+
  have b: "build_node_tree (sort_key freq) overflow_input = Inr tr"
    by (simp only: build_node_tree_def build_node_list_overflow Inr sum.case tr_def)
  have ltr: "length tr = 345" by (simp add: tr_def len)
  note ok = build_facts(1) [OF std_sort_sort_key b]
  have mv: "map val tr = map val t" unfolding tr_def by (rule map_val_link_parents)
  have fld: "val (tr ! j) = val (t ! j)" "left (tr ! j) = left (t ! j)" "right (tr ! j) = right (t ! j)"
    if "j < 345" for j
    using that unfolding tr_def by (simp_all add: link_parents_fields len)
  have par: "parent (tr ! j) = parent (linked t j)" if "1 \<le> j" "j < 345" for j
    using that unfolding tr_def by (simp add: link_parents_nth len)
  have cd: "child_distance tr i v = child_distance t i v" for i v
    by (rule child_distance_cong [OF mv])
  have v87: "val (tr ! 87) = 256" and v341: "val (tr ! 341) = 4"
    and v1: "val (tr ! 1) = 0"
    using f2 by (simp_all add: fld)
  have offs: "map (\<lambda>i. (child_distance tr i (left (tr ! i)), child_distance tr i (right (tr ! i))))
             [0, 1, 2, 3, 6, 11, 21, 23, 86, 87, 88, 341]
           = [(2, 1), (0, 0), (2, 1), (3, 2), (6, 5), (11, 10), (3, 2), (63, 62), (2, 1),
              (257, 256), (254, 253), (0, 0)]"
    using f3 by (simp add: cd fld)
  have edges: "parent (tr ! 343) = int 87" "parent (tr ! 344) = int 87" "parent (tr ! 87) = int 86"
    "parent (tr ! 86) = int 23" "parent (tr ! 23) = int 21" "parent (tr ! 21) = int 11"
    "parent (tr ! 11) = int 6" "parent (tr ! 6) = int 3" "parent (tr ! 3) = int 2"
    "parent (tr ! 2) = int 0"
    using f4 by (simp_all add: par)
  have bits: "(right (tr ! 87) = val (tr ! 343)) = True" "(right (tr ! 87) = val (tr ! 344)) = False"
    "(right (tr ! 86) = val (tr ! 87)) = True" "(right (tr ! 23) = val (tr ! 86)) = False"
    "(right (tr ! 21) = val (tr ! 23)) = True" "(right (tr ! 11) = val (tr ! 21)) = True"
    "(right (tr ! 6) = val (tr ! 11)) = True" "(right (tr ! 3) = val (tr ! 6)) = False"
    "(right (tr ! 2) = val (tr ! 3)) = True" "(right (tr ! 0) = val (tr ! 2)) = False"
    using f5 by (simp_all add: fld)
  have u2: "up_bits tr 2 = [False]"
    by (simp add: up_bits_edge [OF edges(10)] ltr bits)
  have u3: "up_bits tr 3 = [True, False]"
    by (simp add: up_bits_edge [OF edges(9)] ltr bits u2)
  have u6: "up_bits tr 6 = [False, True, False]"
    by (simp add: up_bits_edge [OF edges(8)] ltr bits u3)
  have u11: "up_bits tr 11 = [True, False, True, False]"
    by (simp add: up_bits_edge [OF edges(7)] ltr bits u6)
  have u21: "up_bits tr 21 = [True, True, False, True, False]"
    by (simp add: up_bits_edge [OF edges(6)] ltr bits u11)
  have u23: "up_bits tr 23 = [True, True, True, False, True, False]"
    by (simp add: up_bits_edge [OF edges(5)] ltr bits u21)
  have u86: "up_bits tr 86 = [False, True, True, True, False, True, False]"
    by (simp add: up_bits_edge [OF edges(4)] ltr bits u23)
  have u87: "up_bits tr 87 = [True, False, True, True, True, False, True, False]"
    by (simp add: up_bits_edge [OF edges(3)] ltr bits u86)
  have u343: "up_bits tr 343 = [True, True, False, True, True, True, False, True, False]"
    by (simp add: up_bits_edge [OF edges(1)] ltr bits u87)
  have u344: "up_bits tr 344 = [False, True, False, True, True, True, False, True, False]"
    by (simp add: up_bits_edge [OF edges(2)] ltr bits u87)
  have "find_if (\<lambda>n. val n = uint (2 :: byte)) tr = 343"
    using f6(1) find_value_cong [OF mv, of 2] by simp
  then have c2: "code_of tr 2 = [False, True, False, True, True, True, False, True, True]"
    by (simp add: code_of_def u343)
  have "find_if (\<lambda>n. val n = uint (1 :: byte)) tr = 344"
    using f6(2) find_value_cong [OF mv, of 1] by simp
  then have c1: "code_of tr 1 = [False, True, False, True, True, True, False, True, False]"
    by (simp add: code_of_def u344)
  have "find_if (\<lambda>n. val n = 0) tr = 1"
  proof (rule find_if_eqI)
    show "1 < length tr" by (simp add: ltr)
    show "val (tr ! 1) = 0" by (rule v1)
    fix j :: nat assume "j < 1"
    then have "j = 0" by simp
    with tree_okD(6) [OF ok] show "val (tr ! j) \<noteq> 0" by simp
  qed
  moreover have "up_bits tr 1 = [right (tr ! parent_of tr 1) = val (tr ! 1)]"
  proof -
    have "parent_of tr 1 < 1" by (rule parent_of(2) [OF ok]) (simp_all add: ltr)
    then have "parent_of tr 1 = 0" by simp
    then show ?thesis using up_bits_step [OF ok, of 1] by (simp add: ltr)
  qed
  moreover have "parent_of tr 1 = 0"
    using parent_of(2) [OF ok, of 1] by (simp add: ltr)
  moreover have "right (tr ! 0) = 0" using f2 by (simp add: fld)
  ultimately have c0: "code_of tr 0 = [True]"
    using v1 by (simp add: code_of_def)
  have eq: "overflow_tree = tr" by (simp add: overflow_tree_def b)
  show "build_node_tree (sort_key freq) overflow_input = Inr overflow_tree"
    and "length overflow_tree = 345" and "tree_ok overflow_tree"
    and "val (overflow_tree ! 87) = 256" and "val (overflow_tree ! 341) = 4"
    and "map (\<lambda>i. (child_distance overflow_tree i (left (overflow_tree ! i)),
                     child_distance overflow_tree i (right (overflow_tree ! i))))
             [0, 1, 2, 3, 6, 11, 21, 23, 86, 87, 88, 341]
           = [(2, 1), (0, 0), (2, 1), (3, 2), (6, 5), (11, 10), (3, 2), (63, 62), (2, 1),
              (257, 256), (254, 253), (0, 0)]"
    and "code_of overflow_tree 0 = [True]"
    and "code_of overflow_tree 2 = [False, True, False, True, True, True, False, True, True]"
    and "code_of overflow_tree 1 = [False, True, False, True, True, True, False, True, False]"
    and "val (overflow_tree ! 1) = 0"
    unfolding eq by (fact b ltr ok v87 v341 offs c0 c2 c1 v1)+
qed

lemma overflow_compressed: "compressed_mode (sort_key freq) overflow_input"
proof -
  define tr where "tr = overflow_tree"
  note b = overflow_tree(1) [folded tr_def] and ltr = overflow_tree(2) [folded tr_def]
    and ok = overflow_tree(3) [folded tr_def] and c0 = overflow_tree(7) [folded tr_def]
  note lv = build_facts(3) [OF std_sort_sort_key b]
  have "\<forall>c \<in> set (2 # 1 # map of_nat [3..<173] :: byte list). \<exists>j < length tr. val (tr ! j) = uint c"
    using lv unfolding overflow_input_def by auto
  from length_codes_le [OF ok this]
  have r: "length (codes tr (2 # 1 # map of_nat [3..<173])) \<le> 345 * 172" by (simp add: ltr)
  have "length (codes tr overflow_input)
          = 10000 + length (codes tr (2 # 1 # map of_nat [3..<173]))"
    unfolding overflow_input_def codes_simps(3) length_append length_codes_replicate c0 by simp
  with r have "length (codes tr overflow_input) \<le> 69340" by simp
  then have "length (codes tr overflow_input) div 8 \<le> 69340 div 8" by (rule div_le_mono)
  then have p: "payload_bytes tr overflow_input + 3 * length tr < length overflow_input"
    by (simp add: payload_bytes_def ltr overflow_input_def)
  have l: "length overflow_input < 2 ^ 50" by (simp add: overflow_input_def)
  from compressed_mode_saved [OF std_sort_sort_key l b p]
  show ?thesis unfolding compressed_mode_iff by blast
qed

subsection \<open>Entry 87 of the table\<close>

lemma overflow_entry_87:
  shows "tree_count (sort_key freq) overflow_input = 345"
    and "map_option val (tree_node (sort_key freq) overflow_input 87) = Some 256"
    and "true_offsets (sort_key freq) overflow_input 87 = Some (257, 256)"
    and "object_offsets (sort_key freq) overflow_input 87 = Some (1, 0)"
    and "object_offsets_i (sort_key freq) overflow_input 87 = Some (1, 0)"
proof -
  define tr where "tr = overflow_tree"
  note b = overflow_tree(1) [folded tr_def] and ltr = overflow_tree(2) [folded tr_def]
    and v = overflow_tree(4) [folded tr_def] and offs = overflow_tree(6) [folded tr_def]
  from offs have d: "child_distance tr 87 (left (tr ! 87)) = 257"
    "child_distance tr 87 (right (tr ! 87)) = 256" by simp_all
  show "tree_count (sort_key freq) overflow_input = 345"
    using build_facts(2) [OF std_sort_sort_key b] ltr by simp
  show "map_option val (tree_node (sort_key freq) overflow_input 87) = Some 256"
    by (simp add: tree_node_def b v)
  show "true_offsets (sort_key freq) overflow_input 87 = Some (257, 256)"
    by (simp add: true_offsets_def b d)
  have i: "87 < length tr" by (simp add: ltr)
  have e: "unat (decode_entry tr 87 ! 1) = 1" "unat (decode_entry tr 87 ! 2) = 0"
    by (simp_all add: decode_entry_nth d)
  show "object_offsets (sort_key freq) overflow_input 87 = Some (1, 0)"
    unfolding object_offsets_eq(1) [OF std_sort_sort_key overflow_compressed b i] e ..
  show "object_offsets_i (sort_key freq) overflow_input 87 = Some (1, 0)"
    unfolding object_offsets_eq(2) [OF std_sort_sort_key overflow_compressed b i] e ..
qed


subsection \<open>C8: leaves and zero offsets\<close>

text \<open>
  C8: in the table of an object in compressed mode an entry has left offset 0 exactly when
  it has right offset 0, and exactly when it is the entry of a leaf.

  This holds when the tree has at most 256 nodes (\<open>entry_internal_iff\<close>).  In the table of
  the input of 10172 bytes, entry 87 belongs to the node with the value 256, the first
  node made by merging two others; its left offset is 1 and its right offset is 0, the
  low byte of the distance 256.
\<close>

theorem internal_entry_right_offset_zero:
  "compressed_mode (sort_key freq) overflow_input
   \<and> map_option val (tree_node (sort_key freq) overflow_input 87) = Some 256
   \<and> map_option fst (object_offsets_i (sort_key freq) overflow_input 87) = Some 1
   \<and> map_option snd (object_offsets_i (sort_key freq) overflow_input 87) = Some 0
   \<and> map_option fst (object_offsets (sort_key freq) overflow_input 87) = Some 1
   \<and> map_option snd (object_offsets (sort_key freq) overflow_input 87) = Some 0"
  using overflow_compressed by (simp add: overflow_entry_87)

subsection \<open>The entries on the way to entry 87\<close>

text \<open>The entries of the table on the way from the root to entry 87, and those next to it.\<close>

lemma overflow_entries:
  "decode_entry overflow_tree 0 ! 1 = 2" "decode_entry overflow_tree 0 ! 2 = 1"
  "decode_entry overflow_tree 1 ! 0 = 0" "decode_entry overflow_tree 1 ! 1 = 0"
  "decode_entry overflow_tree 2 ! 1 = 2" "decode_entry overflow_tree 2 ! 2 = 1"
  "decode_entry overflow_tree 3 ! 1 = 3" "decode_entry overflow_tree 3 ! 2 = 2"
  "decode_entry overflow_tree 6 ! 1 = 6" "decode_entry overflow_tree 6 ! 2 = 5"
  "decode_entry overflow_tree 11 ! 1 = 11" "decode_entry overflow_tree 11 ! 2 = 10"
  "decode_entry overflow_tree 21 ! 1 = 3" "decode_entry overflow_tree 21 ! 2 = 2"
  "decode_entry overflow_tree 23 ! 1 = 63" "decode_entry overflow_tree 23 ! 2 = 62"
  "decode_entry overflow_tree 86 ! 1 = 2" "decode_entry overflow_tree 86 ! 2 = 1"
  "decode_entry overflow_tree 87 ! 1 = 1" "decode_entry overflow_tree 87 ! 2 = 0"
  "decode_entry overflow_tree 88 ! 1 = 254" "decode_entry overflow_tree 88 ! 2 = 253"
  "decode_entry overflow_tree 341 ! 0 = 4" "decode_entry overflow_tree 341 ! 1 = 0"
proof -
  define tr where "tr = overflow_tree"
  note offs = overflow_tree(6) [folded tr_def]
  from offs have d:
    "child_distance tr 0 (left (tr ! 0)) = 2" "child_distance tr 0 (right (tr ! 0)) = 1"
    "child_distance tr 1 (left (tr ! 1)) = 0"
    "child_distance tr 2 (left (tr ! 2)) = 2" "child_distance tr 2 (right (tr ! 2)) = 1"
    "child_distance tr 3 (left (tr ! 3)) = 3" "child_distance tr 3 (right (tr ! 3)) = 2"
    "child_distance tr 6 (left (tr ! 6)) = 6" "child_distance tr 6 (right (tr ! 6)) = 5"
    "child_distance tr 11 (left (tr ! 11)) = 11" "child_distance tr 11 (right (tr ! 11)) = 10"
    "child_distance tr 21 (left (tr ! 21)) = 3" "child_distance tr 21 (right (tr ! 21)) = 2"
    "child_distance tr 23 (left (tr ! 23)) = 63" "child_distance tr 23 (right (tr ! 23)) = 62"
    "child_distance tr 86 (left (tr ! 86)) = 2" "child_distance tr 86 (right (tr ! 86)) = 1"
    "child_distance tr 87 (left (tr ! 87)) = 257" "child_distance tr 87 (right (tr ! 87)) = 256"
    "child_distance tr 88 (left (tr ! 88)) = 254" "child_distance tr 88 (right (tr ! 88)) = 253"
    "child_distance tr 341 (left (tr ! 341)) = 0"
    by simp_all
  note v = overflow_tree(5,10) [folded tr_def]
  show "decode_entry overflow_tree 0 ! 1 = 2" "decode_entry overflow_tree 0 ! 2 = 1"
  "decode_entry overflow_tree 1 ! 0 = 0" "decode_entry overflow_tree 1 ! 1 = 0"
  "decode_entry overflow_tree 2 ! 1 = 2" "decode_entry overflow_tree 2 ! 2 = 1"
  "decode_entry overflow_tree 3 ! 1 = 3" "decode_entry overflow_tree 3 ! 2 = 2"
  "decode_entry overflow_tree 6 ! 1 = 6" "decode_entry overflow_tree 6 ! 2 = 5"
  "decode_entry overflow_tree 11 ! 1 = 11" "decode_entry overflow_tree 11 ! 2 = 10"
  "decode_entry overflow_tree 21 ! 1 = 3" "decode_entry overflow_tree 21 ! 2 = 2"
  "decode_entry overflow_tree 23 ! 1 = 63" "decode_entry overflow_tree 23 ! 2 = 62"
  "decode_entry overflow_tree 86 ! 1 = 2" "decode_entry overflow_tree 86 ! 2 = 1"
  "decode_entry overflow_tree 87 ! 1 = 1" "decode_entry overflow_tree 87 ! 2 = 0"
  "decode_entry overflow_tree 88 ! 1 = 254" "decode_entry overflow_tree 88 ! 2 = 253"
  "decode_entry overflow_tree 341 ! 0 = 4" "decode_entry overflow_tree 341 ! 1 = 0"
    unfolding tr_def [symmetric] decode_entry_nth(1,2,3) d v by simp_all
qed

section \<open>The order among symbols of equal frequency\<close>

text \<open>
  \<open>std::sort\<close> may leave symbols of equal frequency in any order.  The build steps never
  compare two values for order: they copy values and test them for equality.  So the tree
  for one order is the tree for another order with the values renamed, node by node, and
  the parent links, the distances between the nodes and the bits of the codes are the same.
  \<open>relabel f\<close> renames the values that a node holds.
\<close>

definition relabel :: "(int \<Rightarrow> int) \<Rightarrow> node \<Rightarrow> node" where
  "relabel f n = n\<lparr>val := f (val n), left := f (left n), right := f (right n)\<rparr>"

lemma relabel_sel [simp]:
  "val (relabel f n) = f (val n)" "left (relabel f n) = f (left n)"
  "right (relabel f n) = f (right n)" "freq (relabel f n) = freq n"
  "parent (relabel f n) = parent n"
  by (simp_all add: relabel_def)

lemma relabel_parent_update: "relabel f (n\<lparr>parent := p\<rparr>) = (relabel f n)\<lparr>parent := p\<rparr>"
  by (simp add: relabel_def)

lemma insert_parent_relabel:
  "insert_parent (relabel f n) (map (relabel f) rest) = map (relabel f) (insert_parent n rest)"
  by (simp add: insert_parent_def Let_def find_if_map take_map drop_map)

lemma mk_parent_relabel:
  "f v = v \<Longrightarrow> mk_parent v (relabel f a) (relabel f b) = relabel f (mk_parent v a b)"
  by (simp add: mk_parent_def relabel_def)

lemma merge_nodes_relabel:
  "\<forall>w \<ge> v. f w = w \<Longrightarrow> merge_nodes list tree v = Inr t \<Longrightarrow>
   merge_nodes (map (relabel f) list) (map (relabel f) tree) v = Inr (map (relabel f) t)"
proof (induction "length list" arbitrary: list tree v t rule: less_induct)
  case less
  have two: "2 \<le> length list"
  proof (rule ccontr)
    assume "\<not> 2 \<le> length list"
    then have "merge_nodes list tree v = Inl OutOfBounds"
      by (subst merge_nodes.simps) simp
    with less.prems(2) show False by simp
  qed
  then obtain a b rest where l: "list = a # b # rest"
    by (metis Suc_le_length_iff numeral_2_eq_2)
  have fv: "f v = v" using less.prems(1) by simp
  have st: "merge_nodes (map (relabel f) list) (map (relabel f) tree) v =
     (if rest = [] then Inr (map (relabel f) (mk_parent v a b # b # a # tree))
      else merge_nodes (map (relabel f) (insert_parent (mk_parent v a b) rest))
             (map (relabel f) (b # a # tree)) (v + 1))"
    unfolding l list.map merge_nodes_step insert_parent_relabel [symmetric]
      mk_parent_relabel [of f v, OF fv] by simp
  show ?case
  proof (cases "rest = []")
    case True
    from less.prems(2) have "t = mk_parent v a b # b # a # tree"
      unfolding l merge_nodes_step using True by simp
    with st True show ?thesis by simp
  next
    case False
    have m: "merge_nodes (insert_parent (mk_parent v a b) rest) (b # a # tree) (v + 1) = Inr t"
      using less.prems(2) False unfolding l merge_nodes_step by simp
    have len: "length (insert_parent (mk_parent v a b) rest) < length list"
      by (simp add: l length_insert_parent)
    have fw: "\<forall>w \<ge> v + 1. f w = w" using less.prems(1) by simp
    from less.hyps [OF len fw m] st False show ?thesis by simp
  qed
qed

lemma child_distance_relabel:
  assumes "inj f"
  shows "child_distance (map (relabel f) t) i (f v) = child_distance t i v"
  by (simp add: child_distance_def drop_map find_if_map inj_eq [OF assms])

lemma linked_relabel:
  assumes "inj f" and "j < length t"
  shows "linked (map (relabel f) t) j = relabel f (linked t j)"
  using assms(2)
  by (simp add: linked_def Let_def take_map find_if_map inj_eq [OF assms(1)] relabel_parent_update)

lemma link_parents_relabel:
  assumes "inj f"
  shows "link_parents (map (relabel f) t) = map (relabel f) (link_parents t)"
  by (rule nth_equalityI) (simp_all add: link_parents_nth linked_relabel [OF assms])

lemma find_value_relabel:
  assumes "inj f"
  shows "find_if (\<lambda>n. val n = f v) (map (relabel f) t) = find_if (\<lambda>n. val n = v) t"
  by (simp add: find_if_map inj_eq [OF assms])

lemma up_bits_relabel:
  assumes "inj f"
  shows "up_bits (map (relabel f) t) j = up_bits t j"
proof (induction j rule: less_induct)
  case (less j)
  show ?case
  proof (cases "1 \<le> j \<and> j < length t \<and> 0 \<le> parent (t ! j) \<and> nat (parent (t ! j)) < j")
    case True
    define p where "p = nat (parent (t ! j))"
    from True have pj: "p < j" and jl: "j < length t" and pl: "p < length t"
      by (simp_all add: p_def)
    have c: "1 \<le> j \<and> j < length (map (relabel f) t) \<and> 0 \<le> parent (map (relabel f) t ! j)
           \<and> nat (parent (map (relabel f) t ! j)) < j"
      using True by simp
    have "up_bits (map (relabel f) t) j
            = (right (map (relabel f) t ! p) = val (map (relabel f) t ! j))
              # up_bits (map (relabel f) t) p"
      using c jl by (subst up_bits.simps) (simp add: p_def)
    also have "\<dots> = (right (t ! p) = val (t ! j)) # up_bits t p"
      using jl pl by (simp add: less.IH [OF pj] inj_eq [OF assms])
    also have "\<dots> = up_bits t j"
      using True by (subst (2) up_bits.simps) (simp add: p_def)
    finally show ?thesis .
  next
    case False
    then have "\<not> (1 \<le> j \<and> j < length (map (relabel f) t) \<and> 0 \<le> parent (map (relabel f) t ! j)
           \<and> nat (parent (map (relabel f) t ! j)) < j)"
      by auto
    then have "up_bits (map (relabel f) t) j = []"
      by (subst up_bits.simps) (simp)
    moreover from False have "up_bits t j = []"
      by (subst up_bits.simps) (simp)
    ultimately show ?thesis by simp
  qed
qed

lemma code_of_relabel:
  assumes "inj f" and "uint c' = f (uint c)"
  shows "code_of (map (relabel f) t) c' = code_of t c"
  by (simp add: code_of_def assms(2) find_value_relabel [OF assms(1)] up_bits_relabel [OF assms(1)])

subsection \<open>A renaming from a permutation\<close>

lemma perm_fun:
  fixes ps :: "int list" and n :: nat
  assumes "mset ps = mset (map int [1..<n])"
    and f_def: "\<And>w. f w = (if 1 \<le> w \<and> w < int n then ps ! (nat w - 1) else w)"
  shows "inj f"
    and "\<And>w. \<not> (1 \<le> w \<and> w < int n) \<Longrightarrow> f w = w"
    and "\<And>w. 1 \<le> w \<Longrightarrow> w < int n \<Longrightarrow> 1 \<le> f w \<and> f w < int n"
    and "\<And>k. k < length ps \<Longrightarrow> f (int (k + 1)) = ps ! k"
    and "length ps = n - 1"
proof -
  show len: "length ps = n - 1" using arg_cong [OF assms(1), of size] by simp
  have "distinct (map int [1..<n])" by (simp add: distinct_map)
  then have d: "distinct ps" using mset_eq_imp_distinct_iff [OF assms(1)] by simp
  have s: "set ps = int ` {1..<n}" using arg_cong [OF assms(1), of set_mset] by simp
  have idx: "nat w - 1 < length ps" if "1 \<le> w" "w < int n" for w
    using that len by linarith
  show out: "f w = w" if "\<not> (1 \<le> w \<and> w < int n)" for w
    using that by (auto simp: f_def)
  show rng: "1 \<le> f w \<and> f w < int n" if "1 \<le> w" "w < int n" for w
  proof -
    have "f w = ps ! (nat w - 1)" using that by (simp add: f_def)
    moreover have "ps ! (nat w - 1) \<in> set ps" using idx [OF that] by simp
    ultimately have "f w \<in> int ` {1..<n}" using s by simp
    then show ?thesis by auto
  qed
  show "f (int (k + 1)) = ps ! k" if "k < length ps" for k
  proof -
    have a: "1 \<le> int (k + 1) \<and> int (k + 1) < int n" using that len by auto
    have b: "nat (int (k + 1)) - 1 = k" by simp
    show ?thesis unfolding f_def using a b by (simp only: if_True simp_thms)
  qed
  show "inj f"
  proof (rule injI)
    fix a b assume e: "f a = f b"
    show "a = b"
    proof (cases "1 \<le> a \<and> a < int n")
      case a: True
      show ?thesis
      proof (cases "1 \<le> b \<and> b < int n")
        case b: True
        from e a b have "ps ! (nat a - 1) = ps ! (nat b - 1)" by (simp add: f_def)
        with d idx a b have "nat a - 1 = nat b - 1" by (simp add: nth_eq_iff_index_eq)
        with a b show ?thesis by linarith
      next
        case b: False
        from rng a have "1 \<le> f a \<and> f a < int n" by blast
        with e out [OF b] b show ?thesis by simp
      qed
    next
      case a: False
      show ?thesis
      proof (cases "1 \<le> b \<and> b < int n")
        case b: True
        from rng b have "1 \<le> f b \<and> f b < int n" by blast
        with e out [OF a] a show ?thesis by simp
      next
        case b: False
        from e out [OF a] out [OF b] show ?thesis by simp
      qed
    qed
  qed
qed

text \<open>A sorted list whose largest element is strictly larger than all others ends with it.\<close>

lemma sorted_max_last:
  assumes "sorted_wrt (\<lambda>a b. freq a \<le> freq b) l" and "mset l = add_mset h (mset ms)"
    and "\<forall>m \<in> set ms. freq m < freq h"
  shows "\<exists>l'. l = l' @ [h] \<and> mset l' = mset ms"
proof -
  have "h \<in># mset l" unfolding assms(2) by simp
  then have "h \<in> set l" by simp
  then obtain as bs where l: "l = as @ h # bs" by (auto simp: in_set_conv_decomp)
  from assms(2) have m: "mset as + mset bs = mset ms" unfolding l by simp
  have "bs = []"
  proof (rule ccontr)
    assume "bs \<noteq> []"
    then obtain b where b: "b \<in> set bs" by (cases bs) auto
    then have "b \<in># mset as + mset bs" by simp
    then have "b \<in> set ms" unfolding m by simp
    with assms(3) have "freq b < freq h" by blast
    moreover from assms(1) b have "freq h \<le> freq b"
      unfolding l by (simp add: sorted_wrt_append)
    ultimately show False by simp
  qed
  with l m show ?thesis by simp
qed

section \<open>An input that fails for every order among equal frequencies\<close>

text \<open>
  The byte \<open>0\<close>, then each of the bytes \<open>1\<close>, \<dots>, \<open>172\<close> followed by a byte \<open>0\<close>, then
  9827 bytes \<open>0\<close>: 10172 bytes in which every byte occurs as often as in the input
  of 10172 bytes above, so the counters after the counting loop are the same.
\<close>

definition interleaved_input :: "byte list" where
  "interleaved_input = 0 # concat (map (\<lambda>i. [of_nat i, 0]) [1..<173]) @ replicate 9827 0"

lemma count_list_pairs:
  "count_list (concat (map (\<lambda>i. [g i, z]) xs)) c
     = count_list (map g xs) c + (if z = c then length xs else 0)"
  by (induction xs) auto

lemma count_interleaved_input:
  assumes "i < 256"
  shows "count_list interleaved_input (word_of_nat i)
           = (if i = 0 then 10000 else if i < 173 then 1 else 0)"
proof -
  have z: "((0 :: byte) = word_of_nat i) = (i = 0)"
    using byte_of_nat_eq_iff [of 0 i] assms by auto
  show ?thesis
    unfolding interleaved_input_def count_list_append count_list_replicate count_list.simps
      count_list_pairs z
    using count_list_bytes_upt [OF assms, of 173 1] by auto
qed

lemma count_values_interleaved: "count_values interleaved_input = overflow_counts"
  unfolding count_values_eq overflow_counts_def
  by (rule map_cong [OF refl]) (simp add: symbol_node_def count_interleaved_input)

lemma length_interleaved_input: "length interleaved_input = 10172"
  by (simp add: interleaved_input_def length_concat comp_def sum_list_triv)

text \<open>The symbols that occur, as the counting loop leaves them.\<close>

lemma filter_overflow_counts:
  "filter (\<lambda>n. freq n \<noteq> 0) overflow_counts
     = \<lparr>val = 0, freq = 10000, parent = - 1, left = - 1, right = - 1\<rparr>
       # map (\<lambda>i. \<lparr>val = int i, freq = 1, parent = - 1, left = - 1, right = - 1\<rparr>) [1..<173]"
  by code_simp

text \<open>
  Whatever order \<open>std::sort\<close> leaves among the 172 symbols that occur once, the list of
  \<open>build_node_list\<close> is the list for the stable order with the values renamed by a
  permutation of \<open>1\<close>, \<dots>, \<open>172\<close>.
\<close>

lemma build_node_list_interleaved:
  assumes "std_sort srt"
  shows "\<exists>f. inj f \<and> (\<forall>w. \<not> (1 \<le> w \<and> w < 173) \<longrightarrow> f w = w)
           \<and> (\<forall>w. 1 \<le> w \<and> w < 173 \<longrightarrow> 1 \<le> f w \<and> f w < 173)
           \<and> build_node_list srt interleaved_input = map (relabel f) overflow_list"
proof -
  define heavy where "heavy = \<lparr>val = 0, freq = 10000, parent = - 1, left = - 1, right = - 1\<rparr>"
  define light where "light = (\<lambda>i :: nat. \<lparr>val = int i, freq = 1, parent = - 1, left = - 1, right = - 1\<rparr>)"
  define l where "l = valid_nodes srt interleaved_input"
  have ol: "overflow_list = map light [1..<173] @ [heavy]"
    by (simp add: overflow_list_def light_def heavy_def)
  have "mset l = mset (filter (\<lambda>n. freq n \<noteq> 0) overflow_counts)"
    unfolding l_def mset_valid_nodes [OF assms] filter_count_values [symmetric]
      count_values_interleaved ..
  then have ml: "mset l = add_mset heavy (mset (map light [1..<173]))"
    unfolding filter_overflow_counts by (simp add: heavy_def light_def)
  have sl: "sorted_wrt (\<lambda>a b. freq a \<le> freq b) l"
    unfolding l_def by (rule sorted_valid_nodes [OF assms])
  have "\<forall>m \<in> set (map light [1..<173]). freq m < freq heavy"
    by (auto simp: light_def heavy_def)
  from sorted_max_last [OF sl ml this] obtain l' where l': "l = l' @ [heavy]"
    and ml': "mset l' = mset (map light [1..<173])" by blast
  define ps where "ps = map val l'"
  have "mset ps = image_mset val (mset l')" by (simp add: ps_def)
  also have "\<dots> = mset (map val (map light [1..<173]))"
    unfolding ml' by (simp only: mset_map)
  also have "map val (map light [1..<173]) = map int [1..<173]" by (simp add: light_def)
  finally have mps: "mset ps = mset (map int [1..<173])" .
  define f where "f = (\<lambda>w. if 1 \<le> w \<and> w < int 173 then ps ! (nat w - 1) else w)"
  have "f w = (if 1 \<le> w \<and> w < int 173 then ps ! (nat w - 1) else w)" for w
    by (simp add: f_def)
  note pf = perm_fun [OF mps this]
  have len: "length l' = 172" using pf(5) by (simp add: ps_def)
  have fm1: "f (- 1) = - 1" and f0: "f 0 = 0" by (simp_all add: pf(2))
  have "l' = map (relabel f) (map light [1..<173])"
  proof (rule nth_equalityI)
    show "length l' = length (map (relabel f) (map light [1..<173]))" by (simp add: len)
    fix k assume k: "k < length l'"
    then have "l' ! k \<in># mset l'" by simp
    then have "l' ! k \<in> set (map light [1..<173])" unfolding ml' by simp
    then obtain i where i: "l' ! k = light i" by auto
    have "f (int (k + 1)) = val (l' ! k)" using pf(4) [of k] k by (simp add: ps_def)
    then have "relabel f (light (k + 1)) = l' ! k"
      unfolding i by (simp add: relabel_def light_def fm1)
    then show "l' ! k = map (relabel f) (map light [1..<173]) ! k"
      using k len by simp
  qed
  moreover have "relabel f heavy = heavy" by (simp add: relabel_def heavy_def fm1 f0)
  ultimately have "l = map (relabel f) overflow_list" unfolding l' ol by simp
  moreover have "length l = 173" unfolding l' by (simp add: len)
  ultimately have "build_node_list srt interleaved_input = map (relabel f) overflow_list"
    unfolding build_node_list_eq [OF assms] l_def [symmetric] by simp
  moreover have "\<forall>w. \<not> (1 \<le> w \<and> w < 173) \<longrightarrow> f w = w" using pf(2) by simp
  moreover have "\<forall>w. 1 \<le> w \<and> w < 173 \<longrightarrow> 1 \<le> f w \<and> f w < 173" using pf(3) by simp
  ultimately show ?thesis using pf(1) by blast
qed

subsection \<open>Distances that fit a byte\<close>

text \<open>Both distances from node \<open>i\<close> to its children are below 256.\<close>

definition exact :: "node list \<Rightarrow> nat \<Rightarrow> bool" where
  "exact tr i \<longleftrightarrow> child_distance tr i (left (tr ! i)) < 256
                \<and> child_distance tr i (right (tr ! i)) < 256"

lemma child_distance_le:
  assumes "i < j" and "j < length tr" and "val (tr ! j) = v"
  shows "child_distance tr i v \<le> j - i"
proof -
  from assms have "\<exists>k. i < k \<and> k < length tr \<and> val (tr ! k) = v" by blast
  then obtain j' where j': "i < j'" "j' < length tr" "val (tr ! j') = v"
    and first: "\<And>k. i < k \<Longrightarrow> k < j' \<Longrightarrow> val (tr ! k) \<noteq> v"
    and d: "child_distance tr i v = j' - i"
    by (rule child_distance_first) blast
  have "j' \<le> j"
  proof (rule ccontr)
    assume "\<not> j' \<le> j"
    then have "j < j'" by simp
    from first [OF assms(1) this] assms(3) show False by simp
  qed
  then show ?thesis unfolding d by simp
qed

lemma arena_distance_le:
  assumes "arena L0 F0 M0 t" and "i < length t" and "256 \<le> val (t ! i)"
  shows "child_distance t i (left (t ! i)) \<le> lchild t i - i"
    and "child_distance t i (right (t ! i)) \<le> rchild t i - i"
proof -
  note c = arena_children [OF assms]
  have r: "rchild t i < length t" and l: "lchild t i < length t" and il: "i < lchild t i"
    using c(1,2) by (simp_all add: rchild_def lchild_def)
  show "child_distance t i (left (t ! i)) \<le> lchild t i - i"
    by (rule child_distance_le [OF il l c(3) [symmetric]])
  show "child_distance t i (right (t ! i)) \<le> rchild t i - i"
    by (rule child_distance_le [OF c(2) r c(4) [symmetric]])
qed

text \<open>
  The values of the first 89 nodes of the tree of 345 nodes, by evaluation: apart from
  node 1 (the leaf of the byte \<open>0\<close>) and node 87 they are merged nodes, made late enough
  for their children to be less than 256 nodes away.
\<close>

lemma overflow_merge_bound:
  "case merge_nodes overflow_list [] 256 of
     Inl e \<Rightarrow> False
   | Inr t \<Rightarrow> list_all2 (\<lambda>i v. i = 1 \<or> i = 87 \<or> 256 \<le> v \<and> 88 < int i + 2 * (v - 256))
                [0..<89] (map val (take 89 t))"
  by code_simp

lemma overflow_merged:
  obtains t where "merge_nodes overflow_list [] 256 = Inr t" and "overflow_tree = link_parents t"
    and "length t = 345"
proof (cases "merge_nodes overflow_list [] 256")
  case (Inl e)
  with overflow_merge have False by (simp only: sum.case)
  then show ?thesis ..
next
  case (Inr t)
  have "build_node_tree (sort_key freq) overflow_input = Inr (link_parents t)"
    by (simp only: build_node_tree_def build_node_list_overflow Inr sum.case)
  with overflow_tree(1) have tr: "overflow_tree = link_parents t" by simp
  have "length (link_parents t) = 345" using overflow_tree(2) unfolding tr .
  then have "length t = 345" by simp
  with tr show ?thesis using Inr that by blast
qed

lemma overflow_tree_exact:
  assumes "i < 345" and "i \<noteq> 87"
  shows "exact overflow_tree i"
proof -
  obtain t where Inr: "merge_nodes overflow_list [] 256 = Inr t"
    and tr: "overflow_tree = link_parents t" and len: "length t = 345"
    by (rule overflow_merged)
  have cd: "child_distance overflow_tree i (left (overflow_tree ! i)) = child_distance t i (left (t ! i))"
    "child_distance overflow_tree i (right (overflow_tree ! i)) = child_distance t i (right (t ! i))"
    unfolding tr using assms(1) child_distance_cong [OF map_val_link_parents, of t]
    by (simp_all add: link_parents_fields len)
  consider "89 \<le> i" | "i = 1" | "i < 89" "i \<noteq> 1" by linarith
  then show ?thesis
  proof cases
    case 1
    have a: "child_distance overflow_tree i v < length overflow_tree - i" for v
      using assms(1) by (intro child_distance_less) (simp add: overflow_tree(2))
    have "child_distance overflow_tree i v < 256" for v
      using a [of v] 1 by (simp add: overflow_tree(2))
    then show ?thesis by (simp add: exact_def)
  next
    case 2
    have "val (overflow_tree ! 1) < 256" using overflow_tree(10) by simp
    from child_distance_leaf [OF overflow_tree(3) _ this]
    show ?thesis unfolding 2 exact_def by (simp add: overflow_tree(2))
  next
    case 3
    from merge_nodes_arena [OF std_sort_sort_key, of overflow_input]
    have ar: "arena 173 (int (length overflow_input)) (mset overflow_list) t"
      unfolding build_node_list_overflow Inr by (simp add: overflow_list_def)
    note b = overflow_merge_bound [unfolded Inr sum.case]
    have "i < length [0..<89]" using 3(1) by simp
    from list_all2_nthD [OF b this]
    have v: "256 \<le> val (t ! i)" "88 < int i + 2 * (val (t ! i) - 256)"
      using 3 assms(2) by (simp_all add: len)
    have il: "i < length t" using assms(1) by (simp add: len)
    note d = arena_distance_le [OF ar il v(1)]
    note c = arena_children(1) [OF ar il v(1)]
    have k: "int (kidx t i) = val (t ! i) - 256" using v(1) by (simp add: kidx_def)
    have "lchild t i - i < 256" using v(2) c k by (simp add: lchild_def len)
    moreover have "rchild t i - i < 256" using v(2) c k by (simp add: rchild_def len)
    ultimately show ?thesis using d by (simp add: exact_def cd)
  qed
qed

subsection \<open>The tree of the input, for every order among equal frequencies\<close>

text \<open>
  A renaming of the values \<open>1\<close>, \<dots>, \<open>172\<close> among themselves that leaves every other
  value as it is.
\<close>

definition renaming :: "(int \<Rightarrow> int) \<Rightarrow> bool" where
  "renaming f \<longleftrightarrow> inj f \<and> (\<forall>w. \<not> (1 \<le> w \<and> w < 173) \<longrightarrow> f w = w)
                 \<and> (\<forall>w. 1 \<le> w \<and> w < 173 \<longrightarrow> 1 \<le> f w \<and> f w < 173)"

lemma renamingD:
  assumes "renaming f"
  shows "inj f" and "\<And>w. \<not> (1 \<le> w \<and> w < 173) \<Longrightarrow> f w = w"
    and "\<And>w. 1 \<le> w \<Longrightarrow> w < 173 \<Longrightarrow> 1 \<le> f w \<and> f w < 173"
    and "\<And>w. 256 \<le> f w \<longleftrightarrow> 256 \<le> w" and "\<And>w. f w < 256 \<longleftrightarrow> w < 256"
proof -
  from assms show i: "inj f" and o: "\<And>w. \<not> (1 \<le> w \<and> w < 173) \<Longrightarrow> f w = w"
    and r: "\<And>w. 1 \<le> w \<Longrightarrow> w < 173 \<Longrightarrow> 1 \<le> f w \<and> f w < 173"
    unfolding renaming_def by blast+
  show g: "256 \<le> f w \<longleftrightarrow> 256 \<le> w" for w
  proof (cases "1 \<le> w \<and> w < 173")
    case True
    with r [of w] show ?thesis by simp
  next
    case False
    with o [of w] show ?thesis by simp
  qed
  show "f w < 256 \<longleftrightarrow> w < 256" for w using g [of w] by linarith
qed

lemma build_node_tree_interleaved:
  assumes "std_sort srt"
  shows "\<exists>f. renaming f
           \<and> build_node_list srt interleaved_input = map (relabel f) overflow_list
           \<and> build_node_tree srt interleaved_input = Inr (map (relabel f) overflow_tree)"
proof -
  from build_node_list_interleaved [OF assms] obtain f where r: "renaming f"
    and l: "build_node_list srt interleaved_input = map (relabel f) overflow_list"
    unfolding renaming_def by blast
  obtain t where Inr: "merge_nodes overflow_list [] 256 = Inr t"
    and tr: "overflow_tree = link_parents t"
    by (rule overflow_merged)
  have "\<forall>w \<ge> 256. f w = w" using renamingD(2) [OF r] by simp
  from merge_nodes_relabel [OF this, of overflow_list "[]" t] Inr
  have "merge_nodes (map (relabel f) overflow_list) [] 256 = Inr (map (relabel f) t)" by simp
  then have "build_node_tree srt interleaved_input = Inr (link_parents (map (relabel f) t))"
    by (simp only: build_node_tree_def l sum.case)
  then have "build_node_tree srt interleaved_input = Inr (map (relabel f) overflow_tree)"
    unfolding link_parents_relabel [OF renamingD(1) [OF r]] tr .
  with r l show ?thesis by blast
qed

text \<open>What a renamed tree shares with the tree it is made from.\<close>

lemma relabel_tree:
  assumes "renaming f" and "i < length t"
  shows "child_distance (map (relabel f) t) i (left (map (relabel f) t ! i))
           = child_distance t i (left (t ! i))"
    and "child_distance (map (relabel f) t) i (right (map (relabel f) t ! i))
           = child_distance t i (right (t ! i))"
    and "child (map (relabel f) t) i b = child t i b"
    and "exact (map (relabel f) t) i \<longleftrightarrow> exact t i"
    and "256 \<le> val (map (relabel f) t ! i) \<longleftrightarrow> 256 \<le> val (t ! i)"
    and "val (map (relabel f) t ! i) = f (val (t ! i))"
proof -
  note inj = renamingD(1) [OF assms(1)]
  show l: "child_distance (map (relabel f) t) i (left (map (relabel f) t ! i))
           = child_distance t i (left (t ! i))"
    using assms(2) by (simp add: child_distance_relabel [OF inj])
  show r: "child_distance (map (relabel f) t) i (right (map (relabel f) t ! i))
           = child_distance t i (right (t ! i))"
    using assms(2) by (simp add: child_distance_relabel [OF inj])
  show "child (map (relabel f) t) i b = child t i b"
    unfolding child_def using l r by (cases b) simp_all
  show "exact (map (relabel f) t) i \<longleftrightarrow> exact t i"
    unfolding exact_def l r ..
  show "256 \<le> val (map (relabel f) t ! i) \<longleftrightarrow> 256 \<le> val (t ! i)"
    using assms(2) by (simp add: renamingD(4) [OF assms(1)])
  show "val (map (relabel f) t ! i) = f (val (t ! i))"
    using assms(2) by simp
qed

section \<open>The table walk, step by step\<close>

text \<open>
  The body of the \<open>do ... while\<close> loop of \<open>decoder::get_next\<close>, run once: from the table
  position \<open>node\<close>, with the payload position \<open>mdata\<close>, the byte \<open>data\<close> read there and the
  mask \<open>bt\<close>, to the next table position, payload position, byte and mask.  The loop runs
  the body again while the left offset of the entry reached is not 0.
\<close>

definition table_step ::
  "byte list \<Rightarrow> nat \<Rightarrow> nat \<Rightarrow> byte \<Rightarrow> byte \<Rightarrow> (nat \<times> nat \<times> byte \<times> byte) res" where
  "table_step cd node mdata data bt =
     (if node + (if data AND bt \<noteq> 0 then 2 else 1) \<ge> length cd then oob
      else
        let node' = node + unat (cd ! (node + (if data AND bt \<noteq> 0 then 2 else 1))) * 3
        in if drop_bit 1 bt = 0 then
             (if mdata + 1 \<ge> length cd then oob
              else if node' + 1 \<ge> length cd then oob
              else ok (node', mdata + 1, cd ! (mdata + 1), 0x80))
           else
             (if node' + 1 \<ge> length cd then oob
              else ok (node', mdata, data, drop_bit 1 bt)))"

lemma table_walk_unfold:
  "table_walk cd node mdata data bt =
     bind_res (table_step cd node mdata data bt) (\<lambda>(node', mdata', data', bt').
       if cd ! (node' + 1) \<noteq> 0 then table_walk cd node' mdata' data' bt'
       else ok (node', mdata', bt'))"
  by (subst table_walk.simps) (simp add: table_step_def Let_def bind_res_def)

text \<open>
  The table positions that the loop reaches, in order, for at most \<open>n\<close> runs of the body.
\<close>

fun walk_nodes :: "byte list \<Rightarrow> nat \<Rightarrow> nat \<Rightarrow> nat \<Rightarrow> byte \<Rightarrow> byte \<Rightarrow> nat list" where
  "walk_nodes cd 0 node mdata data bt = []"
| "walk_nodes cd (Suc n) node mdata data bt =
     (case table_step cd node mdata data bt of
        Some (Inr (node', mdata', data', bt')) \<Rightarrow>
          node' # (if cd ! (node' + 1) \<noteq> 0 then walk_nodes cd n node' mdata' data' bt' else [])
      | _ \<Rightarrow> [])"

text \<open>
  \<open>get_next\<close> with the positions that its loop reaches in place of the decoder it leaves:
  none when the decoder stands at the end or the object is in fallback mode.
\<close>

definition get_next_nodes ::
  "(node list \<Rightarrow> node list) \<Rightarrow> byte list \<Rightarrow> byte list \<Rightarrow> nat \<Rightarrow> decoder \<Rightarrow> nat list res" where
  "get_next_nodes srt raw_data cd n d =
     bind_res (compressed_size_info srt raw_data) (\<lambda>(first, bits).
       bind_res (decoder_end srt raw_data (m_table d - nat first)) (\<lambda>e.
         if m_data d = m_data e \<and> m_bit d = m_bit e then ok []
         else
           bind_res (bytes_saved srt raw_data) (\<lambda>saved.
             if saved > 0 then
               (if m_data d \<ge> length cd then oob
                else ok (walk_nodes cd n (m_table d) (m_data d) (cd ! m_data d) (m_bit d)))
             else ok [])))"

lemma table_step_entry:
  assumes "holds_table cd B tr" and "i < length tr" and "c < length tr"
    and "q div 8 + 1 < length cd"
    and "getbit cd q = b"
    and "i + unat (decode_entry tr i ! (if b then 2 else 1)) = c"
  shows "table_step cd (B + 3 * i) (q div 8) (cd ! (q div 8)) (bit_mask q)
           = ok (B + 3 * c, (q + 1) div 8, cd ! ((q + 1) div 8), bit_mask (q + 1))"
proof -
  define idx :: nat where "idx = (if b then 2 else 1)"
  have idx3: "idx < 3" by (simp add: idx_def)
  have t: "(cd ! (q div 8) AND bit_mask q \<noteq> 0) = b"
    unfolding assms(5) [symmetric] by (rule and_bit_mask_getbit)
  note e = table_entry [OF assms(1,2) idx3]
  have n': "B + 3 * i + unat (cd ! (B + 3 * i + idx)) * 3 = B + 3 * c"
    unfolding e(1) using assms(6) by (simp add: idx_def)
  have one3: "(1 :: nat) < 3" by simp
  note e1 = table_entry [OF assms(1,3) one3]
  have l1: "\<not> length cd \<le> B + 3 * i + idx" using e(2) by simp
  have l2: "\<not> length cd \<le> B + 3 * c + 1" using e1(2) by simp
  have l3: "\<not> length cd \<le> q div 8 + 1" using assms(4) by simp
  show ?thesis
  proof (cases "q mod 8 = 7")
    case True
    note w = bit_mask_wrap [OF True]
    show ?thesis
      unfolding table_step_def
      apply (simp only: t idx_def [symmetric] l1 if_False Let_def n' drop_bit_mask True if_True
          refl l3 l2)
      apply (use w in simp)
      done
  next
    case False
    note w = bit_mask_same_byte [OF False]
    show ?thesis
      unfolding table_step_def
      apply (simp only: t idx_def [symmetric] l1 if_False Let_def n' drop_bit_mask False
          bit_mask_nonzero l2)
      apply (use w in simp)
      done
  qed
qed

subsection \<open>Paths on which the distances fit a byte\<close>

text \<open>
  \<open>epath tr i bs j\<close>: reading the bits \<open>bs\<close> from node \<open>i\<close> leads to node \<open>j\<close>, every
  node left on the way is an internal node, and its two distances are below 256.
\<close>

fun epath :: "node list \<Rightarrow> nat \<Rightarrow> bool list \<Rightarrow> nat \<Rightarrow> bool" where
  "epath tr i [] j \<longleftrightarrow> i = j"
| "epath tr i (b # bs) j \<longleftrightarrow>
     i < length tr \<and> 256 \<le> val (tr ! i) \<and> exact tr i \<and> epath tr (child tr i b) bs j"

lemma epath_append:
  "epath tr i xs k \<Longrightarrow> epath tr k ys j \<Longrightarrow> epath tr i (xs @ ys) j"
  by (induction xs arbitrary: i) simp_all

lemma stored_exact:
  assumes "exact tr i"
  shows "i + unat (decode_entry tr i ! (if b then 2 else 1)) = child tr i b"
  using assms by (simp add: exact_def decode_entry_nth unat_byte_of_nat child_def)

lemma entry_exact_internal:
  assumes "tree_ok tr" and "i < length tr" and "256 \<le> val (tr ! i)" and "exact tr i"
  shows "decode_entry tr i ! 1 \<noteq> 0"
proof
  assume "decode_entry tr i ! 1 = 0"
  then have "unat (word_of_nat (child_distance tr i (left (tr ! i))) :: byte) = 0"
    by (simp add: decode_entry_nth)
  then have "child_distance tr i (left (tr ! i)) = 0"
    using assms(4) by (simp add: exact_def unat_byte_of_nat)
  with child_distance_internal(1) [OF assms(1-3)] show False by simp
qed

lemma entry_leaf:
  assumes "tree_ok tr" and "i < length tr" and "val (tr ! i) < 256"
  shows "decode_entry tr i ! 1 = 0" and "decode_entry tr i ! 0 = word_of_int (val (tr ! i))"
  using child_distance_leaf(1) [OF assms] assms(3) by (simp_all add: decode_entry_nth)

text \<open>
  A path to node \<open>j\<close> that does not pass through node \<open>e\<close> is such a path when \<open>e\<close> is the
  only node with a distance of 256 or more; it does not pass through \<open>e\<close> when the
  children of \<open>e\<close> are leaves other than \<open>j\<close>.
\<close>

lemma path_epath:
  assumes "\<forall>k < length tr. k \<noteq> e \<longrightarrow> exact tr k"
    and "val (tr ! child tr e False) < 256" and "val (tr ! child tr e True) < 256"
    and "j \<noteq> child tr e False" and "j \<noteq> child tr e True"
  shows "path tr i bs j \<Longrightarrow> epath tr i bs j"
proof (induction bs arbitrary: i)
  case Nil
  then show ?case by simp
next
  case (Cons b bs)
  from Cons.prems have il: "i < length tr" and iv: "256 \<le> val (tr ! i)"
    and p: "path tr (child tr i b) bs j" by simp_all
  have ne: "i \<noteq> e"
  proof
    assume ie: "i = e"
    have leaf: "val (tr ! child tr e b) < 256" using assms(2,3) by (cases b) simp_all
    show False
    proof (cases bs)
      case Nil
      with p ie have "j = child tr e b" by simp
      with assms(4,5) show False by (cases b) simp_all
    next
      case (Cons b' bs')
      with p ie have "256 \<le> val (tr ! child tr e b)" by simp
      with leaf show False by simp
    qed
  qed
  with assms(1) il have "exact tr i" by blast
  with il iv Cons.IH [OF p] show ?case by simp
qed

subsection \<open>The table walk along such a path\<close>

lemma table_walk_epath:
  assumes "tree_ok tr" and "holds_table cd B tr"
  shows "epath tr i bs j \<Longrightarrow> bs \<noteq> [] \<Longrightarrow> (\<forall>m < length bs. getbit cd (q + m) = bs ! m) \<Longrightarrow>
         (q + length bs) div 8 + 1 \<le> B \<Longrightarrow>
         table_walk cd (B + 3 * i) (q div 8) (cd ! (q div 8)) (bit_mask q)
           = (if cd ! (B + 3 * j + 1) \<noteq> 0
              then table_walk cd (B + 3 * j) ((q + length bs) div 8)
                     (cd ! ((q + length bs) div 8)) (bit_mask (q + length bs))
              else ok (B + 3 * j, (q + length bs) div 8, bit_mask (q + length bs)))"
proof (induction bs arbitrary: i q)
  case Nil
  then show ?case by simp
next
  case (Cons b bs)
  from Cons.prems(1) have il: "i < length tr" and iv: "256 \<le> val (tr ! i)"
    and ex: "exact tr i" and p: "epath tr (child tr i b) bs j" by simp_all
  define c where "c = child tr i b"
  note cb = child_bounds [OF assms(1) il iv, of b, folded c_def]
  have g: "getbit cd q = b" using Cons.prems(3) by auto
  have "q div 8 \<le> (q + length (b # bs)) div 8" by (rule div_le_mono) simp
  with Cons.prems(4) assms(2) il have ql: "q div 8 + 1 < length cd"
    unfolding holds_table_def by simp
  have st: "table_step cd (B + 3 * i) (q div 8) (cd ! (q div 8)) (bit_mask q)
              = ok (B + 3 * c, (q + 1) div 8, cd ! ((q + 1) div 8), bit_mask (q + 1))"
    by (rule table_step_entry [OF assms(2) il cb(2) ql g stored_exact [OF ex, of b, folded c_def]])
  have u: "table_walk cd (B + 3 * i) (q div 8) (cd ! (q div 8)) (bit_mask q)
         = (if cd ! (B + 3 * c + 1) \<noteq> 0
            then table_walk cd (B + 3 * c) ((q + 1) div 8) (cd ! ((q + 1) div 8)) (bit_mask (q + 1))
            else ok (B + 3 * c, (q + 1) div 8, bit_mask (q + 1)))"
    by (subst table_walk_unfold) (simp add: st)
  show ?case
  proof (cases "bs = []")
    case True
    with p have "c = j" by (simp add: c_def)
    with u True show ?thesis by simp
  next
    case False
    then obtain b' bs' where bs: "bs = b' # bs'" by (cases bs) auto
    with p have cv: "256 \<le> val (tr ! c)" and cex: "exact tr c" by (simp_all add: c_def)
    have one3: "(1 :: nat) < 3" by simp
    have nz: "cd ! (B + 3 * c + 1) \<noteq> 0"
      unfolding table_entry(1) [OF assms(2) cb(2) one3]
      by (rule entry_exact_internal [OF assms(1) cb(2) cv cex])
    have "table_walk cd (B + 3 * c) ((q + 1) div 8) (cd ! ((q + 1) div 8)) (bit_mask (q + 1))
            = (if cd ! (B + 3 * j + 1) \<noteq> 0
               then table_walk cd (B + 3 * j) ((q + 1 + length bs) div 8)
                      (cd ! ((q + 1 + length bs) div 8)) (bit_mask (q + 1 + length bs))
               else ok (B + 3 * j, (q + 1 + length bs) div 8, bit_mask (q + 1 + length bs)))"
    proof (rule Cons.IH [OF p [folded c_def] False])
      show "\<forall>m < length bs. getbit cd (q + 1 + m) = bs ! m"
      proof (intro allI impI)
        fix m assume "m < length bs"
        then have "Suc m < length (b # bs)" by simp
        with Cons.prems(3) have "getbit cd (q + Suc m) = (b # bs) ! Suc m" by blast
        then show "getbit cd (q + 1 + m) = bs ! m" by simp
      qed
      show "(q + 1 + length bs) div 8 + 1 \<le> B" using Cons.prems(4) by simp
    qed
    with u nz show ?thesis by simp
  qed
qed

subsection \<open>The decoder of an object in compressed mode, for a tree of any size\<close>

definition packed_object ::
  "(node list \<Rightarrow> node list) \<Rightarrow> byte list \<Rightarrow> node list \<Rightarrow> byte list \<Rightarrow> bool" where
  "packed_object srt data tr cd \<longleftrightarrow>
     std_sort srt \<and> build_node_tree srt data = Inr tr
   \<and> (\<exists>s. bytes_saved srt data = ok s \<and> 0 < s)
   \<and> huffman_compressor srt data = ok cd"

lemma packed_objectD:
  assumes "packed_object srt data tr cd"
  shows "std_sort srt" and "build_node_tree srt data = Inr tr"
    and "tree_ok tr"
    and "\<forall>c \<in> set data. \<exists>j < length tr. val (tr ! j) = uint c"
    and "compressed_size_info srt data
           = ok (int (length (codes tr data)) div 8 + 1, int (length (codes tr data)) mod 8)"
    and "\<exists>s. bytes_saved srt data = ok s \<and> 0 < s"
    and "holds_table cd (payload_bytes tr data) tr"
    and "\<And>q. q < length (codes tr data) \<Longrightarrow> getbit cd q = codes tr data ! q"
proof -
  from assms show s: "std_sort srt" and b: "build_node_tree srt data = Inr tr"
    and bs: "\<exists>s. bytes_saved srt data = ok s \<and> 0 < s"
    unfolding packed_object_def by blast+
  from assms have hc: "huffman_compressor srt data = ok cd"
    unfolding packed_object_def by blast
  show "tree_ok tr" and "\<forall>c \<in> set data. \<exists>j < length tr. val (tr ! j) = uint c"
    and "compressed_size_info srt data
           = ok (int (length (codes tr data)) div 8 + 1, int (length (codes tr data)) mod 8)"
    by (rule build_facts [OF s b])+
  from hc have ne: "data \<noteq> []" by (auto simp: huffman_compressor_def)
  from bs obtain sv where sv: "bytes_saved srt data = ok sv" "0 < sv" by blast
  from huffman_compressor_array [OF s ne sv b] hc
  have a: "length cd = payload_bytes tr data + 3 * length tr
           \<and> (\<forall>q < length (codes tr data). getbit cd q = codes tr data ! q)
           \<and> (\<forall>i < 3 * length tr. cd ! (payload_bytes tr data + i) = decode_table tr ! i)"
    by auto
  then show "holds_table cd (payload_bytes tr data) tr" unfolding holds_table_def by blast
  from a show "\<And>q. q < length (codes tr data) \<Longrightarrow> getbit cd q = codes tr data ! q" by blast
qed

lemma decoder_end_packed:
  assumes "packed_object srt data tr cd"
  shows "decoder_end srt data 0 = ok (at_bit 0 (length (codes tr data)) (- 1))"
proof -
  note d = packed_objectD [OF assms]
  from d(6) obtain s where s: "bytes_saved srt data = ok s" "0 < s" by blast
  define tb where "tb = length (codes tr data)"
  have 1: "nat (int tb div 8) = tb div 8" by (simp add: nat_div_distrib)
  have "int tb mod 8 = int (tb mod 8)" by (simp add: zmod_int)
  then have 2: "nat (7 - int tb mod 8) = 7 - tb mod 8" by simp
  have 3: "\<not> int tb div 8 < 0" by (simp add: div_int_pos_iff)
  show ?thesis
    using s(2) 3 by (simp add: decoder_end_def s(1) d(5) tb_def [symmetric] at_bit_def bit_mask_def 1 2)
qed

text \<open>A decoder that stands before the end of the payload walks the table.\<close>

lemma get_next_at:
  assumes "packed_object srt data tr cd" and "q < length (codes tr data)"
  shows "get_next srt data cd (at_bit (payload_bytes tr data) q x)
           = bind_res (table_walk cd (payload_bytes tr data) (q div 8) (cd ! (q div 8)) (bit_mask q))
               (\<lambda>(node, mdata, bt).
                  ok \<lparr>m_data = mdata, m_table = payload_bytes tr data, m_bit = bt,
                      m_current = uint (cd ! node)\<rparr>)"
    and "get_next_nodes srt data cd n (at_bit (payload_bytes tr data) q x)
           = ok (walk_nodes cd n (payload_bytes tr data) (q div 8) (cd ! (q div 8)) (bit_mask q))"
proof -
  note d = packed_objectD [OF assms(1)]
  from d(6) obtain s where s: "bytes_saved srt data = ok s" "0 < s" by blast
  define B where "B = payload_bytes tr data"
  define tb where "tb = length (codes tr data)"
  have qtb: "q < tb" using assms(2) by (simp add: tb_def)
  have neq: "\<not> (q div 8 = tb div 8 \<and> bit_mask q = bit_mask tb)"
    unfolding position_eq_iff using qtb by simp
  have Bdef: "B = tb div 8 + 1" by (simp add: B_def tb_def payload_bytes_def)
  have lcd: "length cd = B + 3 * length tr" using d(7) by (simp add: holds_table_def B_def)
  have "q div 8 \<le> tb div 8" using qtb by (intro div_le_mono) simp
  then have ql: "\<not> length cd \<le> q div 8" using lcd Bdef by simp
  have e: "decoder_end srt data 0 = ok (at_bit 0 tb (- 1))"
    using decoder_end_packed [OF assms(1)] by (simp add: tb_def)
  have r: "(\<lambda>(node, mdata, bt). ok (at_bit B q x\<lparr>m_data := mdata, m_bit := bt, m_current := uint (cd ! node)\<rparr>))
         = (\<lambda>(node, mdata, bt). ok \<lparr>m_data = mdata, m_table = B, m_bit = bt, m_current = uint (cd ! node)\<rparr>)"
    by (simp add: at_bit_def fun_eq_iff)
  show "get_next srt data cd (at_bit (payload_bytes tr data) q x)
           = bind_res (table_walk cd (payload_bytes tr data) (q div 8) (cd ! (q div 8)) (bit_mask q))
               (\<lambda>(node, mdata, bt).
                  ok \<lparr>m_data = mdata, m_table = payload_bytes tr data, m_bit = bt,
                      m_current = uint (cd ! node)\<rparr>)"
    unfolding B_def [symmetric] r [symmetric]
    using neq ql s(2)
    by (auto simp: get_next_def d(5) nat_first B_def [symmetric] e s(1))
  show "get_next_nodes srt data cd n (at_bit (payload_bytes tr data) q x)
           = ok (walk_nodes cd n (payload_bytes tr data) (q div 8) (cd ! (q div 8)) (bit_mask q))"
    unfolding B_def [symmetric]
    using neq ql s(2)
    by (auto simp: get_next_nodes_def d(5) nat_first B_def [symmetric] e s(1))
qed

text \<open>
  The step for a byte of the data whose code is such a path: the decoder moves to the end
  of the code and holds the byte.
\<close>

lemma get_next_epath:
  assumes "packed_object srt data tr cd" and "data = pre @ c # rest"
    and "epath tr 0 (code_of tr c) (find_if (\<lambda>n. val n = uint c) tr)"
  shows "get_next srt data cd (at_bit (payload_bytes tr data) (length (codes tr pre)) x)
           = ok (at_bit (payload_bytes tr data) (length (codes tr (pre @ [c]))) (uint c))"
proof -
  note d = packed_objectD [OF assms(1)]
  define B where "B = payload_bytes tr data"
  define tb where "tb = length (codes tr data)"
  define q where "q = length (codes tr pre)"
  define j where "j = find_if (\<lambda>n. val n = uint c) tr"
  have "\<exists>j < length tr. val (tr ! j) = uint c" using d(4) assms(2) by simp
  note cp = code_path [OF d(3) this, folded j_def]
  have tb: "tb = q + length (code_of tr c) + length (codes tr rest)"
    by (simp add: tb_def q_def assms(2))
  have q': "length (codes tr (pre @ [c])) = q + length (code_of tr c)" by (simp add: q_def)
  have qtb: "q < length (codes tr data)" using cp(4) tb by (simp add: tb_def)
  have Bdef: "B = tb div 8 + 1" by (simp add: B_def tb_def payload_bytes_def)
  have bits: "\<forall>m < length (code_of tr c). getbit cd (q + m) = code_of tr c ! m"
  proof (intro allI impI)
    fix m assume m: "m < length (code_of tr c)"
    then have "q + m < length (codes tr data)" using tb by (simp add: tb_def)
    from d(8) [OF this] have "getbit cd (q + m) = codes tr data ! (q + m)" .
    also have "\<dots> = code_of tr c ! m" using m by (simp add: assms(2) q_def nth_append)
    finally show "getbit cd (q + m) = code_of tr c ! m" .
  qed
  have "(q + length (code_of tr c)) div 8 \<le> tb div 8" using tb by (intro div_le_mono) simp
  then have bound: "(q + length (code_of tr c)) div 8 + 1 \<le> B" using Bdef by simp
  have jleaf: "val (tr ! j) < 256" using cp(2) uint_lt2p [of c] by simp
  note el = entry_leaf [OF d(3) cp(1) jleaf]
  have one3: "(1 :: nat) < 3" and zero3: "(0 :: nat) < 3" by simp_all
  have z: "cd ! (B + 3 * j + 1) = 0"
    unfolding table_entry(1) [OF d(7) [folded B_def] cp(1) one3] by (rule el(1))
  have w: "table_walk cd B (q div 8) (cd ! (q div 8)) (bit_mask q)
             = ok (B + 3 * j, (q + length (code_of tr c)) div 8, bit_mask (q + length (code_of tr c)))"
    using table_walk_epath [OF d(3) d(7) [folded B_def] assms(3) [folded j_def] cp(4) bits bound] z
    by simp
  have "cd ! (B + 3 * j + 0) = decode_entry tr j ! 0"
    by (rule table_entry(1) [OF d(7) [folded B_def] cp(1) zero3])
  also have "\<dots> = word_of_int (uint c)" unfolding el(2) cp(2) ..
  finally have sym: "cd ! (B + 3 * j) = c" by simp
  show ?thesis
    unfolding get_next_at(1) [OF assms(1) qtb, folded q_def B_def] w q' [folded q_def] B_def [symmetric]
      q_def [symmetric]
    by (simp add: sym at_bit_def)
qed

lemma uint_byte_of_int:
  assumes "0 \<le> k" and "k < 256"
  shows "uint (word_of_int k :: byte) = k"
  using assms by (simp add: uint_word_of_int take_bit_int_eq_self)

subsection \<open>The tree of 345 nodes with its values renamed\<close>

lemma overflow_children:
  "child overflow_tree 0 False = 2" "child overflow_tree 0 True = 1"
  "child overflow_tree 2 True = 3" "child overflow_tree 3 False = 6"
  "child overflow_tree 6 True = 11" "child overflow_tree 11 True = 21"
  "child overflow_tree 21 True = 23" "child overflow_tree 23 False = 86"
  "child overflow_tree 86 True = 87" "child overflow_tree 87 False = 344"
  "child overflow_tree 87 True = 343" "child overflow_tree 88 True = 341"
  using overflow_tree(6) by (simp_all add: child_def)

lemma overflow_internal:
  assumes "i \<in> {0, 2, 3, 6, 11, 21, 23, 86, 87, 88}"
  shows "256 \<le> val (overflow_tree ! i)"
proof (rule ccontr)
  assume "\<not> 256 \<le> val (overflow_tree ! i)"
  then have l: "val (overflow_tree ! i) < 256" by simp
  have "i < length overflow_tree" using assms by (auto simp: overflow_tree(2))
  from child_distance_leaf(1) [OF overflow_tree(3) this l] overflow_tree(6) assms
  show False by auto
qed

lemma overflow_leaves:
  "val (overflow_tree ! 343) = 2" "val (overflow_tree ! 344) = 1"
  "find_if (\<lambda>n. val n = 2) overflow_tree = 343" "find_if (\<lambda>n. val n = 1) overflow_tree = 344"
  "find_if (\<lambda>n. val n = 0) overflow_tree = 1"
proof -
  obtain t where Inr: "merge_nodes overflow_list [] 256 = Inr t"
    and tr: "overflow_tree = link_parents t" and len: "length t = 345"
    by (rule overflow_merged)
  note m = overflow_merge [unfolded Inr sum.case]
  from m have f2: "map (\<lambda>i. (val (t ! i), left (t ! i), right (t ! i))) [0, 1, 87, 341, 343, 344]
           = [(427, 426, 0), (0, - 1, - 1), (256, 1, 2), (4, - 1, - 1), (2, - 1, - 1), (1, - 1, - 1)]"
    and f6: "find_if (\<lambda>n. val n = 2) t = 343" "find_if (\<lambda>n. val n = 1) t = 344"
    by blast+
  show "val (overflow_tree ! 343) = 2" "val (overflow_tree ! 344) = 1"
    unfolding tr using f2 by (simp_all add: link_parents_fields len)
  show "find_if (\<lambda>n. val n = 2) overflow_tree = 343"
    unfolding tr using f6(1) find_value_cong [OF map_val_link_parents, of 2 t] by simp
  show "find_if (\<lambda>n. val n = 1) overflow_tree = 344"
    unfolding tr using f6(2) find_value_cong [OF map_val_link_parents, of 1 t] by simp
  show "find_if (\<lambda>n. val n = 0) overflow_tree = 1"
  proof (rule find_if_eqI)
    show "1 < length overflow_tree" by (simp add: overflow_tree(2))
    show "val (overflow_tree ! 1) = 0" by (rule overflow_tree(10))
    fix j :: nat assume "j < 1"
    then have "j = 0" by simp
    with tree_okD(6) [OF overflow_tree(3)] show "val (overflow_tree ! j) \<noteq> 0" by simp
  qed
qed

lemma decode_entry_relabel:
  assumes "renaming f" and "i < length t"
  shows "decode_entry (map (relabel f) t) i ! 1 = decode_entry t i ! 1"
    and "decode_entry (map (relabel f) t) i ! 2 = decode_entry t i ! 2"
  unfolding decode_entry_nth relabel_tree(1,2) [OF assms] by (rule refl)+

text \<open>
  The tree for any order among the 172 symbols that occur once: \<open>f 1\<close> and \<open>f 2\<close> are the
  values that \<open>std::sort\<close> puts first and second.
\<close>

lemma renamed_tree:
  assumes "renaming f" and "tr = map (relabel f) overflow_tree"
  shows "length tr = 345"
    and "\<And>k. k < 345 \<Longrightarrow> k \<noteq> 87 \<Longrightarrow> exact tr k"
    and "\<And>i b. i < 345 \<Longrightarrow> child tr i b = child overflow_tree i b"
    and "\<And>i. i < 345 \<Longrightarrow> decode_entry tr i ! 1 = decode_entry overflow_tree i ! 1"
    and "\<And>i. i < 345 \<Longrightarrow> decode_entry tr i ! 2 = decode_entry overflow_tree i ! 2"
    and "\<And>i. i \<in> {0, 2, 3, 6, 11, 21, 23, 86, 87, 88} \<Longrightarrow> 256 \<le> val (tr ! i)"
    and "val (tr ! 343) = f 2" and "val (tr ! 344) = f 1" and "val (tr ! 1) = 0"
    and "val (tr ! 341) < 256"
    and "code_of tr 0 = [True]"
    and "code_of tr (word_of_int (f 2)) = [False, True, False, True, True, True, False, True, True]"
    and "code_of tr (word_of_int (f 1)) = [False, True, False, True, True, True, False, True, False]"
    and "find_if (\<lambda>n. val n = uint (0 :: byte)) tr = 1"
    and "1 \<le> f 1 \<and> f 1 < 173" and "1 \<le> f 2 \<and> f 2 < 173" and "f 1 \<noteq> f 2"
proof -
  note r = renamingD [OF assms(1)]
  note len = overflow_tree(2)
  show "length tr = 345" by (simp add: assms(2) len)
  show "exact tr k" if "k < 345" "k \<noteq> 87" for k
    unfolding assms(2) using relabel_tree(4) [OF assms(1), of k overflow_tree] that
    by (simp add: len overflow_tree_exact)
  show "child tr i b = child overflow_tree i b" if "i < 345" for i b
    unfolding assms(2) using that by (intro relabel_tree(3) [OF assms(1)]) (simp add: len)
  show "decode_entry tr i ! 1 = decode_entry overflow_tree i ! 1" if "i < 345" for i
    unfolding assms(2) using that by (intro decode_entry_relabel(1) [OF assms(1)]) (simp add: len)
  show "decode_entry tr i ! 2 = decode_entry overflow_tree i ! 2" if "i < 345" for i
    unfolding assms(2) using that by (intro decode_entry_relabel(2) [OF assms(1)]) (simp add: len)
  show "256 \<le> val (tr ! i)" if "i \<in> {0, 2, 3, 6, 11, 21, 23, 86, 87, 88}" for i
  proof -
    have "i < length overflow_tree" using that by (auto simp: len)
    from relabel_tree(5) [OF assms(1) this] overflow_internal [OF that]
    show ?thesis by (simp add: assms(2))
  qed
  have v: "val (tr ! i) = f (val (overflow_tree ! i))" if "i < 345" for i
    unfolding assms(2) using that by (intro relabel_tree(6) [OF assms(1)]) (simp add: len)
  show "val (tr ! 343) = f 2" and "val (tr ! 344) = f 1"
    by (simp_all add: v overflow_leaves)
  show "val (tr ! 1) = 0"
    using v [of 1] overflow_tree(10) by (simp add: r(2))
  show "val (tr ! 341) < 256" by (simp add: v overflow_tree(5) r(5))
  show f1: "1 \<le> f 1 \<and> f 1 < 173" and f2: "1 \<le> f 2 \<and> f 2 < 173"
    using r(3) [of 1] r(3) [of 2] by simp_all
  show "f 1 \<noteq> f 2" using inj_eq [OF r(1), of 1 2] by simp
  have "uint (0 :: byte) = f (uint (0 :: byte))" by (simp add: r(2))
  from code_of_relabel [OF r(1) this]
  show "code_of tr 0 = [True]" by (simp add: assms(2) overflow_tree(7))
  have "uint (word_of_int (f 2) :: byte) = f (uint (2 :: byte))"
    using f2 by (simp add: uint_byte_of_int)
  from code_of_relabel [OF r(1) this]
  show "code_of tr (word_of_int (f 2)) = [False, True, False, True, True, True, False, True, True]"
    by (simp add: assms(2) overflow_tree(8))
  have "uint (word_of_int (f 1) :: byte) = f (uint (1 :: byte))"
    using f1 by (simp add: uint_byte_of_int)
  from code_of_relabel [OF r(1) this]
  show "code_of tr (word_of_int (f 1)) = [False, True, False, True, True, True, False, True, False]"
    by (simp add: assms(2) overflow_tree(9))
  have "find_if (\<lambda>n. val n = f 0) (map (relabel f) overflow_tree) = find_if (\<lambda>n. val n = 0) overflow_tree"
    by (rule find_value_relabel [OF r(1)])
  then show "find_if (\<lambda>n. val n = uint (0 :: byte)) tr = 1"
    by (simp add: assms(2) r(2) overflow_leaves)
qed

subsection \<open>The table walk along the stored offsets\<close>

text \<open>
  \<open>stored_path tr i bs ns\<close>: reading the bits \<open>bs\<close> from entry \<open>i\<close> of the table of \<open>tr\<close>
  and adding the offsets that the entries hold leads through the entries \<open>ns\<close>, and the
  left offset of each of them but the last is not 0.
\<close>

fun stored_path :: "node list \<Rightarrow> nat \<Rightarrow> bool list \<Rightarrow> nat list \<Rightarrow> bool" where
  "stored_path tr i [] ns \<longleftrightarrow> ns = []"
| "stored_path tr i (b # bs) ns \<longleftrightarrow>
     (case ns of
        [] \<Rightarrow> False
      | c # ns' \<Rightarrow> i < length tr \<and> c < length tr
          \<and> i + unat (decode_entry tr i ! (if b then 2 else 1)) = c
          \<and> (bs \<noteq> [] \<longrightarrow> decode_entry tr c ! 1 \<noteq> 0)
          \<and> stored_path tr c bs ns')"

lemma walk_nodes_stored:
  assumes "holds_table cd B tr"
  shows "stored_path tr i bs ns \<Longrightarrow> (\<forall>m < length bs. getbit cd (q + m) = bs ! m) \<Longrightarrow>
         (q + length bs) div 8 + 1 \<le> B \<Longrightarrow>
         walk_nodes cd (length bs) (B + 3 * i) (q div 8) (cd ! (q div 8)) (bit_mask q)
           = map (\<lambda>c. B + 3 * c) ns"
proof (induction bs arbitrary: i q ns)
  case Nil
  then show ?case by simp
next
  case (Cons b bs)
  from Cons.prems(1) obtain c ns' where ns: "ns = c # ns'" by (cases ns) auto
  from Cons.prems(1) have il: "i < length tr" and cl: "c < length tr"
    and c: "i + unat (decode_entry tr i ! (if b then 2 else 1)) = c"
    and nz: "bs \<noteq> [] \<longrightarrow> decode_entry tr c ! 1 \<noteq> 0"
    and p: "stored_path tr c bs ns'"
    unfolding ns by simp_all
  have g: "getbit cd q = b" using Cons.prems(2) by auto
  have "q div 8 \<le> (q + length (b # bs)) div 8" by (rule div_le_mono) simp
  with Cons.prems(3) assms il have ql: "q div 8 + 1 < length cd"
    unfolding holds_table_def by simp
  note st = table_step_entry [OF assms il cl ql g c]
  have one3: "(1 :: nat) < 3" by simp
  note e = table_entry(1) [OF assms cl one3]
  show ?case
  proof (cases "bs = []")
    case True
    with p have "ns' = []" by simp
    with True show ?thesis by (simp add: st ns)
  next
    case False
    with nz have nz': "cd ! (B + 3 * c + 1) \<noteq> 0" unfolding e by simp
    have "walk_nodes cd (length bs) (B + 3 * c) ((q + 1) div 8) (cd ! ((q + 1) div 8)) (bit_mask (q + 1))
            = map (\<lambda>c. B + 3 * c) ns'"
    proof (rule Cons.IH [OF p])
      show "\<forall>m < length bs. getbit cd (q + 1 + m) = bs ! m"
      proof (intro allI impI)
        fix m assume "m < length bs"
        then have "Suc m < length (b # bs)" by simp
        with Cons.prems(2) have "getbit cd (q + Suc m) = (b # bs) ! Suc m" by blast
        then show "getbit cd (q + 1 + m) = bs ! m" by simp
      qed
      show "(q + 1 + length bs) div 8 + 1 \<le> B" using Cons.prems(3) by simp
    qed
    with nz' show ?thesis by (simp add: st ns)
  qed
qed

lemma table_walk_stored:
  assumes "holds_table cd B tr"
  shows "stored_path tr i bs ns \<Longrightarrow> bs \<noteq> [] \<Longrightarrow> decode_entry tr (last ns) ! 1 = 0 \<Longrightarrow>
         (\<forall>m < length bs. getbit cd (q + m) = bs ! m) \<Longrightarrow>
         (q + length bs) div 8 + 1 \<le> B \<Longrightarrow>
         table_walk cd (B + 3 * i) (q div 8) (cd ! (q div 8)) (bit_mask q)
           = ok (B + 3 * last ns, (q + length bs) div 8, bit_mask (q + length bs))"
proof (induction bs arbitrary: i q ns)
  case Nil
  then show ?case by simp
next
  case (Cons b bs)
  from Cons.prems(1) obtain c ns' where ns: "ns = c # ns'" by (cases ns) auto
  from Cons.prems(1) have il: "i < length tr" and cl: "c < length tr"
    and c: "i + unat (decode_entry tr i ! (if b then 2 else 1)) = c"
    and nz: "bs \<noteq> [] \<longrightarrow> decode_entry tr c ! 1 \<noteq> 0"
    and p: "stored_path tr c bs ns'"
    unfolding ns by simp_all
  have g: "getbit cd q = b" using Cons.prems(4) by auto
  have "q div 8 \<le> (q + length (b # bs)) div 8" by (rule div_le_mono) simp
  with Cons.prems(5) assms il have ql: "q div 8 + 1 < length cd"
    unfolding holds_table_def by simp
  note st = table_step_entry [OF assms il cl ql g c]
  have one3: "(1 :: nat) < 3" by simp
  note e = table_entry(1) [OF assms cl one3]
  have "table_walk cd (B + 3 * i) (q div 8) (cd ! (q div 8)) (bit_mask q)
         = (if cd ! (B + 3 * c + 1) \<noteq> 0
            then table_walk cd (B + 3 * c) ((q + 1) div 8) (cd ! ((q + 1) div 8)) (bit_mask (q + 1))
            else ok (B + 3 * c, (q + 1) div 8, bit_mask (q + 1)))"
    by (subst table_walk_unfold) (simp add: st)
  then have u: "table_walk cd (B + 3 * i) (q div 8) (cd ! (q div 8)) (bit_mask q)
         = (if decode_entry tr c ! 1 \<noteq> 0
            then table_walk cd (B + 3 * c) ((q + 1) div 8) (cd ! ((q + 1) div 8)) (bit_mask (q + 1))
            else ok (B + 3 * c, (q + 1) div 8, bit_mask (q + 1)))"
    unfolding e .
  show ?case
  proof (cases "bs = []")
    case True
    with p have "ns' = []" by simp
    with Cons.prems(3) have "decode_entry tr c ! 1 = 0" by (simp add: ns)
    with u True \<open>ns' = []\<close> show ?thesis by (simp add: ns)
  next
    case False
    with p have ne: "ns' \<noteq> []" by (cases bs) (auto split: list.splits)
    have "table_walk cd (B + 3 * c) ((q + 1) div 8) (cd ! ((q + 1) div 8)) (bit_mask (q + 1))
            = ok (B + 3 * last ns', (q + 1 + length bs) div 8, bit_mask (q + 1 + length bs))"
    proof (rule Cons.IH [OF p False])
      show "decode_entry tr (last ns') ! 1 = 0" using Cons.prems(3) ne by (simp add: ns)
      show "\<forall>m < length bs. getbit cd (q + 1 + m) = bs ! m"
      proof (intro allI impI)
        fix m assume "m < length bs"
        then have "Suc m < length (b # bs)" by simp
        with Cons.prems(4) have "getbit cd (q + Suc m) = (b # bs) ! Suc m" by blast
        then show "getbit cd (q + 1 + m) = bs ! m" by simp
      qed
      show "(q + 1 + length bs) div 8 + 1 \<le> B" using Cons.prems(5) by simp
    qed
    with u nz False ne show ?thesis by (simp add: ns)
  qed
qed

text \<open>The bits of the payload at the codes of a part of the data.\<close>

lemma payload_bits:
  assumes "packed_object srt data tr cd" and "data = pre @ mid @ rest"
  shows "\<forall>m < length (codes tr mid). getbit cd (length (codes tr pre) + m) = codes tr mid ! m"
    and "(length (codes tr pre) + length (codes tr mid)) div 8 + 1 \<le> payload_bytes tr data"
    and "codes tr mid \<noteq> [] \<Longrightarrow> length (codes tr pre) < length (codes tr data)"
proof -
  note d = packed_objectD [OF assms(1)]
  have tb: "length (codes tr data)
              = length (codes tr pre) + length (codes tr mid) + length (codes tr rest)"
    by (simp add: assms(2))
  show "\<forall>m < length (codes tr mid). getbit cd (length (codes tr pre) + m) = codes tr mid ! m"
  proof (intro allI impI)
    fix m assume m: "m < length (codes tr mid)"
    then have "length (codes tr pre) + m < length (codes tr data)" using tb by simp
    from d(8) [OF this]
    have "getbit cd (length (codes tr pre) + m) = codes tr data ! (length (codes tr pre) + m)" .
    also have "\<dots> = codes tr mid ! m" using m by (simp add: assms(2) nth_append)
    finally show "getbit cd (length (codes tr pre) + m) = codes tr mid ! m" .
  qed
  have "(length (codes tr pre) + length (codes tr mid)) div 8 \<le> length (codes tr data) div 8"
    using tb by (intro div_le_mono) simp
  then show "(length (codes tr pre) + length (codes tr mid)) div 8 + 1 \<le> payload_bytes tr data"
    by (simp add: payload_bytes_def)
  show "length (codes tr pre) < length (codes tr data)" if "codes tr mid \<noteq> []"
    using that tb by simp
qed

subsection \<open>The object of the input\<close>

text \<open>A byte \<open>0\<close> put after each byte of a list; the bytes \<open>1\<close>, \<dots>, \<open>172\<close>.\<close>

definition zero_after :: "byte list \<Rightarrow> byte list" where
  "zero_after cs = concat (map (\<lambda>c. [c, 0]) cs)"

definition light_bytes :: "byte list" where
  "light_bytes = map of_nat [1..<173]"

lemma zero_after_simps [simp]:
  "zero_after [] = []" "zero_after (c # cs) = c # 0 # zero_after cs"
  "zero_after (xs @ ys) = zero_after xs @ zero_after ys"
  by (simp_all add: zero_after_def)

lemma zero_after_split:
  assumes "j < length cs"
  shows "zero_after cs = zero_after (take j cs) @ cs ! j # 0 # zero_after (drop (Suc j) cs)"
    and "zero_after (take (Suc j) cs) = zero_after (take j cs) @ [cs ! j, 0]"
proof -
  have "zero_after cs = zero_after (take j cs @ cs ! j # drop (Suc j) cs)"
    using assms by (simp only: id_take_nth_drop [symmetric])
  then show "zero_after cs = zero_after (take j cs) @ cs ! j # 0 # zero_after (drop (Suc j) cs)"
    by simp
  show "zero_after (take (Suc j) cs) = zero_after (take j cs) @ [cs ! j, 0]"
    using assms by (simp add: take_Suc_conv_app_nth)
qed

lemma length_codes_zero_after:
  "length (codes tr (zero_after cs)) = length (codes tr cs) + length cs * length (code_of tr 0)"
  by (induction cs) simp_all

lemma light_bytes:
  shows "length light_bytes = 172"
    and "\<And>j. j < 172 \<Longrightarrow> light_bytes ! j = of_nat (j + 1)"
    and "interleaved_input = 0 # zero_after light_bytes @ replicate 9827 0"
    and "set light_bytes \<subseteq> set interleaved_input"
proof -
  show "length light_bytes = 172" by (simp add: light_bytes_def)
  show "light_bytes ! j = of_nat (j + 1)" if "j < 172" for j
    using that by (simp add: light_bytes_def)
  show i: "interleaved_input = 0 # zero_after light_bytes @ replicate 9827 0"
    by (simp add: interleaved_input_def zero_after_def light_bytes_def comp_def)
  have "set cs \<subseteq> set (zero_after cs)" for cs by (induction cs) auto
  then show "set light_bytes \<subseteq> set interleaved_input" unfolding i by auto
qed

lemma interleaved_object:
  assumes "std_sort srt"
  shows "\<exists>f tr cd. renaming f \<and> tr = map (relabel f) overflow_tree
           \<and> build_node_list srt interleaved_input = map (relabel f) overflow_list
           \<and> packed_object srt interleaved_input tr cd"
proof -
  from build_node_tree_interleaved [OF assms] obtain f where r: "renaming f"
    and l: "build_node_list srt interleaved_input = map (relabel f) overflow_list"
    and b: "build_node_tree srt interleaved_input = Inr (map (relabel f) overflow_tree)"
    by blast
  define tr where "tr = map (relabel f) overflow_tree"
  note b' = b [folded tr_def]
  note t = renamed_tree [OF r tr_def]
  note ok = build_facts(1) [OF assms b'] and lv = build_facts(3) [OF assms b']
  have "\<forall>c \<in> set light_bytes. \<exists>j < length tr. val (tr ! j) = uint c"
    using lv light_bytes(4) by blast
  from length_codes_le [OF ok this]
  have "length (codes tr light_bytes) \<le> 345 * 172" by (simp add: t(1) light_bytes(1))
  moreover have "length (codes tr interleaved_input)
          = 10000 + length (codes tr light_bytes)"
    unfolding light_bytes(3) codes_simps length_append length_codes_zero_after
      length_codes_replicate t(11)
    by (simp add: light_bytes(1))
  ultimately have "length (codes tr interleaved_input) \<le> 69340" by simp
  then have "length (codes tr interleaved_input) div 8 \<le> 69340 div 8" by (rule div_le_mono)
  then have p: "payload_bytes tr interleaved_input + 3 * length tr < length interleaved_input"
    by (simp add: payload_bytes_def t(1) length_interleaved_input)
  have len: "length interleaved_input < 2 ^ 50" by (simp add: length_interleaved_input)
  note s = compressed_mode_saved [OF assms len b' p]
  have ne: "interleaved_input \<noteq> []" by (simp add: interleaved_input_def)
  from huffman_compressor_array [OF assms ne s b']
  obtain cd where "huffman_compressor srt interleaved_input = ok cd" by blast
  with assms b' s have "packed_object srt interleaved_input tr cd"
    unfolding packed_object_def by blast
  with r l tr_def show ?thesis by blast
qed

subsection \<open>The steps of the decoder\<close>

text \<open>
  The entries of the table of the renamed tree on the way from the root to node 87, and
  those reached from there.
\<close>

lemma renamed_entries:
  assumes "renaming f" and "tr = map (relabel f) overflow_tree"
  shows "decode_entry tr 0 ! 1 = 2" "decode_entry tr 0 ! 2 = 1"
    "decode_entry tr 2 ! 1 = 2" "decode_entry tr 2 ! 2 = 1"
    "decode_entry tr 3 ! 1 = 3" "decode_entry tr 3 ! 2 = 2"
    "decode_entry tr 6 ! 1 = 6" "decode_entry tr 6 ! 2 = 5"
    "decode_entry tr 11 ! 1 = 11" "decode_entry tr 11 ! 2 = 10"
    "decode_entry tr 21 ! 1 = 3" "decode_entry tr 21 ! 2 = 2"
    "decode_entry tr 23 ! 1 = 63" "decode_entry tr 23 ! 2 = 62"
    "decode_entry tr 86 ! 1 = 2" "decode_entry tr 86 ! 2 = 1"
    "decode_entry tr 87 ! 1 = 1" "decode_entry tr 87 ! 2 = 0"
    "decode_entry tr 88 ! 1 = 254" "decode_entry tr 88 ! 2 = 253"
    "decode_entry tr 341 ! 1 = 0"
proof -
  note t = renamed_tree(4,5) [OF assms]
  show "decode_entry tr 0 ! 1 = 2" "decode_entry tr 0 ! 2 = 1"
    "decode_entry tr 2 ! 1 = 2" "decode_entry tr 2 ! 2 = 1"
    "decode_entry tr 3 ! 1 = 3" "decode_entry tr 3 ! 2 = 2"
    "decode_entry tr 6 ! 1 = 6" "decode_entry tr 6 ! 2 = 5"
    "decode_entry tr 11 ! 1 = 11" "decode_entry tr 11 ! 2 = 10"
    "decode_entry tr 21 ! 1 = 3" "decode_entry tr 21 ! 2 = 2"
    "decode_entry tr 23 ! 1 = 63" "decode_entry tr 23 ! 2 = 62"
    "decode_entry tr 86 ! 1 = 2" "decode_entry tr 86 ! 2 = 1"
    "decode_entry tr 87 ! 1 = 1" "decode_entry tr 87 ! 2 = 0"
    "decode_entry tr 88 ! 1 = 254" "decode_entry tr 88 ! 2 = 253"
    "decode_entry tr 341 ! 1 = 0"
    using t(1) [of 0] t(2) [of 0] t(1) [of 2] t(2) [of 2] t(1) [of 3] t(2) [of 3]
      t(1) [of 6] t(2) [of 6] t(1) [of 11] t(2) [of 11] t(1) [of 21] t(2) [of 21]
      t(1) [of 23] t(2) [of 23] t(1) [of 86] t(2) [of 86] t(1) [of 87] t(2) [of 87]
      t(1) [of 88] t(2) [of 88] t(1) [of 341] overflow_entries
    by simp_all
qed

lemma renamed_stored_paths:
  assumes "renaming f" and "tr = map (relabel f) overflow_tree"
  shows "stored_path tr 0 [False, True, False, True, True, True, False, True, True]
           [2, 3, 6, 11, 21, 23, 86, 87, 87]"
    and "stored_path tr 0 [False, True, False, True, True, True, False, True, False, True]
           [2, 3, 6, 11, 21, 23, 86, 87, 88, 341]"
  using renamed_entries [OF assms] by (simp_all add: renamed_tree(1) [OF assms])

text \<open>A symbol that \<open>std::sort\<close> does not put first or second: the step decodes it.\<close>

lemma step_light:
  assumes "renaming f" and "tr = map (relabel f) overflow_tree"
    and "packed_object srt data tr cd" and "data = pre @ c # rest"
    and "uint c \<noteq> f 1" and "uint c \<noteq> f 2"
  shows "get_next srt data cd (at_bit (payload_bytes tr data) (length (codes tr pre)) v)
           = ok (at_bit (payload_bytes tr data) (length (codes tr (pre @ [c]))) (uint c))"
proof -
  note t = renamed_tree [OF assms(1,2)] and d = packed_objectD [OF assms(3)]
  define j where "j = find_if (\<lambda>n. val n = uint c) tr"
  have "\<exists>j < length tr. val (tr ! j) = uint c" using d(4) assms(4) by simp
  note cp = code_path [OF d(3) this, folded j_def]
  have c87: "child tr 87 False = 344" "child tr 87 True = 343"
    using t(3) [of 87] overflow_children by simp_all
  have "epath tr 0 (code_of tr c) j"
  proof (rule path_epath [where e = 87, OF _ _ _ _ _ cp(3)])
    show "\<forall>k < length tr. k \<noteq> 87 \<longrightarrow> exact tr k" using t(2) by (simp add: t(1))
    show "val (tr ! child tr 87 False) < 256" unfolding c87 t(8) using t(15) by simp
    show "val (tr ! child tr 87 True) < 256" unfolding c87 t(7) using t(16) by simp
    show "j \<noteq> child tr 87 False" unfolding c87 using cp(2) t(8) assms(5) by auto
    show "j \<noteq> child tr 87 True" unfolding c87 using cp(2) t(7) assms(6) by auto
  qed
  from get_next_epath [OF assms(3,4) this [unfolded j_def]] show ?thesis .
qed

text \<open>The byte \<open>0\<close>: one bit.\<close>

lemma step_zero:
  assumes "renaming f" and "tr = map (relabel f) overflow_tree"
    and "packed_object srt data tr cd" and "data = pre @ 0 # rest"
  shows "get_next srt data cd (at_bit (payload_bytes tr data) (length (codes tr pre)) v)
           = ok (at_bit (payload_bytes tr data) (length (codes tr (pre @ [0]))) 0)"
proof -
  note t = renamed_tree [OF assms(1,2)]
  have "child tr 0 True = 1" using t(3) [of 0] overflow_children by simp
  then have "epath tr 0 [True] 1" using t(2) [of 0] t(6) [of 0] by (simp add: t(1))
  then have "epath tr 0 (code_of tr 0) (find_if (\<lambda>n. val n = uint (0 :: byte)) tr)"
    unfolding t(11) t(14) .
  from get_next_epath [OF assms(3,4) this] show ?thesis by simp
qed

text \<open>
  The symbol that \<open>std::sort\<close> puts first, the left child of node 87, followed by a byte
  \<open>0\<close>: from entry 87 the walk moves on by the stored left offset 1 to entry 88, reads the
  bit of the byte \<open>0\<close> there and ends at the leaf 341.  The step takes the bits of both
  bytes.
\<close>

lemma step_first:
  assumes "renaming f" and "tr = map (relabel f) overflow_tree"
    and "packed_object srt data tr cd" and "data = pre @ word_of_int (f 1) # 0 # rest"
  shows "\<exists>w. get_next srt data cd (at_bit (payload_bytes tr data) (length (codes tr pre)) v)
           = ok (at_bit (payload_bytes tr data)
                   (length (codes tr (pre @ [word_of_int (f 1), 0]))) w)"
proof -
  note t = renamed_tree [OF assms(1,2)] and d = packed_objectD [OF assms(3)]
  define B where "B = payload_bytes tr data"
  define q where "q = length (codes tr pre)"
  define bs where "bs = [False, True, False, True, True, True, False, True, False, True]"
  define ns :: "nat list" where "ns = [2, 3, 6, 11, 21, 23, 86, 87, 88, 341]"
  have cm: "codes tr [word_of_int (f 1), 0] = bs" by (simp add: t(13) t(11) bs_def)
  have dd: "data = pre @ [word_of_int (f 1), 0] @ rest" using assms(4) by simp
  note pb = payload_bits [OF assms(3) dd, unfolded cm, folded q_def B_def]
  have sp: "stored_path tr 0 bs ns"
    unfolding bs_def ns_def by (rule renamed_stored_paths(2) [OF assms(1,2)])
  have ne: "bs \<noteq> []" by (simp add: bs_def)
  have lf: "decode_entry tr (last ns) ! 1 = 0"
    using renamed_entries(21) [OF assms(1,2)] by (simp add: ns_def)
  have "table_walk cd (B + 3 * 0) (q div 8) (cd ! (q div 8)) (bit_mask q)
          = ok (B + 3 * last ns, (q + length bs) div 8, bit_mask (q + length bs))"
    by (rule table_walk_stored [OF d(7) [folded B_def] sp ne lf pb(1,2)])
  then have w: "table_walk cd B (q div 8) (cd ! (q div 8)) (bit_mask q)
          = ok (B + 3 * last ns, (q + length bs) div 8, bit_mask (q + length bs))" by simp
  have q': "length (codes tr (pre @ [word_of_int (f 1), 0])) = q + length bs"
    unfolding codes_simps(3) cm by (simp add: q_def)
  have "get_next srt data cd (at_bit B q v)
          = ok (at_bit B (q + length bs) (uint (cd ! (B + 3 * last ns))))"
    unfolding B_def q_def
    unfolding get_next_at(1) [OF assms(3) pb(3) [OF ne, unfolded q_def]]
    unfolding B_def [symmetric] q_def [symmetric] w
    by (simp add: at_bit_def)
  then show ?thesis unfolding q' B_def q_def by blast
qed

text \<open>
  The symbol that \<open>std::sort\<close> puts second, the right child of node 87: the walk reaches
  entry 87 with the eighth bit, reads a 1 bit there, adds the stored right offset 0 and
  is at entry 87 again.
\<close>

lemma step_second:
  assumes "renaming f" and "tr = map (relabel f) overflow_tree"
    and "packed_object srt data tr cd" and "data = pre @ word_of_int (f 2) # rest"
  shows "get_next_nodes srt data cd 9 (at_bit (payload_bytes tr data) (length (codes tr pre)) v)
           = ok (map (\<lambda>i. payload_bytes tr data + 3 * i) [2, 3, 6, 11, 21, 23, 86, 87, 87])"
proof -
  note t = renamed_tree [OF assms(1,2)] and d = packed_objectD [OF assms(3)]
  define B where "B = payload_bytes tr data"
  define q where "q = length (codes tr pre)"
  define bs where "bs = [False, True, False, True, True, True, False, True, True]"
  define ns :: "nat list" where "ns = [2, 3, 6, 11, 21, 23, 86, 87, 87]"
  have cm: "codes tr [word_of_int (f 2)] = bs" by (simp add: t(12) bs_def)
  have dd: "data = pre @ [word_of_int (f 2)] @ rest" using assms(4) by simp
  note pb = payload_bits [OF assms(3) dd, unfolded cm, folded q_def B_def]
  have sp: "stored_path tr 0 bs ns"
    unfolding bs_def ns_def by (rule renamed_stored_paths(1) [OF assms(1,2)])
  have ne: "bs \<noteq> []" and l9: "length bs = 9" by (simp_all add: bs_def)
  have "walk_nodes cd (length bs) (B + 3 * 0) (q div 8) (cd ! (q div 8)) (bit_mask q)
          = map (\<lambda>c. B + 3 * c) ns"
    by (rule walk_nodes_stored [OF d(7) [folded B_def] sp pb(1,2)])
  then have w: "walk_nodes cd 9 B (q div 8) (cd ! (q div 8)) (bit_mask q) = map (\<lambda>c. B + 3 * c) ns"
    unfolding l9 by simp
  show ?thesis
    unfolding get_next_at(2) [OF assms(3) pb(3) [OF ne, unfolded q_def]]
    unfolding B_def [symmetric] q_def [symmetric] w ns_def ..
qed

subsection \<open>The steps before the symbol that \<open>std::sort\<close> puts second\<close>

text \<open>
  After the first byte \<open>0\<close> and \<open>j\<close> of the pairs that follow it, the decoder stands at
  the start of the code of the next symbol.  It has taken two steps for each pair, but
  one step only for the pair of the symbol that \<open>std::sort\<close> puts first.
\<close>

lemma decoder_sync:
  assumes "renaming f" and "tr = map (relabel f) overflow_tree"
    and "packed_object srt interleaved_input tr cd"
  shows "j \<le> nat (f 2) - 1 \<Longrightarrow>
         \<exists>v. advance srt interleaved_input cd (2 * j - (if nat (f 1) - 1 < j then 1 else 0))
               = ok (at_bit (payload_bytes tr interleaved_input)
                       (length (codes tr (0 # zero_after (take j light_bytes)))) v)"
proof (induction j)
  case 0
  let ?B = "payload_bytes tr interleaved_input"
  have d0: "interleaved_input = [] @ 0 # (zero_after light_bytes @ replicate 9827 0)"
    by (simp add: light_bytes(3))
  have st: "\<lparr>m_data = 0, m_table = ?B, m_bit = 0x80, m_current = - 1\<rparr>
              = at_bit ?B (length (codes tr [])) (- 1)"
    by (simp add: at_bit_def)
  have "advance srt interleaved_input cd 0 = ok (at_bit ?B (length (codes tr ([] @ [0]))) 0)"
    unfolding advance.simps decoder_begin_def packed_objectD(5) [OF assms(3)] bind_res_ok
      prod.case nat_first st
    by (rule step_zero [OF assms d0])
  then show ?case by (intro exI [of _ 0]) simp
next
  case (Suc j)
  note t = renamed_tree [OF assms(1,2)]
  let ?B = "payload_bytes tr interleaved_input"
  define c where "c = light_bytes ! j"
  define pre where "pre = 0 # zero_after (take j light_bytes)"
  define rest where "rest = zero_after (drop (Suc j) light_bytes) @ replicate 9827 0"
  define k where "k = 2 * j - (if nat (f 1) - 1 < j then 1 else 0)"
  from Suc.prems have jm: "j < nat (f 2) - 1" by simp
  with t(16) have j172: "j < 172" by linarith
  from Suc.IH jm obtain v where ih: "advance srt interleaved_input cd k = ok (at_bit ?B (length (codes tr pre)) v)"
    unfolding k_def pre_def by auto
  have dd: "interleaved_input = pre @ c # 0 # rest"
    unfolding light_bytes(3) pre_def rest_def c_def
    using zero_after_split(1) [of j light_bytes] j172 by (simp add: light_bytes(1))
  have pre': "0 # zero_after (take (Suc j) light_bytes) = (pre @ [c]) @ [0]"
    unfolding pre_def c_def
    using zero_after_split(2) [of j light_bytes] j172 by (simp add: light_bytes(1))
  have cn: "c = of_nat (j + 1)" unfolding c_def by (rule light_bytes(2) [OF j172])
  have "unat c = j + 1" unfolding cn using j172 by (intro unat_byte_of_nat) simp
  then have cu: "uint c = int j + 1" by (simp add: uint_nat)
  have cy: "uint c \<noteq> f 2" using jm cu by linarith
  show ?case
  proof (cases "nat (f 1) - 1 = j")
    case True
    with t(15) have f1: "f 1 = int j + 1" by linarith
    have "c = word_of_int (f 1)" unfolding cn f1 by simp
    with dd have dd': "interleaved_input = pre @ word_of_int (f 1) # 0 # rest" by simp
    from step_first [OF assms dd', of v] pre' \<open>c = word_of_int (f 1)\<close>
    obtain w where g: "get_next srt interleaved_input cd (at_bit ?B (length (codes tr pre)) v)
        = ok (at_bit ?B (length (codes tr (0 # zero_after (take (Suc j) light_bytes)))) w)"
      by auto
    have kk: "2 * Suc j - (if nat (f 1) - 1 < Suc j then 1 else 0) = Suc k"
      using True by (simp add: k_def)
    show ?thesis
      unfolding kk advance.simps ih bind_res_ok g by blast
  next
    case False
    have cx: "uint c \<noteq> f 1" using False cu t(15) by linarith
    note g1 = step_light [OF assms dd cx cy, of v]
    have dd2: "interleaved_input = (pre @ [c]) @ 0 # rest" using dd by simp
    note g2 = step_zero [OF assms dd2, of "uint c"]
    have kk: "2 * Suc j - (if nat (f 1) - 1 < Suc j then 1 else 0) = Suc (Suc k)"
      using False by (auto simp: k_def)
    show ?thesis
      unfolding kk advance.simps ih bind_res_ok g1 g2 pre' by blast
  qed
qed

subsection \<open>C10: the walks\<close>

text \<open>
  The number of \<open>++\<close> after \<open>begin()\<close> that bring the decoder to the symbol that
  \<open>std::sort\<close> puts second among the 172 symbols that occur once: \<open>x\<close> and \<open>y\<close> are the
  values of the first two nodes of the list of \<open>build_node_list\<close>, and the byte \<open>y\<close> is
  at index \<open>2 y - 1\<close> of the input.
\<close>

definition stay_step :: "(node list \<Rightarrow> node list) \<Rightarrow> nat" where
  "stay_step srt =
     (let list = build_node_list srt interleaved_input;
          x = nat (val (list ! 0));
          y = nat (val (list ! 1))
      in if x < y then 2 * y - 3 else 2 * y - 2)"

text \<open>
  C10: every traversal ends: a walk from a leaf to the root moves to a smaller index with
  each parent link, and in a step of the decoder the table walk moves to a larger table
  index with each bit until it reaches a leaf.

  The walks from the leaves do (\<open>edges_to_root_total\<close>, \<open>encode_walk_written\<close>), and so
  does the table walk when the tree has at most 256 nodes (\<open>table_walk_path\<close>).  For the
  input \<open>interleaved_input\<close> the tree has 345 nodes, and entry 87 of the table holds the
  offsets 1 and 0 in place of the distances 257 and 256, whatever order \<open>std::sort\<close>
  leaves among the symbols of equal frequency.  The order decides which two symbols are
  the children of node 87.  For every order the decoder \<open>huffman_compressor::decoder\<close>,
  after \<open>stay_step srt\<close> steps from \<open>begin()\<close>, stands at the code of the right child: the
  walk of its next step reaches entry 87 on the eighth bit, reads a 1 bit, adds the
  stored right offset 0, and is at entry 87 again after the ninth.
\<close>

theorem table_walk_stays_at_entry:
  assumes "std_sort srt"
  shows "\<exists>cd d. huffman_compressor srt interleaved_input = ok cd
           \<and> compressed_mode srt interleaved_input
           \<and> tree_count srt interleaved_input = 345
           \<and> object_offsets srt interleaved_input 87 = Some (1, 0)
           \<and> advance srt interleaved_input cd (stay_step srt) = ok d
           \<and> get_next_nodes srt interleaved_input cd 9 d
               = ok (map (\<lambda>i. m_table d + 3 * i) [2, 3, 6, 11, 21, 23, 86, 87, 87])"
proof -
  from interleaved_object [OF assms] obtain f tr cd where r: "renaming f"
    and tr: "tr = map (relabel f) overflow_tree"
    and l: "build_node_list srt interleaved_input = map (relabel f) overflow_list"
    and po: "packed_object srt interleaved_input tr cd" by blast
  note t = renamed_tree [OF r tr] and d = packed_objectD [OF po]
  let ?B = "payload_bytes tr interleaved_input"
  define m where "m = nat (f 2) - 1"
  have m172: "m < 172" unfolding m_def using t(16) by linarith
  have hc: "huffman_compressor srt interleaved_input = ok cd"
    using po unfolding packed_object_def by blast
  have cm: "compressed_mode srt interleaved_input"
    unfolding compressed_mode_iff by (rule d(6))
  have tc: "tree_count srt interleaved_input = 345"
    using build_facts(2) [OF assms d(2)] t(1) by simp
  have i87: "87 < length tr" by (simp add: t(1))
  have oo: "object_offsets srt interleaved_input 87 = Some (1, 0)"
    unfolding object_offsets_eq(1) [OF assms cm d(2) i87]
    using renamed_entries(17,18) [OF r tr] by simp
  have l0: "val (overflow_list ! 0) = 1" and l1: "val (overflow_list ! 1) = 2"
    by (simp_all add: overflow_list_def nth_append)
  have ll: "length overflow_list = 173" by (simp add: overflow_list_def)
  have "val (map (relabel f) overflow_list ! 0) = f 1" "val (map (relabel f) overflow_list ! 1) = f 2"
    using l0 l1 ll by simp_all
  then have ss: "stay_step srt = (if nat (f 1) < nat (f 2) then 2 * nat (f 2) - 3 else 2 * nat (f 2) - 2)"
    by (simp add: stay_step_def l Let_def)
  have "stay_step srt = 2 * m - (if nat (f 1) - 1 < m then 1 else 0)"
    unfolding ss m_def using t(15,16) by auto
  with decoder_sync [OF r tr po, of m] obtain v
    where a: "advance srt interleaved_input cd (stay_step srt)
                = ok (at_bit ?B (length (codes tr (0 # zero_after (take m light_bytes)))) v)"
    unfolding m_def by auto
  have "light_bytes ! m = of_nat (m + 1)" by (rule light_bytes(2) [OF m172])
  also have "m + 1 = nat (f 2)" using t(16) by (simp add: m_def)
  also have "(of_nat (nat (f 2)) :: byte) = word_of_int (f 2)" using t(16) by simp
  finally have y: "light_bytes ! m = word_of_int (f 2)" .
  have dd: "interleaved_input = (0 # zero_after (take m light_bytes)) @ word_of_int (f 2)
              # (0 # zero_after (drop (Suc m) light_bytes) @ replicate 9827 0)"
    unfolding light_bytes(3) y [symmetric]
    using zero_after_split(1) [of m light_bytes] m172 by (simp add: light_bytes(1))
  note g = step_second [OF r tr po dd, of v]
  have "get_next_nodes srt interleaved_input cd 9
          (at_bit ?B (length (codes tr (0 # zero_after (take m light_bytes)))) v)
        = ok (map (\<lambda>i. m_table (at_bit ?B (length (codes tr (0 # zero_after (take m light_bytes)))) v)
                     + 3 * i) [2, 3, 6, 11, 21, 23, 86, 87, 87])"
    unfolding g at_bit_sel ..
  with hc cm tc oo a show ?thesis by blast
qed

text \<open>
  For the stable order the symbols put first and second are the bytes \<open>1\<close> and \<open>2\<close>, and
  the step is the one after the first \<open>++\<close>.
\<close>

lemma stay_step_sort_key: "stay_step (sort_key freq) = 1"
proof -
  have "build_node_list (sort_key freq) interleaved_input = overflow_list"
    unfolding build_node_list_def count_values_interleaved by (rule sort_overflow)
  moreover have "val (overflow_list ! 0) = 1" "val (overflow_list ! 1) = 2"
    by (simp_all add: overflow_list_def nth_append)
  ultimately show ?thesis by (simp add: stay_step_def Let_def)
qed

theorem table_walk_stays_at_entry_witness:
  "\<exists>cd d. huffman_compressor (sort_key freq) interleaved_input = ok cd
     \<and> compressed_mode (sort_key freq) interleaved_input
     \<and> tree_count (sort_key freq) interleaved_input = 345
     \<and> object_offsets (sort_key freq) interleaved_input 87 = Some (1, 0)
     \<and> advance (sort_key freq) interleaved_input cd 1 = ok d
     \<and> get_next_nodes (sort_key freq) interleaved_input cd 9 d
         = ok (map (\<lambda>i. m_table d + 3 * i) [2, 3, 6, 11, 21, 23, 86, 87, 87])"
  using table_walk_stays_at_entry [OF std_sort_sort_key] unfolding stay_step_sort_key .

end
